theory Spec2Isabelle
  imports Complex_Main "HOL-Library.Monad_Syntax"
begin

section \<open>Error codes, integers and the graph container\<close>

text \<open>
  The error codes of \<^verbatim>\<open>igraph_error_t\<close> that the functions of
  \<^verbatim>\<open>src/flow/st-cuts.c\<close> can return. \<^verbatim>\<open>IGRAPH_SUCCESS\<close> is the
  \<open>Inr\<close> side of a result.
\<close>

datatype igraph_error_t =
    IGRAPH_FAILURE
  | IGRAPH_EINVAL
  | IGRAPH_EINVEVECTOR
  | IGRAPH_EINVVID
  | IGRAPH_UNIMPLEMENTED
  | IGRAPH_EOVERFLOW

datatype igraph_neimode_t = IGRAPH_OUT | IGRAPH_IN | IGRAPH_ALL

text \<open>
  Modelled from the spec: the width of \<^verbatim>\<open>igraph_integer_t\<close> and the platform
  edge-count limit (\<^verbatim>\<open>igraph_constants.h\<close> is not among the sources). The
  default build has 64-bit signed integers and an edge-count limit of half the largest
  integer.
\<close>

definition IGRAPH_INTEGER_MAX :: int where
  "IGRAPH_INTEGER_MAX = 2 ^ 63 - 1"

definition IGRAPH_INTEGER_MIN :: int where
  "IGRAPH_INTEGER_MIN = - (2 ^ 63)"

definition IGRAPH_ECOUNT_MAX :: int where
  "IGRAPH_ECOUNT_MAX = IGRAPH_INTEGER_MAX div 2"

definition IGRAPH_VCOUNT_MAX :: int where
  "IGRAPH_VCOUNT_MAX = IGRAPH_INTEGER_MAX - 1"

text \<open>
  Arithmetic of \<^verbatim>\<open>igraph_integer_t\<close> written with plain C operators: the
  mathematical result reduced into the signed 64-bit range.
\<close>

definition int_wrap :: "int \<Rightarrow> int" where
  "int_wrap x = (x + 2 ^ 63) mod 2 ^ 64 - 2 ^ 63"

text \<open>
  Modelled from the spec: the checked arithmetic macros of \<^verbatim>\<open>math/safe_intop.h\<close>
  (not among the sources): the exact result, or the overflow error when the exact result
  is not an \<^verbatim>\<open>igraph_integer_t\<close>.
\<close>

definition IGRAPH_SAFE_ADD :: "int \<Rightarrow> int \<Rightarrow> igraph_error_t + int" where
  "IGRAPH_SAFE_ADD a b =
     (if a + b < IGRAPH_INTEGER_MIN \<or> IGRAPH_INTEGER_MAX < a + b
      then Inl IGRAPH_EOVERFLOW else Inr (a + b))"

definition IGRAPH_SAFE_MULT :: "int \<Rightarrow> int \<Rightarrow> igraph_error_t + int" where
  "IGRAPH_SAFE_MULT a b =
     (if a * b < IGRAPH_INTEGER_MIN \<or> IGRAPH_INTEGER_MAX < a * b
      then Inl IGRAPH_EOVERFLOW else Inr (a * b))"

text \<open>
  The graph container is an external collaborator of the file; only its accessors are
  used. A graph has \<open>g_n\<close> vertices \<open>0 .. g_n - 1\<close>, a direction flag, and edge
  \<open>i\<close> is the \<open>i\<close>-th pair \<open>(from, to)\<close> of \<open>g_edges\<close>.
\<close>

record igraph_t =
  g_n :: int
  g_directed :: bool
  g_edges :: "(int \<times> int) list"

definition igraph_vcount :: "igraph_t \<Rightarrow> int" where
  "igraph_vcount graph = g_n graph"

definition igraph_ecount :: "igraph_t \<Rightarrow> int" where
  "igraph_ecount graph = int (length (g_edges graph))"

definition igraph_is_directed :: "igraph_t \<Rightarrow> bool" where
  "igraph_is_directed graph = g_directed graph"

definition IGRAPH_FROM :: "igraph_t \<Rightarrow> int \<Rightarrow> int" where
  "IGRAPH_FROM graph i = fst (g_edges graph ! nat i)"

definition IGRAPH_TO :: "igraph_t \<Rightarrow> int \<Rightarrow> int" where
  "IGRAPH_TO graph i = snd (g_edges graph ! nat i)"

text \<open>
  The invariant every \<^verbatim>\<open>igraph_t\<close> built by the library satisfies: the counts are
  within the platform limits and every endpoint is a vertex.
\<close>

definition igraph_wf :: "igraph_t \<Rightarrow> bool" where
  "igraph_wf graph =
     (0 \<le> g_n graph \<and> g_n graph \<le> IGRAPH_VCOUNT_MAX \<and>
      int (length (g_edges graph)) \<le> IGRAPH_ECOUNT_MAX \<and>
      list_all (\<lambda>e. 0 \<le> fst e \<and> fst e < g_n graph \<and> 0 \<le> snd e \<and> snd e < g_n graph)
        (g_edges graph))"

text \<open>
  Modelled from the spec: \<^verbatim>\<open>igraph_create\<close> (the graph container is out of
  scope of the sources). It reads a flat vector of endpoints, two per edge, and builds a
  graph on at least \<open>n\<close> vertices; the vertex count grows to cover the largest id.
\<close>

fun edge_pairs :: "int list \<Rightarrow> (int \<times> int) list" where
  "edge_pairs (a # b # rest) = (a, b) # edge_pairs rest"
| "edge_pairs _ = []"

definition igraph_create :: "int list \<Rightarrow> int \<Rightarrow> bool \<Rightarrow> igraph_error_t + igraph_t" where
  "igraph_create edges n directed =
     (if length edges mod 2 \<noteq> 0 then Inl IGRAPH_EINVEVECTOR
      else if list_ex (\<lambda>x. x < 0) edges then Inl IGRAPH_EINVVID
      else Inr \<lparr> g_n = fold (\<lambda>x m. max (x + 1) m) edges n,
                 g_directed = directed,
                 g_edges = edge_pairs edges \<rparr>)"

text \<open>
  \<^verbatim>\<open>VECTOR(v)[ptr++] = x\<close>: a store at the running position, which then moves on.
\<close>

definition store_next :: "'a \<Rightarrow> 'a list \<times> int \<Rightarrow> 'a list \<times> int" where
  "store_next x vp = ((fst vp)[nat (snd vp) := x], snd vp + 1)"

text \<open>
  \<^verbatim>\<open>igraph_vector_resize\<close>: the first elements are kept; the model fills new
  elements with \<open>0\<close> (the C code leaves them unspecified and this file overwrites them).
\<close>

definition igraph_vector_resize :: "'a::zero list \<Rightarrow> int \<Rightarrow> 'a list" where
  "igraph_vector_resize v newsize = take (nat newsize) v @ replicate (nat newsize - length v) 0"

section \<open>Even-Tarjan reduction\<close>

text \<open>
  \<^verbatim>\<open>igraph_even_tarjan_reduction\<close>, lines 85 to 146. The capacity argument is
  \<open>None\<close> for a null pointer. The loop state is the edge vector with \<open>edgeptr\<close> and
  the capacity vector with \<open>capptr\<close>.
\<close>

definition even_tarjan_vertex_step ::
  "int \<Rightarrow> bool \<Rightarrow> int \<Rightarrow> (int list \<times> int) \<times> (real list \<times> int) \<Rightarrow>
   (int list \<times> int) \<times> (real list \<times> int)" where
  "even_tarjan_vertex_step no_of_nodes has_capacity i s =
     (let ev = store_next (i + no_of_nodes) (store_next i (fst s));
          cv = (if has_capacity then store_next 1 (snd s) else snd s)
      in (ev, cv))"

definition even_tarjan_edge_step ::
  "igraph_t \<Rightarrow> int \<Rightarrow> bool \<Rightarrow> int \<Rightarrow> (int list \<times> int) \<times> (real list \<times> int) \<Rightarrow>
   (int list \<times> int) \<times> (real list \<times> int)" where
  "even_tarjan_edge_step graph no_of_nodes has_capacity i s =
     (let from = IGRAPH_FROM graph i;
          to = IGRAPH_TO graph i;
          ev = store_next from (store_next (to + no_of_nodes)
                 (store_next to (store_next (from + no_of_nodes) (fst s))));
          cv = (if has_capacity
                then store_next (real_of_int no_of_nodes)
                       (store_next (real_of_int no_of_nodes) (snd s))
                else snd s)
      in (ev, cv))"

definition igraph_even_tarjan_reduction ::
  "igraph_t \<Rightarrow> real list option \<Rightarrow> igraph_error_t + (igraph_t \<times> real list option)" where
  "igraph_even_tarjan_reduction graph capacity =
     (let no_of_nodes = igraph_vcount graph;
          no_of_edges = igraph_ecount graph;
          new_no_of_edges0 = int_wrap (no_of_edges * 2)
      in case IGRAPH_SAFE_MULT no_of_nodes 2 of
           Inl e \<Rightarrow> Inl e
         | Inr new_no_of_nodes \<Rightarrow>
      (case IGRAPH_SAFE_ADD new_no_of_edges0 no_of_nodes of
           Inl e \<Rightarrow> Inl e
         | Inr new_no_of_edges \<Rightarrow>
      if new_no_of_edges > IGRAPH_ECOUNT_MAX then Inl IGRAPH_EOVERFLOW
      else
        let edges = replicate (nat (new_no_of_edges * 2)) 0;
            cap = (case capacity of None \<Rightarrow> []
                   | Some c \<Rightarrow> igraph_vector_resize c new_no_of_edges);
            s0 = ((edges, 0), (cap, 0));
            s1 = fold (even_tarjan_vertex_step no_of_nodes (capacity \<noteq> None))
                   [0 .. no_of_nodes - 1] s0;
            s2 = fold (even_tarjan_edge_step graph no_of_nodes (capacity \<noteq> None))
                   [0 .. no_of_edges - 1] s1
        in case igraph_create (fst (fst s2)) new_no_of_nodes True of
             Inl e \<Rightarrow> Inl e
           | Inr graphbar \<Rightarrow>
               Inr (graphbar, if capacity = None then None else Some (fst (snd s2)))))"

section \<open>Residual graphs\<close>

text \<open>
  \<^verbatim>\<open>igraph_i_reverse_residual_graph\<close>, lines 217 to 258, and its public wrapper
  \<^verbatim>\<open>igraph_reverse_residual_graph\<close>, lines 260 to 282. Capacities and flows are
  \<^verbatim>\<open>igraph_real_t\<close>; the code only compares them, and the model takes them as
  reals (no NaN).
\<close>

definition reverse_residual_count_step ::
  "real list option \<Rightarrow> real list \<Rightarrow> int \<Rightarrow> int \<Rightarrow> int" where
  "reverse_residual_count_step capacity flow i no_new_edges =
     (let cap = (case capacity of None \<Rightarrow> 1 | Some c \<Rightarrow> c ! nat i);
          k1 = (if flow ! nat i > 0 then no_new_edges + 1 else no_new_edges);
          k2 = (if flow ! nat i < cap then k1 + 1 else k1)
      in k2)"

definition reverse_residual_fill_step ::
  "igraph_t \<Rightarrow> real list option \<Rightarrow> real list \<Rightarrow> int \<Rightarrow> int list \<times> int \<Rightarrow> int list \<times> int" where
  "reverse_residual_fill_step graph capacity flow i tp =
     (let from = IGRAPH_FROM graph i;
          to = IGRAPH_TO graph i;
          cap = (case capacity of None \<Rightarrow> 1 | Some c \<Rightarrow> c ! nat i);
          tp1 = (if flow ! nat i > 0 then store_next to (store_next from tp) else tp);
          tp2 = (if flow ! nat i < cap then store_next from (store_next to tp1) else tp1)
      in tp2)"

definition igraph_i_reverse_residual_graph ::
  "igraph_t \<Rightarrow> real list option \<Rightarrow> real list \<Rightarrow> int list \<Rightarrow> igraph_error_t + igraph_t" where
  "igraph_i_reverse_residual_graph graph capacity flow tmp =
     (let no_of_nodes = igraph_vcount graph;
          no_of_edges = igraph_ecount graph;
          no_new_edges = fold (reverse_residual_count_step capacity flow)
                           [0 .. no_of_edges - 1] 0;
          tmp1 = igraph_vector_resize tmp (no_new_edges * 2);
          tp = fold (reverse_residual_fill_step graph capacity flow)
                 [0 .. no_of_edges - 1] (tmp1, 0)
      in igraph_create (fst tp) no_of_nodes True)"

definition igraph_reverse_residual_graph ::
  "igraph_t \<Rightarrow> real list option \<Rightarrow> real list \<Rightarrow> igraph_error_t + igraph_t" where
  "igraph_reverse_residual_graph graph capacity flow =
     (let no_of_edges = igraph_ecount graph
      in if capacity \<noteq> None \<and> int (length (the capacity)) \<noteq> no_of_edges
         then Inl IGRAPH_EINVAL
         else if int (length flow) \<noteq> no_of_edges then Inl IGRAPH_EINVAL
         else igraph_i_reverse_residual_graph graph capacity flow [])"

section \<open>External collaborators: adjacency, searches, induced subgraphs, the two stacks\<close>

text \<open>
  The functions of this section are called by \<^verbatim>\<open>src/flow/st-cuts.c\<close> and live in
  files that are not among the sources. Each is modelled from the contract the
  specification gives it.
\<close>

text \<open>
  Modelled from the spec: \<^verbatim>\<open>igraph_neighbors\<close>, the adjacency accessor of the graph
  container. The neighbours of a vertex come in increasing order of vertex id, one entry
  per edge; an undirected graph ignores the mode.
\<close>

definition igraph_neighbors :: "igraph_t \<Rightarrow> int \<Rightarrow> igraph_neimode_t \<Rightarrow> int list" where
  "igraph_neighbors graph vid mode =
     (let outs = map snd (filter (\<lambda>e. fst e = vid) (g_edges graph));
          ins = map fst (filter (\<lambda>e. snd e = vid) (g_edges graph))
      in sort (if \<not> g_directed graph \<or> mode = IGRAPH_ALL then outs @ ins
               else if mode = IGRAPH_OUT then outs else ins))"

text \<open>
  Modelled from the spec: \<^verbatim>\<open>igraph_adjlist_init\<close> and \<^verbatim>\<open>igraph_degree\<close>
  (with loops counted), both read off the neighbour lists.
\<close>

definition igraph_adjlist_init :: "igraph_t \<Rightarrow> igraph_neimode_t \<Rightarrow> int list list" where
  "igraph_adjlist_init graph mode =
     map (\<lambda>i. igraph_neighbors graph i mode) [0 .. igraph_vcount graph - 1]"

definition igraph_degree :: "igraph_t \<Rightarrow> igraph_neimode_t \<Rightarrow> int list" where
  "igraph_degree graph mode =
     map (\<lambda>i. int (length (igraph_neighbors graph i mode))) [0 .. igraph_vcount graph - 1]"

definition IGRAPH_REVERSE_MODE :: "igraph_neimode_t \<Rightarrow> igraph_neimode_t" where
  "IGRAPH_REVERSE_MODE mode =
     (if mode = IGRAPH_IN then IGRAPH_OUT else if mode = IGRAPH_OUT then IGRAPH_IN else mode)"

subsection \<open>Depth-first search\<close>

text \<open>
  Modelled from the spec: \<^verbatim>\<open>igraph_dfs\<close> from one root, without the restart on
  unreachable vertices. The search keeps a stack of vertices, each with the neighbours
  it has not looked at yet, and visits the first neighbour not yet added. The model
  records the calls of the in-callback and out-callback as a list of events; the
  \<open>order\<close> vector holds the vertices in the order of their in-events, padded with
  \<open>-1\<close>; the \<open>father\<close> vector holds \<open>-1\<close> for the root and \<open>-2\<close> for a vertex that
  is never reached.
\<close>

datatype igraph_dfs_event = DFS_IN int | DFS_OUT int

definition graph_endpoints :: "igraph_t \<Rightarrow> int set" where
  "graph_endpoints graph = fst ` set (g_edges graph) \<union> snd ` set (g_edges graph)"

definition dfs_pending :: "igraph_t \<Rightarrow> (int \<times> int list) list \<Rightarrow> int list \<Rightarrow> nat" where
  "dfs_pending graph stack added =
     card ((graph_endpoints graph \<union> (\<Union>p \<in> set stack. set (snd p))) - set added)"

definition dfs_stack_size :: "(int \<times> int list) list \<Rightarrow> nat" where
  "dfs_stack_size stack = sum_list (map (\<lambda>p. Suc (length (snd p))) stack)"

lemma igraph_neighbors_endpoints:
  "set (igraph_neighbors graph vid mode) \<subseteq> graph_endpoints graph"
  by (auto simp: igraph_neighbors_def graph_endpoints_def Let_def)

lemma finite_graph_endpoints: "finite (graph_endpoints graph)"
  by (simp add: graph_endpoints_def)

lemma dropWhile_Cons_set:
  "dropWhile P xs = y # ys \<Longrightarrow> y \<in> set xs \<and> \<not> P y \<and> set ys \<subseteq> set xs"
  by (induction xs) (auto split: if_splits)

lemma dropWhile_Nil_all: "dropWhile P xs = [] \<Longrightarrow> \<forall>x \<in> set xs. P x"
  by (simp add: dropWhile_eq_Nil_conv)

lemma dfs_pending_step_in:
  assumes "dropWhile (\<lambda>nei. nei \<in> set added) neis = nei # rest"
  shows "dfs_pending graph ((nei, igraph_neighbors graph nei mode) # (actvect, rest) # stack)
           (nei # added)
         < dfs_pending graph ((actvect, neis) # stack) added"
proof -
  let ?U = "graph_endpoints graph \<union> (\<Union>p \<in> set ((actvect, neis) # stack). set (snd p))"
  let ?U' = "graph_endpoints graph \<union>
             (\<Union>p \<in> set ((nei, igraph_neighbors graph nei mode) # (actvect, rest) # stack). set (snd p))"
  have n: "nei \<in> set neis" "nei \<notin> set added" "set rest \<subseteq> set neis"
    using dropWhile_Cons_set [OF assms] by auto
  have sub: "?U' \<subseteq> ?U"
    using n(3) igraph_neighbors_endpoints [of graph nei mode] by auto
  have fin: "finite (?U - set added)"
    by (simp add: finite_graph_endpoints)
  have "?U' - set (nei # added) \<subset> ?U - set added"
    using sub n(1,2) by auto
  then show ?thesis
    unfolding dfs_pending_def using fin by (intro psubset_card_mono)
qed

lemma dfs_pending_step_out:
  assumes "dropWhile (\<lambda>nei. nei \<in> set added) neis = []"
  shows "dfs_pending graph stack added = dfs_pending graph ((actvect, neis) # stack) added"
proof -
  have "set neis \<subseteq> set added" using dropWhile_Nil_all [OF assms] by auto
  then have "(graph_endpoints graph \<union> (\<Union>p \<in> set stack. set (snd p))) - set added
           = (graph_endpoints graph \<union> (\<Union>p \<in> set ((actvect, neis) # stack). set (snd p))) - set added"
    by auto
  then show ?thesis by (simp only: dfs_pending_def)
qed

function igraph_dfs_loop ::
  "igraph_t \<Rightarrow> igraph_neimode_t \<Rightarrow> (int \<times> int list) list \<Rightarrow> int list \<Rightarrow> int list \<Rightarrow>
   igraph_dfs_event list \<Rightarrow> int list \<times> igraph_dfs_event list" where
  "igraph_dfs_loop graph mode [] added father events = (father, events)"
| "igraph_dfs_loop graph mode ((actvect, neis) # stack) added father events =
     (case dropWhile (\<lambda>nei. nei \<in> set added) neis of
        [] \<Rightarrow> igraph_dfs_loop graph mode stack added father (events @ [DFS_OUT actvect])
      | nei # rest \<Rightarrow>
          igraph_dfs_loop graph mode
            ((nei, igraph_neighbors graph nei mode) # (actvect, rest) # stack)
            (nei # added) (father[nat nei := actvect]) (events @ [DFS_IN nei]))"
  by pat_completeness auto
termination
proof (relation "measures [\<lambda>(graph, mode, stack, added, father, events). dfs_pending graph stack added,
                           \<lambda>(graph, mode, stack, added, father, events). dfs_stack_size stack]",
       goal_cases)
  case 1
  then show ?case by simp
next
  case (2 graph mode actvect neis stack added father events)
  then show ?case
    using dfs_pending_step_out [of added neis graph stack actvect]
    by (simp add: dfs_stack_size_def)
next
  case (3 graph mode actvect neis stack added father events nei rest)
  then show ?case
    using dfs_pending_step_in [of added neis nei rest graph mode actvect stack]
    by simp
qed

fun dfs_in_order :: "igraph_dfs_event list \<Rightarrow> int list" where
  "dfs_in_order [] = []"
| "dfs_in_order (DFS_IN v # es) = v # dfs_in_order es"
| "dfs_in_order (DFS_OUT v # es) = dfs_in_order es"

definition igraph_dfs ::
  "igraph_t \<Rightarrow> int \<Rightarrow> igraph_neimode_t \<Rightarrow>
   igraph_error_t + (int list \<times> int list \<times> igraph_dfs_event list)" where
  "igraph_dfs graph rootv mode =
     (let no_of_nodes = igraph_vcount graph
      in if rootv < 0 \<or> rootv \<ge> no_of_nodes then Inl IGRAPH_EINVVID
         else
           let father0 = (replicate (nat no_of_nodes) (- 2))[nat rootv := - 1];
               fe = igraph_dfs_loop graph mode [(rootv, igraph_neighbors graph rootv mode)]
                      [rootv] father0 [DFS_IN rootv];
               visited = dfs_in_order (snd fe);
               order = visited @ replicate (nat no_of_nodes - length visited) (- 1)
           in Inr (order, fst fe, snd fe))"

subsection \<open>Breadth-first search\<close>

text \<open>
  Modelled from the spec: \<^verbatim>\<open>igraph_bfs\<close> with a restricted vertex set and without
  the restart on unreachable vertices. Vertices outside the restricted set count as
  already added, so a root outside it is skipped. The \<open>order\<close> vector holds the
  vertices in the order they leave the queue, padded with \<open>-1\<close>.
\<close>

definition bfs_visit_neis :: "int list \<Rightarrow> int list \<times> int list \<Rightarrow> int list \<times> int list" where
  "bfs_visit_neis neis qa =
     fold (\<lambda>nei qa. if nei \<in> set (snd qa) then qa else (fst qa @ [nei], nei # snd qa)) neis qa"

lemma bfs_visit_neis_shape:
  "\<exists>new. bfs_visit_neis neis (Q, added) = (Q @ new, rev new @ added) \<and>
         set new \<subseteq> set neis - set added"
proof (induction neis arbitrary: Q added)
  case Nil
  then show ?case by (simp add: bfs_visit_neis_def)
next
  case (Cons nei neis)
  show ?case
  proof (cases "nei \<in> set added")
    case True
    obtain new where "bfs_visit_neis neis (Q, added) = (Q @ new, rev new @ added)"
      "set new \<subseteq> set neis - set added"
      using Cons.IH [of Q added] by blast
    then show ?thesis using True by (auto simp: bfs_visit_neis_def)
  next
    case False
    obtain new where new: "bfs_visit_neis neis (Q @ [nei], nei # added)
        = ((Q @ [nei]) @ new, rev new @ nei # added)"
      "set new \<subseteq> set neis - set (nei # added)"
      using Cons.IH [of "Q @ [nei]" "nei # added"] by blast
    have "bfs_visit_neis (nei # neis) (Q, added) = (Q @ (nei # new), rev (nei # new) @ added)"
      using False new(1) by (simp add: bfs_visit_neis_def)
    moreover have "set (nei # new) \<subseteq> set (nei # neis) - set added"
      using False new(2) by auto
    ultimately show ?thesis by blast
  qed
qed

definition bfs_pending :: "igraph_t \<Rightarrow> int list \<Rightarrow> nat" where
  "bfs_pending graph added = card (graph_endpoints graph - set added)"

function igraph_bfs_loop ::
  "igraph_t \<Rightarrow> igraph_neimode_t \<Rightarrow> int list \<Rightarrow> int list \<Rightarrow> int list \<Rightarrow> int list \<times> int list" where
  "igraph_bfs_loop graph mode [] added order = (added, order)"
| "igraph_bfs_loop graph mode (actvect # Q) added order =
     (let qa = bfs_visit_neis (igraph_neighbors graph actvect mode) (Q, added)
      in igraph_bfs_loop graph mode (fst qa) (snd qa) (order @ [actvect]))"
  by pat_completeness auto
termination
proof (relation "measures [\<lambda>(graph, mode, Q, added, order). bfs_pending graph added,
                           \<lambda>(graph, mode, Q, added, order). length Q]",
       goal_cases)
  case 1
  then show ?case by simp
next
  case (2 graph mode actvect Q added order qa)
  obtain new where new: "qa = (Q @ new, rev new @ added)"
    "set new \<subseteq> set (igraph_neighbors graph actvect mode) - set added"
    using bfs_visit_neis_shape [of "igraph_neighbors graph actvect mode" Q added] 2 by auto
  show ?case
  proof (cases "new = []")
    case True
    then show ?thesis using new by simp
  next
    case False
    then obtain x where x: "x \<in> set new" by (cases new) auto
    have xin: "x \<in> graph_endpoints graph - set added"
      using x new(2) igraph_neighbors_endpoints [of graph actvect mode] by auto
    have "graph_endpoints graph - set (rev new @ added) \<subset> graph_endpoints graph - set added"
      using x xin by auto
    then have "bfs_pending graph (rev new @ added) < bfs_pending graph added"
      unfolding bfs_pending_def
      by (intro psubset_card_mono) (simp_all add: finite_graph_endpoints)
    then show ?thesis using new by simp
  qed
qed

fun igraph_bfs_roots ::
  "igraph_t \<Rightarrow> igraph_neimode_t \<Rightarrow> int list \<Rightarrow> int list \<Rightarrow> int list \<Rightarrow> int list" where
  "igraph_bfs_roots graph mode [] added order = order"
| "igraph_bfs_roots graph mode (actroot # roots) added order =
     (if actroot \<in> set added then igraph_bfs_roots graph mode roots added order
      else
        let ao = igraph_bfs_loop graph mode [actroot] (actroot # added) order
        in igraph_bfs_roots graph mode roots (fst ao) (snd ao))"

definition igraph_vector_int_isininterval :: "int list \<Rightarrow> int \<Rightarrow> int \<Rightarrow> bool" where
  "igraph_vector_int_isininterval v low high = list_all (\<lambda>x. low \<le> x \<and> x \<le> high) v"

definition igraph_bfs ::
  "igraph_t \<Rightarrow> int \<Rightarrow> int list option \<Rightarrow> igraph_neimode_t \<Rightarrow> int list option \<Rightarrow>
   igraph_error_t + int list" where
  "igraph_bfs graph rootv roots mode restricted =
     (let no_of_nodes = igraph_vcount graph
      in if roots = None \<and> (rootv < 0 \<or> rootv \<ge> no_of_nodes) then Inl IGRAPH_EINVVID
         else if roots \<noteq> None \<and>
                 \<not> igraph_vector_int_isininterval (the roots) 0 (no_of_nodes - 1)
         then Inl IGRAPH_EINVVID
         else if restricted \<noteq> None \<and>
                 \<not> igraph_vector_int_isininterval (the restricted) 0 (no_of_nodes - 1)
         then Inl IGRAPH_EINVVID
         else
           let added0 = (case restricted of None \<Rightarrow> []
                         | Some r \<Rightarrow> filter (\<lambda>v. v \<notin> set r) [0 .. no_of_nodes - 1]);
               visited = igraph_bfs_roots graph mode
                           (case roots of None \<Rightarrow> [rootv] | Some rs \<Rightarrow> rs) added0 []
           in Inr (visited @ replicate (nat no_of_nodes - length visited) (- 1)))"

subsection \<open>Induced subgraph with index maps\<close>

text \<open>
  Modelled from the spec: \<^verbatim>\<open>igraph_induced_subgraph_map\<close>. The vertices to keep
  are given in increasing order; the \<open>i\<close>-th of them becomes vertex \<open>i\<close> of the
  subgraph. \<open>map\<close> holds the new index plus one (zero for a vertex that is dropped) and
  \<open>invmap\<close> the old id of each new vertex. The edges keep their order.
\<close>

definition igraph_induced_subgraph_map ::
  "igraph_t \<Rightarrow> int list \<Rightarrow> igraph_t \<times> int list \<times> int list" where
  "igraph_induced_subgraph_map graph vids =
     (let no_of_nodes = igraph_vcount graph;
          smap = fold (\<lambda>iv m. m[nat (snd iv) := int (fst iv) + 1]) (enumerate 0 vids)
                   (replicate (nat no_of_nodes) 0);
          kept = filter (\<lambda>e. smap ! nat (fst e) \<noteq> 0 \<and> smap ! nat (snd e) \<noteq> 0) (g_edges graph);
          res = \<lparr> g_n = int (length vids), g_directed = g_directed graph,
                  g_edges = map (\<lambda>e. (smap ! nat (fst e) - 1, smap ! nat (snd e) - 1)) kept \<rparr>
      in (res, smap, vids))"

subsection \<open>The batched marked queue and the element stack\<close>

text \<open>
  Modelled from the spec: the batched marked queue \<open>S\<close>
  (\<^verbatim>\<open>core/marked_queue.h\<close>). It is an ordered list of vertices, each at most once,
  with a stack of batch boundaries; the membership bitmap is the characteristic
  function of the list, so the model tests membership in the list. A boundary is the
  length of the list when the batch was started. \<open>push\<close> fails on a vertex that is
  already present; \<open>pop_back_batch\<close> removes what was pushed since the last
  \<open>start_batch\<close>.
\<close>

record igraph_marked_queue_int_t =
  mq_Q :: "int list"
  mq_batches :: "nat list"

definition igraph_marked_queue_int_init :: "int \<Rightarrow> igraph_marked_queue_int_t" where
  "igraph_marked_queue_int_init sz = \<lparr> mq_Q = [], mq_batches = [] \<rparr>"

definition igraph_marked_queue_int_iselement :: "igraph_marked_queue_int_t \<Rightarrow> int \<Rightarrow> bool" where
  "igraph_marked_queue_int_iselement q elem = (elem \<in> set (mq_Q q))"

definition igraph_marked_queue_int_size :: "igraph_marked_queue_int_t \<Rightarrow> int" where
  "igraph_marked_queue_int_size q = int (length (mq_Q q))"

definition igraph_marked_queue_int_as_vector :: "igraph_marked_queue_int_t \<Rightarrow> int list" where
  "igraph_marked_queue_int_as_vector q = mq_Q q"

definition igraph_marked_queue_int_start_batch ::
  "igraph_marked_queue_int_t \<Rightarrow> igraph_marked_queue_int_t" where
  "igraph_marked_queue_int_start_batch q = q \<lparr> mq_batches := length (mq_Q q) # mq_batches q \<rparr>"

definition igraph_marked_queue_int_push ::
  "igraph_marked_queue_int_t \<Rightarrow> int \<Rightarrow> igraph_error_t + igraph_marked_queue_int_t" where
  "igraph_marked_queue_int_push q elem =
     (if elem \<in> set (mq_Q q) then Inl IGRAPH_FAILURE
      else Inr (q \<lparr> mq_Q := mq_Q q @ [elem] \<rparr>))"

definition igraph_marked_queue_int_pop_back_batch ::
  "igraph_marked_queue_int_t \<Rightarrow> igraph_marked_queue_int_t" where
  "igraph_marked_queue_int_pop_back_batch q =
     (case mq_batches q of
        [] \<Rightarrow> q \<lparr> mq_Q := [] \<rparr>
      | b # bs \<Rightarrow> q \<lparr> mq_Q := take b (mq_Q q), mq_batches := bs \<rparr>)"

text \<open>
  Modelled from the spec: the element stack \<open>T\<close> (\<^verbatim>\<open>core/estack.h\<close>), a stack
  with a membership test in which a vertex is absent or present exactly once. The top
  is the head of the list. \<open>push\<close> fails on a vertex that is already present.
\<close>

type_synonym igraph_estack_t = "int list"

definition igraph_estack_init :: "int \<Rightarrow> igraph_estack_t" where
  "igraph_estack_init sz = []"

definition igraph_estack_iselement :: "igraph_estack_t \<Rightarrow> int \<Rightarrow> bool" where
  "igraph_estack_iselement s elem = (elem \<in> set s)"

definition igraph_estack_push :: "igraph_estack_t \<Rightarrow> int \<Rightarrow> igraph_error_t + igraph_estack_t" where
  "igraph_estack_push s elem = (if elem \<in> set s then Inl IGRAPH_FAILURE else Inr (elem # s))"

definition igraph_estack_pop :: "igraph_estack_t \<Rightarrow> igraph_estack_t" where
  "igraph_estack_pop s = tl s"

section \<open>Dominator tree (Lengauer-Tarjan)\<close>

text \<open>
  A loop whose body can fail to return: the state is threaded through the elements of a
  list, and \<open>None\<close> stands for a body that does not return.
\<close>

fun fold_option :: "('a \<Rightarrow> 's \<Rightarrow> 's option) \<Rightarrow> 'a list \<Rightarrow> 's \<Rightarrow> 's option" where
  "fold_option f [] s = Some s"
| "fold_option f (x # xs) s = (case f x s of None \<Rightarrow> None | Some s' \<Rightarrow> fold_option f xs s')"

subsection \<open>Buckets, LINK, COMPRESS and EVAL\<close>

text \<open>
  \<^verbatim>\<open>igraph_i_dbucket_t\<close>, lines 284 to 318: \<open>head\<close> and \<open>next\<close> hold element ids
  plus one, zero for none.
\<close>

record igraph_i_dbucket_t =
  db_head :: "int list"
  db_next :: "int list"

definition igraph_i_dbucket_init :: "int \<Rightarrow> igraph_i_dbucket_t" where
  "igraph_i_dbucket_init sz = \<lparr> db_head = replicate (nat sz) 0, db_next = replicate (nat sz) 0 \<rparr>"

definition igraph_i_dbucket_insert :: "igraph_i_dbucket_t \<Rightarrow> int \<Rightarrow> int \<Rightarrow> igraph_i_dbucket_t" where
  "igraph_i_dbucket_insert buck bid elem =
     \<lparr> db_head = (db_head buck)[nat bid := elem + 1],
       db_next = (db_next buck)[nat elem := db_head buck ! nat bid] \<rparr>"

definition igraph_i_dbucket_empty :: "igraph_i_dbucket_t \<Rightarrow> int \<Rightarrow> bool" where
  "igraph_i_dbucket_empty buck bid = (db_head buck ! nat bid = 0)"

definition igraph_i_dbucket_delete :: "igraph_i_dbucket_t \<Rightarrow> int \<Rightarrow> int \<times> igraph_i_dbucket_t" where
  "igraph_i_dbucket_delete buck bid =
     (let elem = db_head buck ! nat bid - 1
      in (elem, buck \<lparr> db_head := (db_head buck)[nat bid := db_next buck ! nat elem] \<rparr>))"

definition igraph_i_dominator_LINK :: "int \<Rightarrow> int \<Rightarrow> int list \<Rightarrow> int list" where
  "igraph_i_dominator_LINK v w ancestor = ancestor[nat w := v + 1]"

text \<open>
  \<^verbatim>\<open>igraph_i_dominator_COMPRESS\<close>, lines 328 to 361. The first loop climbs the
  ancestor pointers and pushes the vertices it leaves; it does not return when the
  pointers form a cycle. The second loop pops the path from the top. Popping an empty
  stack aborts the program, so the model does not return there.
\<close>

partial_function (option) dominator_COMPRESS_climb ::
  "int list \<Rightarrow> int \<Rightarrow> int list \<Rightarrow> int list option" where
  "dominator_COMPRESS_climb ancestor w path =
     (if ancestor ! nat w \<noteq> 0
      then dominator_COMPRESS_climb ancestor (ancestor ! nat w - 1) (w # path)
      else Some path)"

declare dominator_COMPRESS_climb.simps [code]

fun dominator_COMPRESS_unwind ::
  "int list \<Rightarrow> int \<Rightarrow> int list \<Rightarrow> int list \<times> int list \<Rightarrow> int list \<times> int list" where
  "dominator_COMPRESS_unwind semi topv [] al = al"
| "dominator_COMPRESS_unwind semi topv (pretop # path) al =
     (let ancestor = fst al;
          label = snd al;
          label1 = (if semi ! nat (label ! nat topv) < semi ! nat (label ! nat pretop)
                    then label[nat pretop := label ! nat topv] else label);
          ancestor1 = ancestor[nat pretop := ancestor ! nat topv]
      in dominator_COMPRESS_unwind semi pretop path (ancestor1, label1))"

definition igraph_i_dominator_COMPRESS ::
  "int \<Rightarrow> int list \<Rightarrow> int list \<Rightarrow> int list \<Rightarrow> (int list \<times> int list) option" where
  "igraph_i_dominator_COMPRESS v ancestor label semi =
     (case dominator_COMPRESS_climb ancestor v [] of
        None \<Rightarrow> None
      | Some [] \<Rightarrow> None
      | Some (topv # path) \<Rightarrow> Some (dominator_COMPRESS_unwind semi topv path (ancestor, label)))"

text \<open>
  \<^verbatim>\<open>igraph_i_dominator_EVAL\<close>, lines 363 to 373: the result with the ancestor and
  label vectors as COMPRESS leaves them.
\<close>

definition igraph_i_dominator_EVAL ::
  "int \<Rightarrow> int list \<Rightarrow> int list \<Rightarrow> int list \<Rightarrow> (int \<times> int list \<times> int list) option" where
  "igraph_i_dominator_EVAL v ancestor label semi =
     (if ancestor ! nat v = 0 then Some (v, ancestor, label)
      else case igraph_i_dominator_COMPRESS v ancestor label semi of
             None \<Rightarrow> None
           | Some al \<Rightarrow> Some (snd al ! nat v, fst al, snd al))"

subsection \<open>The loops of the algorithm\<close>

text \<open>The vectors that steps 2 to 4 change.\<close>

record dominator_state =
  ds_semi :: "int list"
  ds_ancestor :: "int list"
  ds_label :: "int list"
  ds_bucket :: igraph_i_dbucket_t
  ds_dom :: "int list"

text \<open>
  Lines 498 to 505: number the vertices the search reached. The state is \<open>semi\<close>,
  \<open>vertex\<close> and \<open>component_size\<close>.
\<close>

definition dominator_number_step ::
  "int \<Rightarrow> int list \<times> int list \<times> int \<Rightarrow> int list \<times> int list \<times> int" where
  "dominator_number_step i svc =
     (let semi = fst svc; vertex = fst (snd svc); component_size = snd (snd svc)
      in if vertex ! nat i \<ge> 0
         then let t = vertex ! nat i
              in (semi[nat t := component_size + 1],
                  vertex[nat component_size := t + 1],
                  component_size + 1)
         else svc)"

text \<open>Lines 506 to 515: collect the vertices that were not reached.\<close>

definition dominator_leftout_step ::
  "int list \<Rightarrow> int \<Rightarrow> int \<Rightarrow> int list \<times> int \<Rightarrow> int list \<times> int" where
  "dominator_leftout_step parent n j lp =
     (if snd lp < n \<and> parent ! nat j < - 1 then store_next j lp else lp)"

text \<open>
  Lines 519 to 532: drop the predecessors that were not reached, each replaced by the
  last entry of the list.
\<close>

function dominator_prune :: "int list \<Rightarrow> int list \<Rightarrow> int \<Rightarrow> int \<Rightarrow> int list" where
  "dominator_prune parent v j n =
     (if j < n
      then let v2 = v ! nat j
           in if parent ! nat v2 \<ge> - 1 then dominator_prune parent v (j + 1) n
              else dominator_prune parent (butlast (v[nat j := v ! nat (n - 1)])) j (n - 1)
      else v)"
  by pat_completeness auto
termination
  by (relation "measure (\<lambda>(parent, v, j, n). nat (n - j))") auto

text \<open>Lines 540 to 546: the semidominator of \<open>w\<close> from its predecessors.\<close>

fun dominator_pred_loop :: "int \<Rightarrow> int list \<Rightarrow> dominator_state \<Rightarrow> dominator_state option" where
  "dominator_pred_loop w [] s = Some s"
| "dominator_pred_loop w (v # predw) s =
     (case igraph_i_dominator_EVAL v (ds_ancestor s) (ds_label s) (ds_semi s) of
        None \<Rightarrow> None
      | Some ual \<Rightarrow>
          let u = fst ual;
              s1 = s \<lparr> ds_ancestor := fst (snd ual), ds_label := snd (snd ual) \<rparr>;
              s2 = (if ds_semi s1 ! nat u < ds_semi s1 ! nat w
                    then s1 \<lparr> ds_semi := (ds_semi s1)[nat w := ds_semi s1 ! nat u] \<rparr>
                    else s1)
          in dominator_pred_loop w predw s2)"

text \<open>
  Lines 549 to 554: empty the bucket of the parent of \<open>w\<close>. The loop does not return
  when the bucket's list is cyclic.
\<close>

definition dominator_drain_step ::
  "int \<Rightarrow> dominator_state \<Rightarrow> dominator_state option" where
  "dominator_drain_step pw s =
     (let vb = igraph_i_dbucket_delete (ds_bucket s) pw;
          v = fst vb
      in case igraph_i_dominator_EVAL v (ds_ancestor s) (ds_label s) (ds_semi s) of
           None \<Rightarrow> None
         | Some ual \<Rightarrow>
             let u = fst ual
             in Some (s \<lparr> ds_bucket := snd vb,
                          ds_ancestor := fst (snd ual),
                          ds_label := snd (snd ual),
                          ds_dom := (ds_dom s)[nat v := (if ds_semi s ! nat u < ds_semi s ! nat v
                                                        then u else pw)] \<rparr>))"

partial_function (option) dominator_drain ::
  "int \<Rightarrow> dominator_state \<Rightarrow> dominator_state option" where
  "dominator_drain pw s =
     (if \<not> igraph_i_dbucket_empty (ds_bucket s) pw
      then Option.bind (dominator_drain_step pw s) (dominator_drain pw)
      else Some s)"

declare dominator_drain.simps [code]

text \<open>Lines 536 to 555: one round of the main loop, for the vertex numbered \<open>i\<close>.\<close>

definition dominator_main_step ::
  "int list \<Rightarrow> int list \<Rightarrow> int list list \<Rightarrow> int \<Rightarrow> dominator_state \<Rightarrow> dominator_state option" where
  "dominator_main_step vertex parent pred i s =
     (let w = vertex ! nat i - 1
      in case dominator_pred_loop w (pred ! nat w) s of
           None \<Rightarrow> None
         | Some s1 \<Rightarrow>
             let s2 = s1 \<lparr> ds_bucket :=
                        igraph_i_dbucket_insert (ds_bucket s1)
                          (vertex ! nat (ds_semi s1 ! nat w - 1) - 1) w \<rparr>;
                 s3 = s2 \<lparr> ds_ancestor :=
                        igraph_i_dominator_LINK (parent ! nat w) w (ds_ancestor s2) \<rparr>
             in dominator_drain (parent ! nat w) s3)"

text \<open>Lines 559 to 564: step 4, in the order of the numbering.\<close>

definition dominator_fixup_step :: "int list \<Rightarrow> int list \<Rightarrow> int \<Rightarrow> int list \<Rightarrow> int list" where
  "dominator_fixup_step vertex semi i mydom =
     (let w = vertex ! nat i - 1
      in if mydom ! nat w \<noteq> vertex ! nat (semi ! nat w - 1) - 1
         then mydom[nat w := mydom ! nat (mydom ! nat w)]
         else mydom)"

text \<open>Lines 581 to 591: the edges of the tree.\<close>

definition dominator_tree_edge_step ::
  "int \<Rightarrow> igraph_neimode_t \<Rightarrow> int list \<Rightarrow> int \<Rightarrow> int list \<times> int \<Rightarrow> int list \<times> int" where
  "dominator_tree_edge_step rootv mode mydom i ep =
     (if i \<noteq> rootv \<and> mydom ! nat i \<ge> 0
      then if mode = IGRAPH_OUT
           then store_next i (store_next (mydom ! nat i) ep)
           else store_next (mydom ! nat i) (store_next i ep)
      else ep)"

subsection \<open>The function\<close>

text \<open>
  The three output arguments of \<^verbatim>\<open>igraph_dominator_tree\<close>. \<open>out_dom\<close> and
  \<open>out_leftout\<close> are \<open>None\<close> for a null pointer; \<open>out_domtree\<close> is the graph the
  caller's pointer refers to, \<open>None\<close> while it is uninitialised.
\<close>

record dominator_outputs =
  out_dom :: "int list option"
  out_domtree :: "igraph_t option"
  out_leftout :: "int list option"

text \<open>
  \<^verbatim>\<open>igraph_dominator_tree\<close>, lines 429 to 608. \<open>want_domtree\<close> says that the
  \<open>domtree\<close> pointer is not null. The result is the error code (\<open>Inr ()\<close> for
  success) with the outputs as the call leaves them, or \<open>None\<close> when the call does not
  return.
\<close>

definition igraph_dominator_tree ::
  "igraph_t \<Rightarrow> int \<Rightarrow> dominator_outputs \<Rightarrow> bool \<Rightarrow> igraph_neimode_t \<Rightarrow>
   ((igraph_error_t + unit) \<times> dominator_outputs) option" where
  "igraph_dominator_tree graph rootv outs want_domtree mode =
     (let no_of_nodes = igraph_vcount graph;
          invmode = IGRAPH_REVERSE_MODE mode
      in if rootv < 0 \<or> rootv \<ge> no_of_nodes then Some (Inl IGRAPH_EINVAL, outs)
         else if \<not> igraph_is_directed graph then Some (Inl IGRAPH_EINVAL, outs)
         else if mode = IGRAPH_ALL then Some (Inl IGRAPH_EINVAL, outs)
         else
           let mydom0 = replicate (nat no_of_nodes) (- 2);
               outs1 = (if out_dom outs = None then outs else outs \<lparr> out_dom := Some mydom0 \<rparr>);
               semi0 = replicate (nat no_of_nodes) 0;
               ancestor0 = replicate (nat no_of_nodes) 0;
               label0 = [0 .. no_of_nodes - 1];
               pred0 = igraph_adjlist_init graph invmode;
               bucket0 = igraph_i_dbucket_init no_of_nodes
           in case igraph_dfs graph rootv mode of
                Inl e \<Rightarrow> Some (Inl e, outs1)
              | Inr opf \<Rightarrow>
           let vertex0 = fst opf;
               parent = fst (snd opf);
               svc = fold dominator_number_step [0 .. no_of_nodes - 1] (semi0, vertex0, 0);
               semi1 = fst svc;
               vertex = fst (snd svc);
               component_size = snd (snd svc);
               outs2 = (case out_leftout outs1 of
                          None \<Rightarrow> outs1
                        | Some l \<Rightarrow>
                            let n = no_of_nodes - component_size;
                                lp = fold (dominator_leftout_step parent n) [0 .. no_of_nodes - 1]
                                       (igraph_vector_resize l n, 0)
                            in outs1 \<lparr> out_leftout := Some (fst lp) \<rparr>);
               pred = map (\<lambda>v. dominator_prune parent v 0 (int (length v))) pred0;
               s0 = \<lparr> ds_semi = semi1, ds_ancestor = ancestor0, ds_label = label0,
                      ds_bucket = bucket0, ds_dom = mydom0 \<rparr>
           in case fold_option (dominator_main_step vertex parent pred)
                     (rev [1 .. component_size - 1]) s0 of
                None \<Rightarrow> None
              | Some s1 \<Rightarrow>
           let mydom1 = fold (dominator_fixup_step vertex (ds_semi s1)) [1 .. component_size - 1]
                          (ds_dom s1);
               mydom = mydom1[nat rootv := - 1];
               outs3 = (if out_dom outs2 = None then outs2 else outs2 \<lparr> out_dom := Some mydom \<rparr>)
           in if want_domtree
              then
                let edges0 = replicate (nat (component_size * 2 - 2)) 0;
                    ep = fold (dominator_tree_edge_step rootv mode mydom) [0 .. no_of_nodes - 1]
                           (edges0, 0)
                in case igraph_create (fst ep) no_of_nodes True of
                     Inl e \<Rightarrow> Some (Inl e, outs3)
                   | Inr domtree \<Rightarrow> Some (Inr (), outs3 \<lparr> out_domtree := Some domtree \<rparr>)
              else Some (Inr (), outs3))"

section \<open>Listing (s,t)-cuts (Provan-Shier)\<close>

subsection \<open>The pivot for all cuts\<close>

text \<open>
  The two callbacks of lines 618 to 662, applied to one event of the search. The state
  is the stack (top first) and the \<open>nomark\<close> vector.
\<close>

definition igraph_i_all_st_cuts_minimal_dfs_incb ::
  "bool list \<Rightarrow> int list \<Rightarrow> int \<Rightarrow> int list \<times> bool list \<Rightarrow> int list \<times> bool list" where
  "igraph_i_all_st_cuts_minimal_dfs_incb GammaX invmap vid sn =
     (let realvid = invmap ! nat vid
      in if GammaX ! nat realvid
         then (realvid # fst sn,
               (case fst sn of [] \<Rightarrow> snd sn | topv # rest \<Rightarrow> (snd sn)[nat topv := True]))
         else sn)"

definition igraph_i_all_st_cuts_minimal_dfs_outcb ::
  "int list \<Rightarrow> int \<Rightarrow> int list \<times> bool list \<Rightarrow> int list \<times> bool list" where
  "igraph_i_all_st_cuts_minimal_dfs_outcb invmap vid sn =
     (let realvid = invmap ! nat vid
      in case fst sn of
           [] \<Rightarrow> sn
         | topv # rest \<Rightarrow> if topv = realvid then (rest, snd sn) else sn)"

definition all_st_cuts_minimal_event ::
  "bool list \<Rightarrow> int list \<Rightarrow> igraph_dfs_event \<Rightarrow> int list \<times> bool list \<Rightarrow> int list \<times> bool list" where
  "all_st_cuts_minimal_event GammaX invmap ev sn =
     (case ev of
        DFS_IN vid \<Rightarrow> igraph_i_all_st_cuts_minimal_dfs_incb GammaX invmap vid sn
      | DFS_OUT vid \<Rightarrow> igraph_i_all_st_cuts_minimal_dfs_outcb invmap vid sn)"

text \<open>\<^verbatim>\<open>igraph_i_all_st_cuts_minimal\<close>, lines 664 to 721.\<close>

definition igraph_i_all_st_cuts_minimal ::
  "igraph_t \<Rightarrow> igraph_t \<Rightarrow> int \<Rightarrow> bool list \<Rightarrow> int list \<Rightarrow> igraph_error_t + int list" where
  "igraph_i_all_st_cuts_minimal graph domtree rootv GammaX invmap =
     (let no_of_nodes = igraph_vcount graph;
          nomark0 = map (\<lambda>i. \<not> GammaX ! nat i) [0 .. no_of_nodes - 1]
      in case igraph_dfs domtree rootv IGRAPH_IN of
           Inl e \<Rightarrow> Inl e
         | Inr opf \<Rightarrow>
             let sn = fold (all_st_cuts_minimal_event GammaX invmap) (snd (snd opf)) ([], nomark0)
             in Inr (filter (\<lambda>i. \<not> snd sn ! nat i) [0 .. no_of_nodes - 1]))"

text \<open>
  Lines 850 to 859 and 871 to 876: the entries of an order vector before the first
  negative one, among the first \<open>n\<close>.
\<close>

definition order_prefix :: "int \<Rightarrow> int list \<Rightarrow> int list" where
  "order_prefix n v = takeWhile (\<lambda>t. t \<ge> 0) (take (nat n) v)"

text \<open>
  Lines 837 to 909: the loop over the minimal elements. The result is \<open>None\<close> when no
  element passes, or the pivot with its set \<open>Isv\<close>.
\<close>

fun all_st_cuts_pivot_search ::
  "igraph_t \<Rightarrow> igraph_t \<Rightarrow> int list \<Rightarrow> int list \<Rightarrow> int \<Rightarrow> int list \<Rightarrow> int list \<Rightarrow>
   igraph_estack_t \<Rightarrow> int \<Rightarrow> int list \<Rightarrow> igraph_error_t + (int \<times> int list) option" where
  "all_st_cuts_pivot_search graph domtree Sbar_map Sbar_invmap Sbar_size GammaS_vec leftout
     T target [] = Inr None"
| "all_st_cuts_pivot_search graph domtree Sbar_map Sbar_invmap Sbar_size GammaS_vec leftout
     T target (m # M) =
     (let no_of_nodes = igraph_vcount graph;
          minv = Sbar_map ! nat m - 1
      in case igraph_dfs domtree minv IGRAPH_IN of
           Inl e \<Rightarrow> Inl e
         | Inr opf \<Rightarrow>
      let Nuv = map (\<lambda>t. Sbar_invmap ! nat t) (order_prefix Sbar_size (fst opf))
      in case igraph_bfs graph (- 1) (Some GammaS_vec) IGRAPH_OUT (Some Nuv) of
           Inl e \<Rightarrow> Inl e
         | Inr ord1 \<Rightarrow>
      let Isv_min = order_prefix no_of_nodes ord1
      in if list_ex (\<lambda>u. igraph_estack_iselement T u \<or> u = target) Isv_min
         then all_st_cuts_pivot_search graph domtree Sbar_map Sbar_invmap Sbar_size GammaS_vec
                leftout T target M
         else
           (case igraph_bfs graph m None IGRAPH_OUT (Some (Nuv @ leftout)) of
              Inl e \<Rightarrow> Inl e
            | Inr ord2 \<Rightarrow> Inr (Some (m, order_prefix no_of_nodes ord2))))"

text \<open>Lines 787 to 808: the out-neighbours of \<open>S\<close> outside \<open>S\<close>.\<close>

definition all_st_cuts_GammaS ::
  "igraph_t \<Rightarrow> igraph_marked_queue_int_t \<Rightarrow> int list \<Rightarrow> int \<Rightarrow> bool list" where
  "all_st_cuts_GammaS graph S Sbar_map source =
     (let no_of_nodes = igraph_vcount graph;
          GammaS0 = replicate (nat no_of_nodes) False
      in if igraph_marked_queue_int_size S = 0
         then GammaS0[nat (Sbar_map ! nat source - 1) := True]
         else fold (\<lambda>i G.
                if igraph_marked_queue_int_iselement S i
                then fold (\<lambda>nei G. if \<not> igraph_marked_queue_int_iselement S nei
                                    then G[nat nei := True] else G)
                       (igraph_neighbors graph i IGRAPH_OUT) G
                else G)
              [0 .. no_of_nodes - 1] GammaS0)"

text \<open>
  \<^verbatim>\<open>igraph_i_all_st_cuts_pivot\<close>, lines 724 to 926. The argument \<open>v\<close> is the
  caller's variable, which the function leaves alone when it finds no pivot. The result
  is \<open>None\<close> when the dominator tree does not return.
\<close>

definition igraph_i_all_st_cuts_pivot ::
  "igraph_t \<Rightarrow> igraph_marked_queue_int_t \<Rightarrow> igraph_estack_t \<Rightarrow> int \<Rightarrow> int \<Rightarrow> int \<Rightarrow>
   (igraph_error_t + int \<times> int list) option" where
  "igraph_i_all_st_cuts_pivot graph S T source target v =
     (let no_of_nodes = igraph_vcount graph;
          keep = filter (\<lambda>i. \<not> igraph_marked_queue_int_iselement S i) [0 .. no_of_nodes - 1];
          Sbar_size = int (length keep);
          sub = igraph_induced_subgraph_map graph keep;
          Sbar = fst sub;
          Sbar_map = fst (snd sub);
          Sbar_invmap = snd (snd sub);
          rootv = Sbar_map ! nat target - 1
      in case igraph_dominator_tree Sbar rootv
                \<lparr> out_dom = None, out_domtree = None, out_leftout = Some [] \<rparr> True IGRAPH_IN of
           None \<Rightarrow> None
         | Some (Inl e, outs) \<Rightarrow> Some (Inl e)
         | Some (Inr u, outs) \<Rightarrow>
      let domtree = the (out_domtree outs);
          leftout0 = the (out_leftout outs);
          GammaS0 = all_st_cuts_GammaS graph S Sbar_map source;
          leftout = map (\<lambda>l. Sbar_invmap ! nat l) leftout0;
          GammaS = fold (\<lambda>l G. G[nat l := False]) leftout GammaS0
      in case (if igraph_ecount domtree > 0
               then igraph_i_all_st_cuts_minimal graph domtree rootv GammaS Sbar_invmap
               else Inr []) of
           Inl e \<Rightarrow> Some (Inl e)
         | Inr M \<Rightarrow>
      let GammaS_vec = filter (\<lambda>i. GammaS ! nat i) [0 .. no_of_nodes - 1]
      in case all_st_cuts_pivot_search graph domtree Sbar_map Sbar_invmap Sbar_size GammaS_vec
                leftout T target M of
           Inl e \<Rightarrow> Some (Inl e)
         | Inr None \<Rightarrow> Some (Inr (v, []))
         | Inr (Some vi) \<Rightarrow> Some (Inr vi))"

subsection \<open>The search\<close>

text \<open>
  The type of a pivot function: from the graph, \<open>S\<close>, \<open>T\<close>, the source, the target and the
  caller's \<open>v\<close> to the pivot and its set \<open>Isv\<close>, or an error, or no return.
\<close>

type_synonym igraph_provan_shier_pivot_t =
  "igraph_t \<Rightarrow> igraph_marked_queue_int_t \<Rightarrow> igraph_estack_t \<Rightarrow> int \<Rightarrow> int \<Rightarrow> int \<Rightarrow>
   (igraph_error_t + int \<times> int list) option"

text \<open>Lines 965 to 971: a new batch of \<open>S\<close> with the elements of \<open>Isv\<close> not yet in \<open>S\<close>.\<close>

fun provan_shier_add_Isv ::
  "int list \<Rightarrow> igraph_marked_queue_int_t \<Rightarrow> igraph_error_t + igraph_marked_queue_int_t" where
  "provan_shier_add_Isv [] S = Inr S"
| "provan_shier_add_Isv (u # Isv) S =
     (if \<not> igraph_marked_queue_int_iselement S u
      then case igraph_marked_queue_int_push S u of
             Inl e \<Rightarrow> Inl e
           | Inr S1 \<Rightarrow> provan_shier_add_Isv Isv S1
      else provan_shier_add_Isv Isv S)"

text \<open>
  \<^verbatim>\<open>igraph_provan_shier_list\<close>, lines 930 to 987. The state is \<open>S\<close>, \<open>T\<close> and the
  result list. The result is \<open>None\<close> when the call does not return.

  Line 948 calls the pivot and does not look at its error code. A pivot that fails has
  reported its error, and the error handler has then released everything that is
  registered for clean-up, which includes the vectors \<open>Isv\<close> and \<open>vec\<close> that this call
  registered at lines 943 and 944. The call has no defined behaviour from there, so a
  failed pivot counts as a call that does not return.
\<close>

definition provan_shier_call_pivot ::
  "igraph_provan_shier_pivot_t \<Rightarrow> igraph_t \<Rightarrow> igraph_marked_queue_int_t \<Rightarrow> igraph_estack_t \<Rightarrow>
   int \<Rightarrow> int \<Rightarrow> (int \<times> int list) option" where
  "provan_shier_call_pivot pivot graph S T source target =
     (case pivot graph S T source target 0 of
        None \<Rightarrow> None
      | Some (Inl e) \<Rightarrow> None
      | Some (Inr vi) \<Rightarrow> Some vi)"

type_synonym provan_shier_state =
  "igraph_marked_queue_int_t \<times> igraph_estack_t \<times> int list list"

definition provan_shier_left_enter ::
  "int \<Rightarrow> provan_shier_state \<Rightarrow> (igraph_error_t + provan_shier_state) option" where
  "provan_shier_left_enter v st =
     (case igraph_estack_push (fst (snd st)) v of
        Inl e \<Rightarrow> Some (Inl e)
      | Inr T1 \<Rightarrow> Some (Inr (fst st, T1, snd (snd st))))"

definition provan_shier_right_enter ::
  "int list \<Rightarrow> provan_shier_state \<Rightarrow> (igraph_error_t + provan_shier_state) option" where
  "provan_shier_right_enter Isv st =
     (let T1 = igraph_estack_pop (fst (snd st));
          S1 = igraph_marked_queue_int_start_batch (fst st)
      in case provan_shier_add_Isv Isv S1 of
           Inl e \<Rightarrow> Some (Inl e)
         | Inr S2 \<Rightarrow> Some (Inr (S2, T1, snd (snd st))))"

definition provan_shier_right_leave ::
  "provan_shier_state \<Rightarrow> (igraph_error_t + provan_shier_state) option" where
  "provan_shier_right_leave st =
     Some (Inr (igraph_marked_queue_int_pop_back_batch (fst st), fst (snd st), snd (snd st)))"

text \<open>Sequencing of calls that can fail or not return: the first error ends the call.\<close>

definition then_call ::
  "(igraph_error_t + 'a) option \<Rightarrow> ('a \<Rightarrow> (igraph_error_t + 'b) option) \<Rightarrow>
   (igraph_error_t + 'b) option" where
  "then_call r f = Option.bind r (\<lambda>x. case x of Inl e \<Rightarrow> Some (Inl e) | Inr a \<Rightarrow> f a)"

lemma then_call_mono [partial_function_mono]:
  assumes "mono_option B" "\<And>y. mono_option (\<lambda>f. C y f)"
  shows "mono_option (\<lambda>f. then_call (B f) (\<lambda>y. C y f))"
  unfolding then_call_def
proof (rule bind_mono [OF assms(1)])
  fix y
  show "mono_option (\<lambda>f. case y of Inl e \<Rightarrow> Some (Inl e) | Inr a \<Rightarrow> C a f)"
    by (cases y) (simp_all add: assms(2) option.const_mono)
qed

partial_function (option) igraph_provan_shier_list ::
  "igraph_t \<Rightarrow> provan_shier_state \<Rightarrow> int \<Rightarrow> int \<Rightarrow> igraph_provan_shier_pivot_t \<Rightarrow>
   (igraph_error_t + provan_shier_state) option" where
  "igraph_provan_shier_list graph st source target pivot =
     Option.bind (provan_shier_call_pivot pivot graph (fst st) (fst (snd st)) source target)
       (\<lambda>vi.
          if snd vi = []
          then if igraph_marked_queue_int_size (fst st) \<noteq> 0 \<and>
                  igraph_marked_queue_int_size (fst st) \<noteq> igraph_vcount graph
               then Some (Inr (fst st, fst (snd st),
                               snd (snd st) @ [igraph_marked_queue_int_as_vector (fst st)]))
               else Some (Inr st)
          else
            then_call (provan_shier_left_enter (fst vi) st) (\<lambda>st1.
            then_call (igraph_provan_shier_list graph st1 source target pivot) (\<lambda>st2.
            then_call (provan_shier_right_enter (snd vi) st2) (\<lambda>st3.
            then_call (igraph_provan_shier_list graph st3 source target pivot) (\<lambda>st4.
            provan_shier_right_leave st4)))))"

declare igraph_provan_shier_list.simps [code]

text \<open>
  The search with a bound on the depth of the recursion: the same body, and no result
  when the bound is used up.
\<close>

fun provan_shier_list_depth ::
  "nat \<Rightarrow> igraph_t \<Rightarrow> provan_shier_state \<Rightarrow> int \<Rightarrow> int \<Rightarrow> igraph_provan_shier_pivot_t \<Rightarrow>
   (igraph_error_t + provan_shier_state) option" where
  "provan_shier_list_depth 0 graph st source target pivot = None"
| "provan_shier_list_depth (Suc k) graph st source target pivot =
     Option.bind (provan_shier_call_pivot pivot graph (fst st) (fst (snd st)) source target)
       (\<lambda>vi.
          if snd vi = []
          then if igraph_marked_queue_int_size (fst st) \<noteq> 0 \<and>
                  igraph_marked_queue_int_size (fst st) \<noteq> igraph_vcount graph
               then Some (Inr (fst st, fst (snd st),
                               snd (snd st) @ [igraph_marked_queue_int_as_vector (fst st)]))
               else Some (Inr st)
          else
            then_call (provan_shier_left_enter (fst vi) st) (\<lambda>st1.
            then_call (provan_shier_list_depth k graph st1 source target pivot) (\<lambda>st2.
            then_call (provan_shier_right_enter (snd vi) st2) (\<lambda>st3.
            then_call (provan_shier_list_depth k graph st3 source target pivot) (\<lambda>st4.
            provan_shier_right_leave st4)))))"

subsection \<open>All cuts\<close>

text \<open>
  Lines 1070 to 1103: the edges that leave partition number \<open>i\<close>. The vector \<open>inS\<close>
  is shared by all partitions and marks the members of partition \<open>i\<close> with \<open>i + 1\<close>.
\<close>

definition all_st_cuts_cut_step ::
  "igraph_t \<Rightarrow> int list list \<Rightarrow> int \<Rightarrow> int list \<times> int list list \<Rightarrow> int list \<times> int list list" where
  "all_st_cuts_cut_step graph mypartition1s i ic =
     (let no_of_edges = igraph_ecount graph;
          part = mypartition1s ! nat i;
          inS = fold (\<lambda>v inS. inS[nat v := i + 1]) part (fst ic);
          crossing = (\<lambda>j. inS ! nat (IGRAPH_FROM graph j) = i + 1 \<and>
                           inS ! nat (IGRAPH_TO graph j) \<noteq> i + 1);
          cutsize = int (length (filter crossing [0 .. no_of_edges - 1]));
          cut0 = igraph_vector_resize [] cutsize;
          cp = fold (\<lambda>j cp. if crossing j then store_next j cp else cp)
                 [0 .. no_of_edges - 1] (cut0, 0)
      in (inS, snd ic @ [fst cp]))"

text \<open>
  \<^verbatim>\<open>igraph_all_st_cuts\<close>, lines 1016 to 1120, called with both output lists: the
  result is \<open>(cuts, partition1s)\<close>.
\<close>

definition igraph_all_st_cuts ::
  "igraph_t \<Rightarrow> int \<Rightarrow> int \<Rightarrow> (igraph_error_t + int list list \<times> int list list) option" where
  "igraph_all_st_cuts graph source target =
     (let no_of_nodes = igraph_vcount graph
      in if \<not> igraph_is_directed graph then Some (Inl IGRAPH_UNIMPLEMENTED)
         else
           let S = igraph_marked_queue_int_init no_of_nodes;
               T = igraph_estack_init no_of_nodes
           in case igraph_provan_shier_list graph (S, T, []) source target
                     igraph_i_all_st_cuts_pivot of
                None \<Rightarrow> None
              | Some (Inl e) \<Rightarrow> Some (Inl e)
              | Some (Inr st) \<Rightarrow>
                  let mypartition1s = snd (snd st);
                      nocuts = int (length mypartition1s);
                      inS0 = replicate (nat no_of_nodes) 0;
                      ic = fold (all_st_cuts_cut_step graph mypartition1s) [0 .. nocuts - 1]
                             (inS0, [])
                  in Some (Inr (snd ic, mypartition1s)))"

subsection \<open>The pivot for minimum cuts\<close>

text \<open>
  \<^verbatim>\<open>igraph_i_all_st_mincuts_minimal\<close>, lines 1134 to 1187: the in-degrees in
  \<open>Sbar\<close>, less one for every edge that leaves a vertex that is not active; the result
  lists the active vertices whose count is zero.
\<close>

definition igraph_i_all_st_mincuts_minimal ::
  "igraph_t \<Rightarrow> bool list \<Rightarrow> int list \<Rightarrow> int list" where
  "igraph_i_all_st_mincuts_minimal Sbar active invmap =
     (let no_of_nodes = igraph_vcount Sbar;
          indeg0 = igraph_degree Sbar IGRAPH_IN;
          indeg = fold (\<lambda>i indeg.
                    if \<not> active ! nat (invmap ! nat i)
                    then fold (\<lambda>nei indeg. indeg[nat nei := indeg ! nat nei - 1])
                           (igraph_neighbors Sbar i IGRAPH_OUT) indeg
                    else indeg)
                  [0 .. no_of_nodes - 1] indeg0
      in filter (\<lambda>i. active ! nat (invmap ! nat i) \<and> indeg ! nat i = 0) [0 .. no_of_nodes - 1])"

text \<open>
  \<^verbatim>\<open>igraph_i_all_st_mincuts_pivot\<close>, lines 1193 to 1292; the argument \<open>active\<close> is
  the vector behind \<open>arg\<close>.
\<close>

definition igraph_i_all_st_mincuts_pivot ::
  "bool list \<Rightarrow> igraph_t \<Rightarrow> igraph_marked_queue_int_t \<Rightarrow> igraph_estack_t \<Rightarrow> int \<Rightarrow> int \<Rightarrow> int \<Rightarrow>
   (igraph_error_t + int \<times> int list) option" where
  "igraph_i_all_st_mincuts_pivot active graph S T source target v =
     (let no_of_nodes = igraph_vcount graph
      in if igraph_marked_queue_int_size S = no_of_nodes then Some (Inr (v, []))
         else
           let keep = filter (\<lambda>i. \<not> igraph_marked_queue_int_iselement S i) [0 .. no_of_nodes - 1];
               sub = igraph_induced_subgraph_map graph keep;
               Sbar = fst sub;
               Sbar_invmap = snd (snd sub);
               M = igraph_i_all_st_mincuts_minimal Sbar active Sbar_invmap;
               found = dropWhile (\<lambda>m. \<not> (Sbar_invmap ! nat m \<noteq> target \<and>
                                           \<not> igraph_estack_iselement T (Sbar_invmap ! nat m))) M
           in case found of
                [] \<Rightarrow> Some (Inr (v, []))
              | m # rest \<Rightarrow>
                  let v1 = Sbar_invmap ! nat m
                  in case igraph_bfs graph v1 None IGRAPH_IN (Some keep) of
                       Inl e \<Rightarrow> Some (Inl e)
                     | Inr Isv_min \<Rightarrow>
                         Some (Inr (v1, filter (\<lambda>u. \<not> igraph_estack_iselement T u)
                                          (order_prefix no_of_nodes Isv_min))))"

subsection \<open>All minimum cuts\<close>

text \<open>
  Modelled from the spec: \<^verbatim>\<open>igraph_contract_vertices\<close> and \<^verbatim>\<open>igraph_simplify\<close>
  (not among the sources). Contraction renames every vertex by the mapping; simplifying
  drops loops and repeated edges.
\<close>

definition igraph_contract_vertices :: "igraph_t \<Rightarrow> int list \<Rightarrow> igraph_t" where
  "igraph_contract_vertices graph mapping =
     \<lparr> g_n = fold (\<lambda>x m. max (x + 1) m) mapping 0,
       g_directed = g_directed graph,
       g_edges = map (\<lambda>e. (mapping ! nat (fst e), mapping ! nat (snd e))) (g_edges graph) \<rparr>"

definition igraph_simplify :: "igraph_t \<Rightarrow> igraph_t" where
  "igraph_simplify graph =
     graph \<lparr> g_edges := remdups (filter (\<lambda>e. fst e \<noteq> snd e) (g_edges graph)) \<rparr>"

text \<open>
  Lines 1428 to 1443: a contracted vertex is active when an edge with positive flow has
  an endpoint in it.
\<close>

definition all_st_mincuts_active_step ::
  "igraph_t \<Rightarrow> real list \<Rightarrow> int list \<Rightarrow> int \<Rightarrow> bool list \<Rightarrow> bool list" where
  "all_st_mincuts_active_step graph flow NtoL i VE1bool =
     (if flow ! nat i > 0
      then let pfrom = NtoL ! nat (IGRAPH_FROM graph i);
               pto = NtoL ! nat (IGRAPH_TO graph i)
           in (VE1bool[nat pfrom := True])[nat pto := True]
      else VE1bool)"

text \<open>
  Lines 1477 to 1483: the inverse of the component map as linked lists, ids plus one.
\<close>

definition all_st_mincuts_revmap_step ::
  "int list \<Rightarrow> int \<Rightarrow> int list \<times> int list \<Rightarrow> int list \<times> int list" where
  "all_st_mincuts_revmap_step NtoL i pn =
     (let id = NtoL ! nat i
      in ((fst pn)[nat id := i + 1], (snd pn)[nat i := fst pn ! nat id]))"

text \<open>
  Lines 1497 to 1501: the original vertices of one contracted vertex. The loop does not
  return when the list is cyclic.
\<close>

partial_function (option) all_st_mincuts_expand ::
  "int list \<Rightarrow> int \<Rightarrow> int list \<Rightarrow> int list option" where
  "all_st_mincuts_expand revmap_next ovtx cutv =
     (if ovtx \<noteq> 0
      then all_st_mincuts_expand revmap_next (revmap_next ! nat (ovtx - 1)) (cutv @ [ovtx - 1])
      else Some cutv)"

declare all_st_mincuts_expand.simps [code]

definition all_st_mincuts_partition ::
  "int list \<Rightarrow> int list \<Rightarrow> int list \<Rightarrow> int list option" where
  "all_st_mincuts_partition revmap_ptr revmap_next supercut =
     fold_option (\<lambda>vtx cutv. all_st_mincuts_expand revmap_next (revmap_ptr ! nat vtx) cutv)
       supercut []"

text \<open>Lines 1521 to 1541: the edges with positive flow that leave partition \<open>i\<close>.\<close>

definition all_st_mincuts_cut_step ::
  "igraph_t \<Rightarrow> real list \<Rightarrow> int list list \<Rightarrow> int \<Rightarrow> int list \<times> int list list \<Rightarrow>
   int list \<times> int list list" where
  "all_st_mincuts_cut_step graph flow mypartition1s i mc =
     (let no_of_edges = igraph_ecount graph;
          part = mypartition1s ! nat i;
          memb = fold (\<lambda>vtx memb. memb[nat vtx := i + 1]) part (fst mc);
          cutv = filter (\<lambda>j. flow ! nat j > 0 \<and>
                             memb ! nat (IGRAPH_FROM graph j) = i + 1 \<and>
                             memb ! nat (IGRAPH_TO graph j) \<noteq> i + 1)
                  [0 .. no_of_edges - 1]
      in (memb, snd mc @ [cutv]))"

text \<open>
  \<^verbatim>\<open>igraph_all_st_mincuts\<close>, lines 1339 to 1563, called with all three outputs: the
  result is \<open>(value, cuts, partition1s)\<close>. The maximum flow and the strongly connected
  components are external; the model takes them as the parameters \<open>maxflow\<close> (the value
  and the flow of each edge) and \<open>components\<close> (the component of each vertex and the
  number of components). The test of line 1381 on the smallest capacity is modelled as
  a test for some capacity that is not positive.
\<close>

definition igraph_all_st_mincuts ::
  "(igraph_t \<Rightarrow> int \<Rightarrow> int \<Rightarrow> real list option \<Rightarrow> igraph_error_t + real \<times> real list) \<Rightarrow>
   (igraph_t \<Rightarrow> igraph_error_t + int list \<times> int) \<Rightarrow>
   igraph_t \<Rightarrow> int \<Rightarrow> int \<Rightarrow> real list option \<Rightarrow>
   (igraph_error_t + real \<times> int list list \<times> int list list) option" where
  "igraph_all_st_mincuts maxflow components graph source target capacity =
     (let no_of_nodes = igraph_vcount graph;
          no_of_edges = igraph_ecount graph
      in if \<not> igraph_is_directed graph then Some (Inl IGRAPH_UNIMPLEMENTED)
         else if source < 0 \<or> source \<ge> no_of_nodes then Some (Inl IGRAPH_EINVAL)
         else if target < 0 \<or> target \<ge> no_of_nodes then Some (Inl IGRAPH_EINVAL)
         else if source = target then Some (Inl IGRAPH_EINVAL)
         else if capacity \<noteq> None \<and> list_ex (\<lambda>c. c \<le> 0) (the capacity)
         then Some (Inl IGRAPH_EINVAL)
         else
      case maxflow graph source target capacity of
        Inl e \<Rightarrow> Some (Inl e)
      | Inr vf \<Rightarrow>
      let flow = snd vf
      in case igraph_reverse_residual_graph graph capacity flow of
           Inl e \<Rightarrow> Some (Inl e)
         | Inr residual0 \<Rightarrow>
      (case components residual0 of
           Inl e \<Rightarrow> Some (Inl e)
         | Inr mp \<Rightarrow>
      let NtoL = fst mp;
          proj_nodes = snd mp;
          residual = igraph_simplify (igraph_contract_vertices residual0 NtoL);
          newsource = NtoL ! nat source;
          newtarget = NtoL ! nat target;
          VE1bool = fold (all_st_mincuts_active_step graph flow NtoL) [0 .. no_of_edges - 1]
                      (replicate (nat proj_nodes) False);
          S = igraph_marked_queue_int_init no_of_nodes;
          T = igraph_estack_init no_of_nodes
      in case igraph_provan_shier_list residual (S, T, []) newsource newtarget
                (igraph_i_all_st_mincuts_pivot VE1bool) of
           None \<Rightarrow> None
         | Some (Inl e) \<Rightarrow> Some (Inl e)
         | Some (Inr st) \<Rightarrow>
      let closedsets = snd (snd st);
          pn = fold (all_st_mincuts_revmap_step NtoL) [0 .. no_of_nodes - 1]
                 (replicate (nat (igraph_vcount residual)) 0, replicate (nat no_of_nodes) 0)
      in case fold_option (\<lambda>supercut ps.
                  case all_st_mincuts_partition (fst pn) (snd pn) supercut of
                    None \<Rightarrow> None
                  | Some cutv \<Rightarrow> Some (ps @ [cutv]))
                closedsets [] of
           None \<Rightarrow> None
         | Some mypartition1s \<Rightarrow>
      let nocuts = int (length closedsets);
          mc = fold (all_st_mincuts_cut_step graph flow mypartition1s) [0 .. nocuts - 1]
                 (replicate (nat no_of_nodes) 0, [])
      in Some (Inr (fst vf, snd mc, mypartition1s))))"

section \<open>Proofs: the graph transformations\<close>

definition stores :: "'a list \<Rightarrow> 'a list \<times> int \<Rightarrow> 'a list \<times> int" where
  "stores xs vp = fold store_next xs vp"

lemma stores_Nil: "stores [] vp = vp" by (simp add: stores_def)
lemma stores_Cons: "stores (x # xs) vp = stores xs (store_next x vp)" by (simp add: stores_def)
lemma stores_append: "stores (xs @ ys) vp = stores ys (stores xs vp)" by (simp add: stores_def)

lemma store_next_eq:
  assumes "0 \<le> p" "nat p < length v"
  shows "store_next x (v, p) = (take (nat p) v @ x # drop (Suc (nat p)) v, p + 1)"
  using assms by (simp add: store_next_def upd_conv_take_nth_drop)

lemma stores_eq:
  "0 \<le> p \<Longrightarrow> nat p + length xs \<le> length v \<Longrightarrow>
   stores xs (v, p) = (take (nat p) v @ xs @ drop (nat p + length xs) v, p + int (length xs))"
proof (induction xs arbitrary: v p)
  case Nil
  then show ?case by (simp add: stores_Nil)
next
  case (Cons x xs)
  have lt: "nat p < length v" using Cons.prems by simp
  have s: "store_next x (v, p) = (take (nat p) v @ x # drop (Suc (nat p)) v, p + 1)"
    using Cons.prems lt by (simp add: store_next_eq)
  let ?v = "take (nat p) v @ x # drop (Suc (nat p)) v"
  have len: "length ?v = length v" using lt by simp
  have np: "nat (p + 1) = Suc (nat p)" using Cons.prems by simp
  have "stores xs (?v, p + 1) =
        (take (nat (p + 1)) ?v @ xs @ drop (nat (p + 1) + length xs) ?v, p + 1 + int (length xs))"
    using Cons.prems len by (intro Cons.IH) auto
  moreover have "take (nat (p + 1)) ?v = take (nat p) v @ [x]"
    using lt by (simp add: np)
  moreover have "drop (nat (p + 1) + length xs) ?v = drop (nat p + length (x # xs)) v"
  proof -
    have "nat (p + 1) + length xs = Suc (nat p) + length xs" by (simp only: np)
    then show ?thesis using lt by (simp add: add.commute)
  qed
  ultimately show ?case by (simp add: stores_Cons s)
qed

lemma fold_stores_concat:
  "fold (\<lambda>i. stores (c i)) is vp = stores (concat (map c is)) vp"
  by (induction "is" arbitrary: vp) (simp_all add: stores_Nil stores_append)

lemma upto_map_int: "[0 .. int m - 1] = map int [0..<m]"
proof (induction m)
  case 0
  then show ?case by simp
next
  case (Suc m)
  have "[0 .. int (Suc m) - 1] = [0 .. int m - 1] @ [int m]"
    using upto_rec2 [of 0 "int m"] by simp
  then show ?case using Suc by simp
qed

lemma edge_pairs_append:
  "even (length xs) \<Longrightarrow> edge_pairs (xs @ ys) = edge_pairs xs @ edge_pairs ys"
  by (induction xs rule: edge_pairs.induct) simp_all

lemma edge_pairs_concat:
  "(\<And>x. x \<in> set xs \<Longrightarrow> even (length (f x))) \<Longrightarrow>
   edge_pairs (concat (map f xs)) = concat (map (\<lambda>x. edge_pairs (f x)) xs)"
proof (induction xs)
  case Nil
  then show ?case by simp
next
  case (Cons x xs)
  then show ?case by (simp add: edge_pairs_append)
qed

lemma fold_max_bound:
  "(\<And>x. x \<in> set xs \<Longrightarrow> x < n) \<Longrightarrow> fold (\<lambda>x m. max (x + 1) m) xs n = (n::int)"
proof (induction xs)
  case Nil
  then show ?case by simp
next
  case (Cons x xs)
  have "x < n" using Cons.prems by simp
  then have "max (x + 1) n = n" by simp
  then show ?case using Cons by simp
qed

lemma igraph_create_ok:
  assumes "even (length edges)" "\<And>x. x \<in> set edges \<Longrightarrow> 0 \<le> x \<and> x < n"
  shows "igraph_create edges n d = Inr \<lparr> g_n = n, g_directed = d, g_edges = edge_pairs edges \<rparr>"
proof -
  have "\<not> list_ex (\<lambda>x. x < 0) edges" using assms(2) by (fastforce simp: list_ex_iff)
  moreover have "fold (\<lambda>x m. max (x + 1) m) edges n = n"
    using assms(2) by (intro fold_max_bound) simp
  ultimately show ?thesis using assms(1) by (simp add: igraph_create_def)
qed

text \<open>What one edge contributes, as the code adds it.\<close>

definition reverse_residual_edges_of :: "int \<times> int \<Rightarrow> real \<Rightarrow> real \<Rightarrow> (int \<times> int) list" where
  "reverse_residual_edges_of e f cap =
     (if f > 0 then [(fst e, snd e)] else []) @ (if f < cap then [(snd e, fst e)] else [])"

definition capacity_of :: "real list option \<Rightarrow> nat \<Rightarrow> real" where
  "capacity_of capacity i = (case capacity of None \<Rightarrow> 1 | Some c \<Rightarrow> c ! i)"

definition reverse_residual_edges :: "igraph_t \<Rightarrow> real list option \<Rightarrow> real list \<Rightarrow> (int \<times> int) list" where
  "reverse_residual_edges graph capacity flow =
     concat (map (\<lambda>i. reverse_residual_edges_of (g_edges graph ! i) (flow ! i) (capacity_of capacity i))
       [0..<length (g_edges graph)])"

definition rr_flat :: "igraph_t \<Rightarrow> real list option \<Rightarrow> real list \<Rightarrow> nat \<Rightarrow> int list" where
  "rr_flat graph capacity flow i =
     (if flow ! i > 0 then [fst (g_edges graph ! i), snd (g_edges graph ! i)] else []) @
     (if flow ! i < capacity_of capacity i then [snd (g_edges graph ! i), fst (g_edges graph ! i)] else [])"

lemma rr_fill_step:
  "reverse_residual_fill_step graph capacity flow (int i) = stores (rr_flat graph capacity flow i)"
  by (rule ext, cases capacity)
     (simp_all add: reverse_residual_fill_step_def rr_flat_def stores_def IGRAPH_FROM_def IGRAPH_TO_def
      capacity_of_def Let_def)

lemma rr_count_step:
  "reverse_residual_count_step capacity flow (int i) k =
     k + int (length (rr_flat graph capacity flow i)) div 2"
  by (cases capacity)
     (simp_all add: reverse_residual_count_step_def rr_flat_def capacity_of_def Let_def)

lemma rr_count_fold:
  "fold (reverse_residual_count_step capacity flow) (map int is) k =
     k + int (length (concat (map (rr_flat graph capacity flow) is))) div 2"
proof (induction "is" arbitrary: k)
  case Nil
  then show ?case by simp
next
  case (Cons i "is")
  have e1: "even (length (rr_flat graph capacity flow i))" by (simp add: rr_flat_def)
  have "even (length (concat (map (rr_flat graph capacity flow) is)))"
    by (induction "is") (simp_all add: rr_flat_def)
  then show ?case using Cons e1 by (simp add: rr_count_step [of _ _ _ _ graph])
qed

lemma rr_flat_even: "even (length (rr_flat graph capacity flow i))"
  by (simp add: rr_flat_def)

lemma rr_flat_pairs:
  "edge_pairs (rr_flat graph capacity flow i) =
   reverse_residual_edges_of (g_edges graph ! i) (flow ! i) (capacity_of capacity i)"
  by (simp add: rr_flat_def reverse_residual_edges_of_def)

lemma rr_i_graph:
  assumes wf: "igraph_wf graph"
  shows "igraph_i_reverse_residual_graph graph capacity flow [] =
         Inr \<lparr> g_n = g_n graph, g_directed = True,
               g_edges = reverse_residual_edges graph capacity flow \<rparr>"
proof -
  let ?m = "length (g_edges graph)"
  let ?all = "concat (map (rr_flat graph capacity flow) [0..<?m])"
  have ev': "\<And>k. even (length (concat (map (rr_flat graph capacity flow) [0..<k])))"
  proof -
    fix k show "even (length (concat (map (rr_flat graph capacity flow) [0..<k])))"
      by (induction k) (simp_all add: rr_flat_even)
  qed
  have cnt: "fold (reverse_residual_count_step capacity flow) [0 .. igraph_ecount graph - 1] 0
             = int (length ?all) div 2"
    by (simp add: igraph_ecount_def upto_map_int rr_count_fold [of _ _ _ _ graph])
  have sz: "nat (int (length ?all) div 2 * 2) = length ?all"
    using ev' [of ?m] by (simp add: dvd_div_mult_self)
  have tmp1: "igraph_vector_resize [] (int (length ?all) div 2 * 2) = replicate (length ?all) 0"
    unfolding igraph_vector_resize_def sz by simp
  have fill: "fold (reverse_residual_fill_step graph capacity flow) [0 .. igraph_ecount graph - 1]
                (replicate (length ?all) 0, 0) = (?all, int (length ?all))"
  proof -
    have "fold (reverse_residual_fill_step graph capacity flow) (map int [0..<?m]) (replicate (length ?all) 0, 0)
          = fold (\<lambda>i. stores (rr_flat graph capacity flow i)) [0..<?m] (replicate (length ?all) 0, 0)"
      by (simp add: fold_map comp_def rr_fill_step)
    also have "\<dots> = stores ?all (replicate (length ?all) 0, 0)"
      by (simp add: fold_stores_concat)
    also have "\<dots> = (?all, int (length ?all))"
      by (subst stores_eq) simp_all
    finally show ?thesis by (simp add: igraph_ecount_def upto_map_int)
  qed
  have rng: "\<And>x. x \<in> set ?all \<Longrightarrow> 0 \<le> x \<and> x < g_n graph"
  proof -
    fix x assume "x \<in> set ?all"
    then obtain i where i: "i < ?m" and x: "x \<in> set (rr_flat graph capacity flow i)" by auto
    have "0 \<le> fst (g_edges graph ! i) \<and> fst (g_edges graph ! i) < g_n graph \<and>
          0 \<le> snd (g_edges graph ! i) \<and> snd (g_edges graph ! i) < g_n graph"
      using wf i by (auto simp: igraph_wf_def list_all_length)
    then show "0 \<le> x \<and> x < g_n graph" using x by (auto simp: rr_flat_def split: if_splits)
  qed
  have pairs: "edge_pairs ?all = reverse_residual_edges graph capacity flow"
    by (simp add: edge_pairs_concat rr_flat_even rr_flat_pairs reverse_residual_edges_def)
  have cr: "igraph_create ?all (g_n graph) True =
            Inr \<lparr> g_n = g_n graph, g_directed = True, g_edges = edge_pairs ?all \<rparr>"
    by (rule igraph_create_ok) (use ev' rng in blast)+
  show ?thesis
    unfolding igraph_i_reverse_residual_graph_def Let_def cnt tmp1 fill
    by (simp add: cr pairs igraph_vcount_def)
qed

text \<open>
  The reading of the data-model section of the specification, which orients the two
  edges the other way round: a forward edge when \<open>f < c\<close>, a reverse edge when
  \<open>f > 0\<close>.
\<close>

definition claimed_reverse_residual ::
  "igraph_t \<Rightarrow> real list option \<Rightarrow> real list \<Rightarrow> igraph_t \<Rightarrow> bool" where
  "claimed_reverse_residual graph capacity flow residual =
     list_all (\<lambda>i.
        (((fst (g_edges graph ! i), snd (g_edges graph ! i)) \<in> set (g_edges residual))
           = (flow ! i < capacity_of capacity i)) \<and>
        (((snd (g_edges graph ! i), fst (g_edges graph ! i)) \<in> set (g_edges residual))
           = (flow ! i > 0)))
       [0..<length (g_edges graph)]"

text \<open>
  Claim C5, as amended. For a well-formed graph, a flow vector and an optional capacity
  vector (absent: all ones) of length \<open>|E|\<close>, the reverse residual graph has the
  vertices of the input and, for each edge \<open>e\<close> in order, the edge
  \<open>(from e, to e)\<close> exactly when \<open>f e > 0\<close>, followed by the edge
  \<open>(to e, from e)\<close> exactly when \<open>f e < c e\<close>. A vector of another length
  gives the invalid-argument error.
\<close>

theorem reverse_residual_graph_edges:
  assumes "igraph_wf graph"
  shows "igraph_reverse_residual_graph graph capacity flow =
         (if (capacity \<noteq> None \<and> length (the capacity) \<noteq> length (g_edges graph))
             \<or> length flow \<noteq> length (g_edges graph)
          then Inl IGRAPH_EINVAL
          else Inr \<lparr> g_n = g_n graph, g_directed = True,
                     g_edges = reverse_residual_edges graph capacity flow \<rparr>)"
  using rr_i_graph [OF assms, of capacity flow]
  by (auto simp: igraph_reverse_residual_graph_def igraph_ecount_def Let_def)

theorem reverse_residual_graph_edges_witness:
  "igraph_wf \<lparr> g_n = 2, g_directed = True, g_edges = [(0, 1)] \<rparr> \<and>
   igraph_reverse_residual_graph \<lparr> g_n = 2, g_directed = True, g_edges = [(0, 1)] \<rparr> (Some [2]) [1]
     = Inr \<lparr> g_n = 2, g_directed = True, g_edges = [(0, 1), (1, 0)] \<rparr>"
proof -
  have wf: "igraph_wf \<lparr> g_n = 2, g_directed = True, g_edges = [(0, 1)] \<rparr>"
    by (simp add: igraph_wf_def IGRAPH_VCOUNT_MAX_def IGRAPH_ECOUNT_MAX_def IGRAPH_INTEGER_MAX_def)
  show ?thesis
    using wf reverse_residual_graph_edges [OF wf, of "Some [2]" "[1]"]
    by (simp add: reverse_residual_edges_def reverse_residual_edges_of_def capacity_of_def)
qed

text \<open>
  One saturated edge \<open>0 \<rightarrow> 1\<close> with \<open>c = f = 2\<close>: the code keeps the edge
  \<open>(0, 1)\<close> and adds no edge \<open>(1, 0)\<close>, where the claim as stated wants no
  forward edge and a reverse one.
\<close>

theorem reverse_residual_claim_counterexample:
  "igraph_reverse_residual_graph \<lparr> g_n = 2, g_directed = True, g_edges = [(0, 1)] \<rparr> (Some [2]) [2]
     = Inr \<lparr> g_n = 2, g_directed = True, g_edges = [(0, 1)] \<rparr> \<and>
   \<not> claimed_reverse_residual \<lparr> g_n = 2, g_directed = True, g_edges = [(0, 1)] \<rparr> (Some [2]) [2]
        \<lparr> g_n = 2, g_directed = True, g_edges = [(0, 1)] \<rparr>"
  by code_simp

lemma fold_prod_split:
  "fold (\<lambda>i s. (F i (fst s), G i (snd s))) is s = (fold F is (fst s), fold G is (snd s))"
  by (induction "is" arbitrary: s) simp_all

lemma et_vertex_step:
  "even_tarjan_vertex_step n hc i =
     (\<lambda>s. (stores [i, i + n] (fst s), (if hc then stores [1] else id) (snd s)))"
  by (rule ext) (simp add: even_tarjan_vertex_step_def stores_def Let_def)

lemma et_edge_step:
  "even_tarjan_edge_step graph n hc (int i) =
     (\<lambda>s. (stores [fst (g_edges graph ! i) + n, snd (g_edges graph ! i),
                     snd (g_edges graph ! i) + n, fst (g_edges graph ! i)] (fst s),
            (if hc then stores [real_of_int n, real_of_int n] else id) (snd s)))"
  by (rule ext)
     (simp add: even_tarjan_edge_step_def stores_def Let_def IGRAPH_FROM_def IGRAPH_TO_def)

definition et_flat_edge :: "int \<Rightarrow> int \<times> int \<Rightarrow> int list" where
  "et_flat_edge n e = [fst e + n, snd e, snd e + n, fst e]"

definition even_tarjan_edges :: "igraph_t \<Rightarrow> (int \<times> int) list" where
  "even_tarjan_edges graph =
     map (\<lambda>v. (v, v + g_n graph)) [0 .. g_n graph - 1] @
     concat (map (\<lambda>e. [(fst e + g_n graph, snd e), (snd e + g_n graph, fst e)]) (g_edges graph))"

definition even_tarjan_capacity :: "igraph_t \<Rightarrow> real list" where
  "even_tarjan_capacity graph =
     replicate (nat (g_n graph)) 1 @
     replicate (2 * length (g_edges graph)) (real_of_int (g_n graph))"

lemma length_igraph_vector_resize:
  "length (igraph_vector_resize v k) = nat k"
  by (simp add: igraph_vector_resize_def)

lemma fold_stores_if:
  "fold (\<lambda>i. if hc then stores (c i) else id) is vp =
     (if hc then stores (concat (map c is)) vp else vp)"
  by (induction "is" arbitrary: vp) (simp_all add: stores_Nil stores_append)

lemma concat_map_replicate_const:
  "concat (map (\<lambda>i. xs) is) = concat (replicate (length is) xs)"
  by (induction "is") simp_all

lemma concat_replicate_single: "concat (replicate k [x]) = replicate k x"
  by (induction k) simp_all

lemma concat_replicate_double: "concat (replicate k [x, x]) = replicate (2 * k) x"
  by (induction k) simp_all

lemma even_tarjan_success:
  assumes wf: "igraph_wf graph"
      and bound: "2 * igraph_ecount graph + igraph_vcount graph \<le> IGRAPH_ECOUNT_MAX"
  shows "igraph_even_tarjan_reduction graph capacity =
         Inr (\<lparr> g_n = 2 * g_n graph, g_directed = True, g_edges = even_tarjan_edges graph \<rparr>,
              map_option (\<lambda>c. even_tarjan_capacity graph) capacity)"
proof -
  let ?n = "g_n graph"
  let ?m = "length (g_edges graph)"
  let ?ne = "2 * int ?m + ?n"
  have n0: "0 \<le> ?n" using wf by (simp add: igraph_wf_def)
  have b: "?ne \<le> IGRAPH_ECOUNT_MAX" using bound by (simp add: igraph_ecount_def igraph_vcount_def)
  have wrap: "int_wrap (int ?m * 2) = int ?m * 2"
    using b n0 by (simp add: int_wrap_def IGRAPH_ECOUNT_MAX_def IGRAPH_INTEGER_MAX_def)
  have mult: "IGRAPH_SAFE_MULT ?n 2 = Inr (2 * ?n)"
    using b n0 by (simp add: IGRAPH_SAFE_MULT_def IGRAPH_ECOUNT_MAX_def IGRAPH_INTEGER_MAX_def
        IGRAPH_INTEGER_MIN_def)
  have add: "IGRAPH_SAFE_ADD (int ?m * 2) ?n = Inr ?ne"
    using b n0 by (simp add: IGRAPH_SAFE_ADD_def IGRAPH_ECOUNT_MAX_def IGRAPH_INTEGER_MAX_def
        IGRAPH_INTEGER_MIN_def)
  let ?vflat = "concat (map (\<lambda>i. [i, i + ?n]) [0 .. ?n - 1])"
  let ?eflat = "concat (map (\<lambda>i. et_flat_edge ?n (g_edges graph ! i)) [0..<?m])"
  have lv: "length ?vflat = 2 * nat ?n"
    using n0 by (simp add: length_concat comp_def sum_list_triv)
  have le: "length ?eflat = 4 * ?m"
    by (simp add: length_concat comp_def et_flat_edge_def sum_list_triv)
  have tot: "nat (?ne * 2) = length ?vflat + length ?eflat"
    using n0 lv le by simp
  have ev: "fold (\<lambda>i. stores (et_flat_edge ?n (g_edges graph ! i))) [0..<?m]
              (fold (\<lambda>i. stores [i, i + ?n]) [0 .. ?n - 1] (replicate (nat (?ne * 2)) 0, 0))
            = (?vflat @ ?eflat, int (length ?vflat + length ?eflat))"
  proof -
    define V where "V = ?vflat"
    define E where "E = ?eflat"
    have r: "replicate (nat (?ne * 2)) (0::int) = replicate (length V + length E) 0"
      using tot by (simp only: V_def E_def)
    have "fold (\<lambda>i. stores (et_flat_edge ?n (g_edges graph ! i))) [0..<?m]
              (fold (\<lambda>i. stores [i, i + ?n]) [0 .. ?n - 1] (replicate (length V + length E) 0, 0))
          = stores E (stores V (replicate (length V + length E) 0, 0))"
      by (simp only: fold_stores_concat V_def E_def)
    also have "stores V (replicate (length V + length E) 0, 0) = (V @ replicate (length E) 0, int (length V))"
      by (subst stores_eq) simp_all
    also have "stores E (V @ replicate (length E) 0, int (length V)) = (V @ E, int (length V + length E))"
      by (subst stores_eq) simp_all
    finally show ?thesis unfolding r by (simp only: V_def E_def)
  qed
  have rng: "\<And>x. x \<in> set (?vflat @ ?eflat) \<Longrightarrow> 0 \<le> x \<and> x < 2 * ?n"
  proof -
    fix x assume "x \<in> set (?vflat @ ?eflat)"
    then consider "x \<in> set ?vflat" | "x \<in> set ?eflat" by auto
    then show "0 \<le> x \<and> x < 2 * ?n"
    proof cases
      case 1
      then show ?thesis by auto
    next
      case 2
      then obtain i where i: "i < ?m" and x: "x \<in> set (et_flat_edge ?n (g_edges graph ! i))" by auto
      have "0 \<le> fst (g_edges graph ! i) \<and> fst (g_edges graph ! i) < ?n \<and>
            0 \<le> snd (g_edges graph ! i) \<and> snd (g_edges graph ! i) < ?n"
        using wf i by (auto simp: igraph_wf_def list_all_length)
      then show ?thesis using x by (auto simp: et_flat_edge_def)
    qed
  qed
  have even: "even (length (?vflat @ ?eflat))"
    unfolding length_append lv le by simp
  have cr: "igraph_create (?vflat @ ?eflat) (2 * ?n) True =
            Inr \<lparr> g_n = 2 * ?n, g_directed = True, g_edges = edge_pairs (?vflat @ ?eflat) \<rparr>"
    by (rule igraph_create_ok) (use even rng in blast)+
  have evl: "even (length ?vflat)" unfolding lv by simp
  have pairs: "edge_pairs (?vflat @ ?eflat) = even_tarjan_edges graph"
  proof -
    have "edge_pairs ?vflat = map (\<lambda>v. (v, v + ?n)) [0 .. ?n - 1]"
      by (subst edge_pairs_concat) (simp_all add: concat_map_singleton)
    moreover have "edge_pairs ?eflat =
        concat (map (\<lambda>i. [(fst (g_edges graph ! i) + ?n, snd (g_edges graph ! i)),
                            (snd (g_edges graph ! i) + ?n, fst (g_edges graph ! i))]) [0..<?m])"
      by (subst edge_pairs_concat) (simp_all add: et_flat_edge_def)
    moreover have "map (\<lambda>i. [(fst (g_edges graph ! i) + ?n, snd (g_edges graph ! i)),
                            (snd (g_edges graph ! i) + ?n, fst (g_edges graph ! i))]) [0..<?m]
        = map (\<lambda>e. [(fst e + ?n, snd e), (snd e + ?n, fst e)]) (g_edges graph)"
      by (rule nth_equalityI) simp_all
    ultimately show ?thesis
      using edge_pairs_append [OF evl] by (simp add: even_tarjan_edges_def)
  qed
  have cap: "\<And>c. fold (\<lambda>i. stores [real_of_int ?n, real_of_int ?n]) [0..<?m]
              (fold (\<lambda>i. stores [1]) [0 .. ?n - 1] (igraph_vector_resize c ?ne, 0))
            = (even_tarjan_capacity graph, ?ne)"
  proof -
    fix c :: "real list"
    let ?c = "igraph_vector_resize c ?ne"
    have lc: "length ?c = nat ?n + 2 * ?m" using n0 by (simp add: length_igraph_vector_resize)
    have "fold (\<lambda>i. stores [1::real]) [0 .. ?n - 1] (?c, 0) = stores (replicate (nat ?n) 1) (?c, 0)"
      using n0 by (simp add: fold_stores_concat concat_map_replicate_const concat_replicate_single
          map_replicate_const)
    also have "\<dots> = (replicate (nat ?n) 1 @ drop (nat ?n) ?c, ?n)"
      using n0 lc by (subst stores_eq) simp_all
    finally have 1: "fold (\<lambda>i. stores [1::real]) [0 .. ?n - 1] (?c, 0)
                     = (replicate (nat ?n) 1 @ drop (nat ?n) ?c, ?n)" .
    have "fold (\<lambda>i. stores [real_of_int ?n, real_of_int ?n]) [0..<?m]
            (replicate (nat ?n) 1 @ drop (nat ?n) ?c, ?n)
          = stores (replicate (2 * ?m) (real_of_int ?n)) (replicate (nat ?n) 1 @ drop (nat ?n) ?c, ?n)"
      by (simp add: fold_stores_concat concat_map_replicate_const concat_replicate_double)
    also have "\<dots> = (even_tarjan_capacity graph, ?ne)"
      using n0 lc by (subst stores_eq) (simp_all add: even_tarjan_capacity_def)
    finally show "fold (\<lambda>i. stores [real_of_int ?n, real_of_int ?n]) [0..<?m]
              (fold (\<lambda>i. stores [1]) [0 .. ?n - 1] (igraph_vector_resize c ?ne, 0))
            = (even_tarjan_capacity graph, ?ne)" by (simp only: 1)
  qed
  have nle: "\<not> IGRAPH_ECOUNT_MAX < ?ne" using b by simp
  define hc where "hc = (capacity \<noteq> None)"
  define cap0 where "cap0 = (case capacity of None \<Rightarrow> [] | Some c \<Rightarrow> igraph_vector_resize c ?ne)"
  define s0 where "s0 = ((replicate (nat (?ne * 2)) (0::int), 0::int), (cap0, 0::int))"
  define s1 where "s1 = fold (even_tarjan_vertex_step ?n hc) [0 .. ?n - 1] s0"
  define s2 where "s2 = fold (even_tarjan_edge_step graph ?n hc) [0 .. int ?m - 1] s1"
  have unf: "igraph_even_tarjan_reduction graph capacity =
        (case igraph_create (fst (fst s2)) (2 * ?n) True of
           Inl e \<Rightarrow> Inl e
         | Inr graphbar \<Rightarrow> Inr (graphbar, if capacity = None then None else Some (fst (snd s2))))"
    unfolding igraph_even_tarjan_reduction_def Let_def igraph_vcount_def igraph_ecount_def
      wrap mult add s2_def s1_def s0_def cap0_def hc_def
    using nle by (simp only: sum.case if_False)
  have s1: "s1 = (fold (\<lambda>i. stores [i, i + ?n]) [0 .. ?n - 1] (fst s0),
                  fold (\<lambda>i. if hc then stores [1] else id) [0 .. ?n - 1] (snd s0))"
    unfolding s1_def et_vertex_step by (rule fold_prod_split)
  have s2: "s2 = (fold (\<lambda>i. stores (et_flat_edge ?n (g_edges graph ! i))) [0..<?m] (fst s1),
                  fold (\<lambda>i. if hc then stores [real_of_int ?n, real_of_int ?n] else id) [0..<?m] (snd s1))"
    unfolding s2_def upto_map_int fold_map comp_def et_edge_step et_flat_edge_def
    by (rule fold_prod_split)
  have fs2: "fst s2 = (?vflat @ ?eflat, int (length ?vflat + length ?eflat))"
    unfolding s2 s1 fst_conv s0_def by (rule ev)
  have g: "igraph_create (fst (fst s2)) (2 * ?n) True =
           Inr \<lparr> g_n = 2 * ?n, g_directed = True, g_edges = even_tarjan_edges graph \<rparr>"
    unfolding fs2 fst_conv cr pairs ..
  have c: "capacity = Some c \<Longrightarrow> fst (snd s2) = even_tarjan_capacity graph" for c
  proof -
    assume c: "capacity = Some c"
    then have hc: "hc" by (simp add: hc_def)
    have "snd s2 = fold (\<lambda>i. stores [real_of_int ?n, real_of_int ?n]) [0..<?m]
              (fold (\<lambda>i. stores [1]) [0 .. ?n - 1] (igraph_vector_resize c ?ne, 0))"
      unfolding s2 s1 snd_conv s0_def cap0_def c using hc by simp
    then show ?thesis by (simp only: cap fst_conv)
  qed
  show ?thesis
  proof (cases capacity)
    case None
    then show ?thesis unfolding unf g by simp
  next
    case (Some c)
    then show ?thesis unfolding unf g using c [OF Some] by simp
  qed
qed

text \<open>
  Claim C7. For a well-formed graph with \<open>n\<close> vertices and \<open>m\<close> edges whose
  \<open>2m + n\<close> is within the edge-count limit, the reduction is a directed graph on
  \<open>2n\<close> vertices with \<open>2m + n\<close> edges: first the inner edges \<open>(v, v + n)\<close>,
  then for each edge \<open>(u, v)\<close> the edges \<open>(u + n, v)\<close> and \<open>(v + n, u)\<close>. A
  requested capacity vector has length \<open>2m + n\<close>: \<open>n\<close> ones, then \<open>2m\<close> times
  \<open>n\<close>.
\<close>

theorem even_tarjan_structure:
  assumes "igraph_wf graph"
      and "2 * igraph_ecount graph + igraph_vcount graph \<le> IGRAPH_ECOUNT_MAX"
  shows "igraph_even_tarjan_reduction graph capacity =
           Inr (\<lparr> g_n = 2 * igraph_vcount graph, g_directed = True,
                   g_edges = even_tarjan_edges graph \<rparr>,
                map_option (\<lambda>c. even_tarjan_capacity graph) capacity) \<and>
         igraph_ecount \<lparr> g_n = 2 * igraph_vcount graph, g_directed = True,
                         g_edges = even_tarjan_edges graph \<rparr>
           = 2 * igraph_ecount graph + igraph_vcount graph \<and>
         int (length (even_tarjan_capacity graph)) = 2 * igraph_ecount graph + igraph_vcount graph \<and>
         take (nat (igraph_vcount graph)) (even_tarjan_capacity graph)
           = replicate (nat (igraph_vcount graph)) 1 \<and>
         drop (nat (igraph_vcount graph)) (even_tarjan_capacity graph)
           = replicate (nat (2 * igraph_ecount graph)) (real_of_int (igraph_vcount graph))"
proof -
  have n0: "0 \<le> g_n graph" using assms(1) by (simp add: igraph_wf_def)
  have "length (even_tarjan_edges graph) = nat (g_n graph) + 2 * length (g_edges graph)"
    using n0 by (simp add: even_tarjan_edges_def length_concat comp_def sum_list_triv)
  then show ?thesis
    using even_tarjan_success [OF assms, of capacity] n0
    by (simp add: igraph_vcount_def igraph_ecount_def even_tarjan_capacity_def)
qed

theorem even_tarjan_structure_witness:
  "igraph_wf \<lparr> g_n = 3, g_directed = True, g_edges = [(0, 1), (1, 2), (2, 0)] \<rparr> \<and>
   igraph_even_tarjan_reduction \<lparr> g_n = 3, g_directed = True, g_edges = [(0, 1), (1, 2), (2, 0)] \<rparr>
       (Some [])
     = Inr (\<lparr> g_n = 6, g_directed = True,
               g_edges = [(0, 3), (1, 4), (2, 5), (3, 1), (4, 0), (4, 2), (5, 1), (5, 0), (3, 2)] \<rparr>,
            Some [1, 1, 1, 3, 3, 3, 3, 3, 3])"
proof -
  let ?g = "\<lparr> g_n = 3, g_directed = True, g_edges = [(0, 1), (1, 2), (2, 0)] \<rparr>"
  have wf: "igraph_wf ?g"
    by (simp add: igraph_wf_def IGRAPH_VCOUNT_MAX_def IGRAPH_ECOUNT_MAX_def IGRAPH_INTEGER_MAX_def)
  have b: "2 * igraph_ecount ?g + igraph_vcount ?g \<le> IGRAPH_ECOUNT_MAX"
    by (simp add: igraph_ecount_def igraph_vcount_def IGRAPH_ECOUNT_MAX_def IGRAPH_INTEGER_MAX_def)
  have e: "even_tarjan_edges ?g = [(0, 3), (1, 4), (2, 5), (3, 1), (4, 0), (4, 2), (5, 1), (5, 0), (3, 2)]"
    by code_simp
  have c: "even_tarjan_capacity ?g = [1, 1, 1, 3, 3, 3, 3, 3, 3]"
    by code_simp
  show ?thesis
    using wf even_tarjan_structure [OF wf b, of "Some []"]
    by (simp add: e c igraph_vcount_def)
qed

text \<open>
  Claim C8. On a well-formed graph the unchecked product \<open>2 * |E|\<close> does not wrap,
  and the reduction fails with the overflow error exactly when \<open>2|E| + |V|\<close> exceeds
  the edge-count limit; it returns a graph exactly when it does not.
\<close>

theorem even_tarjan_overflow:
  assumes "igraph_wf graph"
  shows "int_wrap (igraph_ecount graph * 2) = igraph_ecount graph * 2 \<and>
         ((igraph_even_tarjan_reduction graph capacity = Inl IGRAPH_EOVERFLOW)
            = (IGRAPH_ECOUNT_MAX < 2 * igraph_ecount graph + igraph_vcount graph)) \<and>
         ((\<exists>res. igraph_even_tarjan_reduction graph capacity = Inr res)
            = (2 * igraph_ecount graph + igraph_vcount graph \<le> IGRAPH_ECOUNT_MAX))"
proof -
  let ?n = "g_n graph"
  let ?m = "int (length (g_edges graph))"
  have n0: "0 \<le> ?n" and m: "?m \<le> IGRAPH_ECOUNT_MAX"
    using assms by (simp_all add: igraph_wf_def)
  have wrap: "int_wrap (?m * 2) = ?m * 2"
    using m by (simp add: int_wrap_def IGRAPH_ECOUNT_MAX_def IGRAPH_INTEGER_MAX_def)
  show ?thesis
  proof (cases "2 * ?m + ?n \<le> IGRAPH_ECOUNT_MAX")
    case True
    then have b: "2 * igraph_ecount graph + igraph_vcount graph \<le> IGRAPH_ECOUNT_MAX"
      by (simp add: igraph_ecount_def igraph_vcount_def)
    show ?thesis
      using even_tarjan_success [OF assms b, of capacity] b wrap
      by (simp add: igraph_ecount_def)
  next
    case False
    have "igraph_even_tarjan_reduction graph capacity = Inl IGRAPH_EOVERFLOW"
      unfolding igraph_even_tarjan_reduction_def Let_def igraph_vcount_def igraph_ecount_def wrap
      using False n0 m
      by (simp add: IGRAPH_SAFE_MULT_def IGRAPH_SAFE_ADD_def IGRAPH_ECOUNT_MAX_def
          IGRAPH_INTEGER_MAX_def IGRAPH_INTEGER_MIN_def)
    then show ?thesis using False wrap by (simp add: igraph_ecount_def igraph_vcount_def)
  qed
qed

theorem even_tarjan_overflow_witness:
  "igraph_wf \<lparr> g_n = 2 ^ 62, g_directed = True, g_edges = [] \<rparr> \<and>
   igraph_even_tarjan_reduction \<lparr> g_n = 2 ^ 62, g_directed = True, g_edges = [] \<rparr> None
     = Inl IGRAPH_EOVERFLOW"
proof -
  let ?g = "\<lparr> g_n = 2 ^ 62, g_directed = True, g_edges = [] \<rparr>"
  have wf: "igraph_wf ?g"
    by (simp add: igraph_wf_def IGRAPH_VCOUNT_MAX_def IGRAPH_ECOUNT_MAX_def IGRAPH_INTEGER_MAX_def)
  show ?thesis
    using wf even_tarjan_overflow [OF wf, of None]
    by (simp add: igraph_ecount_def igraph_vcount_def IGRAPH_ECOUNT_MAX_def IGRAPH_INTEGER_MAX_def)
qed

section \<open>Proofs: the argument checks of the dominator tree\<close>

lemma igraph_create_not_EINVAL: "igraph_create edges n d \<noteq> Inl IGRAPH_EINVAL"
  by (simp add: igraph_create_def)

lemma igraph_dfs_ok:
  "0 \<le> rootv \<Longrightarrow> rootv < igraph_vcount graph \<Longrightarrow> \<exists>r. igraph_dfs graph rootv mode = Inr r"
  by (simp add: igraph_dfs_def Let_def)

text \<open>
  Claim C9. The call fails with the invalid-argument error exactly when the graph is
  undirected, the root is not a vertex, or the mode is \<open>IGRAPH_ALL\<close>; the three
  checks come first, so in that case the outputs are returned as they were passed.
\<close>

theorem dominator_tree_einval:
  "((\<exists>outs'. igraph_dominator_tree graph rootv outs want_domtree mode
               = Some (Inl IGRAPH_EINVAL, outs'))
      = (\<not> igraph_is_directed graph \<or> rootv < 0 \<or> rootv \<ge> igraph_vcount graph \<or>
         mode = IGRAPH_ALL)) \<and>
   (\<not> igraph_is_directed graph \<or> rootv < 0 \<or> rootv \<ge> igraph_vcount graph \<or> mode = IGRAPH_ALL
      \<longrightarrow> igraph_dominator_tree graph rootv outs want_domtree mode
            = Some (Inl IGRAPH_EINVAL, outs))"
proof (cases "\<not> igraph_is_directed graph \<or> rootv < 0 \<or> rootv \<ge> igraph_vcount graph \<or>
              mode = IGRAPH_ALL")
  case True
  then have "igraph_dominator_tree graph rootv outs want_domtree mode = Some (Inl IGRAPH_EINVAL, outs)"
    by (auto simp: igraph_dominator_tree_def Let_def)
  then show ?thesis using True by simp
next
  case False
  obtain r where r: "igraph_dfs graph rootv mode = Inr r"
    using False igraph_dfs_ok [of rootv graph mode] by auto
  have "igraph_dominator_tree graph rootv outs want_domtree mode \<noteq> Some (Inl IGRAPH_EINVAL, outs')"
    for outs'
    using False r igraph_create_not_EINVAL
    unfolding igraph_dominator_tree_def Let_def
    by (auto split: option.splits sum.splits)
  then show ?thesis using False by simp
qed

theorem dominator_tree_einval_witness:
  "igraph_dominator_tree \<lparr> g_n = 3, g_directed = True, g_edges = [(0, 1)] \<rparr> 0
       \<lparr> out_dom = Some [7], out_domtree = None, out_leftout = Some [8, 9] \<rparr> True IGRAPH_ALL
     = Some (Inl IGRAPH_EINVAL,
             \<lparr> out_dom = Some [7], out_domtree = None, out_leftout = Some [8, 9] \<rparr>)"
  using dominator_tree_einval [of "\<lparr> g_n = 3, g_directed = True, g_edges = [(0, 1)] \<rparr>" 0
      "\<lparr> out_dom = Some [7], out_domtree = None, out_leftout = Some [8, 9] \<rparr>" True IGRAPH_ALL]
  by simp

section \<open>Proofs: the search restores its stacks\<close>

lemma then_call_Some:
  assumes "then_call r f = Some y"
  obtains (err) e where "r = Some (Inl e)" "y = Inl e"
        | (ok) a where "r = Some (Inr a)" "f a = Some y"
  using assms unfolding then_call_def
  by (cases r) (auto split: sum.splits)

lemma then_call_simps:
  "then_call None f = None"
  "then_call (Some (Inl e)) f = Some (Inl e)"
  "then_call (Some (Inr a)) f = f a"
  by (simp_all add: then_call_def)

lemma provan_shier_add_Isv_shape:
  "provan_shier_add_Isv Isv S = Inr S' \<Longrightarrow> \<exists>new. S' = S \<lparr> mq_Q := mq_Q S @ new \<rparr>"
proof (induction Isv arbitrary: S)
  case Nil
  then have "S' = S \<lparr> mq_Q := mq_Q S @ [] \<rparr>" by simp
  then show ?case by blast
next
  case (Cons u Isv)
  show ?case
  proof (cases "igraph_marked_queue_int_iselement S u")
    case True
    then show ?thesis using Cons by simp
  next
    case False
    then have nin: "u \<notin> set (mq_Q S)" by (simp add: igraph_marked_queue_int_iselement_def)
    then have push: "igraph_marked_queue_int_push S u = Inr (S \<lparr> mq_Q := mq_Q S @ [u] \<rparr>)"
      by (simp add: igraph_marked_queue_int_push_def)
    then have "provan_shier_add_Isv Isv (S \<lparr> mq_Q := mq_Q S @ [u] \<rparr>) = Inr S'"
      using Cons.prems False by simp
    then obtain new where "S' = (S \<lparr> mq_Q := mq_Q S @ [u] \<rparr>) \<lparr> mq_Q := mq_Q (S \<lparr> mq_Q := mq_Q S @ [u] \<rparr>) @ new \<rparr>"
      using Cons.IH by blast
    then have "S' = S \<lparr> mq_Q := mq_Q S @ (u # new) \<rparr>" by simp
    then show ?thesis by blast
  qed
qed

lemma pop_back_batch_after_add:
  "igraph_marked_queue_int_pop_back_batch
     ((igraph_marked_queue_int_start_batch S) \<lparr> mq_Q := mq_Q S @ new \<rparr>) = S"
  by (simp add: igraph_marked_queue_int_pop_back_batch_def igraph_marked_queue_int_start_batch_def)

lemma provan_shier_frame_aux:
  assumes "igraph_provan_shier_list graph0 st0 source0 target0 pivot0 = Some y0"
  shows "\<forall>st'. y0 = Inr st' \<longrightarrow> fst st' = fst st0 \<and> fst (snd st') = fst (snd st0)"
proof (rule igraph_provan_shier_list.raw_induct
    [where P = "\<lambda>graph st source target pivot y.
        \<forall>st'. y = Inr st' \<longrightarrow> fst st' = fst st \<and> fst (snd st') = fst (snd st)", OF _ assms])
  fix rec :: "igraph_t \<Rightarrow> provan_shier_state \<Rightarrow> int \<Rightarrow> int \<Rightarrow> igraph_provan_shier_pivot_t \<Rightarrow>
              (igraph_error_t + provan_shier_state) option"
  fix graph st source target pivot y
  assume IH: "\<And>graph st source target pivot y. rec graph st source target pivot = Some y \<Longrightarrow>
        \<forall>st'. y = Inr st' \<longrightarrow> fst st' = fst st \<and> fst (snd st') = fst (snd st)"
  assume whole: "provan_shier_call_pivot pivot graph (fst st) (fst (snd st)) source target \<bind>
     (\<lambda>vi. if snd vi = []
           then if igraph_marked_queue_int_size (fst st) \<noteq> 0 \<and>
                   igraph_marked_queue_int_size (fst st) \<noteq> igraph_vcount graph
                then Some (Inr (fst st, fst (snd st),
                            snd (snd st) @ [igraph_marked_queue_int_as_vector (fst st)]))
                else Some (Inr st)
           else then_call (provan_shier_left_enter (fst vi) st)
                 (\<lambda>st1. then_call (rec graph st1 source target pivot)
                   (\<lambda>st2. then_call (provan_shier_right_enter (snd vi) st2)
                     (\<lambda>st3. then_call (rec graph st3 source target pivot)
                        provan_shier_right_leave)))) = Some y"
  from whole obtain vi where
    piv: "provan_shier_call_pivot pivot graph (fst st) (fst (snd st)) source target = Some vi"
    and body: "(if snd vi = []
           then if igraph_marked_queue_int_size (fst st) \<noteq> 0 \<and>
                   igraph_marked_queue_int_size (fst st) \<noteq> igraph_vcount graph
                then Some (Inr (fst st, fst (snd st),
                            snd (snd st) @ [igraph_marked_queue_int_as_vector (fst st)]))
                else Some (Inr st)
           else then_call (provan_shier_left_enter (fst vi) st)
                 (\<lambda>st1. then_call (rec graph st1 source target pivot)
                   (\<lambda>st2. then_call (provan_shier_right_enter (snd vi) st2)
                     (\<lambda>st3. then_call (rec graph st3 source target pivot)
                        provan_shier_right_leave)))) = Some y"
    by (auto simp: bind_eq_Some_conv)
  show "\<forall>st'. y = Inr st' \<longrightarrow> fst st' = fst st \<and> fst (snd st') = fst (snd st)"
  proof (cases "snd vi = []")
    case True
    then show ?thesis using body by (auto split: if_splits)
  next
    case False
    with body have b: "then_call (provan_shier_left_enter (fst vi) st)
                 (\<lambda>st1. then_call (rec graph st1 source target pivot)
                   (\<lambda>st2. then_call (provan_shier_right_enter (snd vi) st2)
                     (\<lambda>st3. then_call (rec graph st3 source target pivot)
                        provan_shier_right_leave))) = Some y" by simp
    show ?thesis
    proof (intro allI impI)
      fix st' assume y: "y = Inr st'"
      from b obtain st1 where
        l: "provan_shier_left_enter (fst vi) st = Some (Inr st1)" and
        b1: "then_call (rec graph st1 source target pivot)
                   (\<lambda>st2. then_call (provan_shier_right_enter (snd vi) st2)
                     (\<lambda>st3. then_call (rec graph st3 source target pivot)
                        provan_shier_right_leave)) = Some y"
        using y by (cases rule: then_call_Some) auto
      from b1 obtain st2 where
        r1: "rec graph st1 source target pivot = Some (Inr st2)" and
        b2: "then_call (provan_shier_right_enter (snd vi) st2)
                     (\<lambda>st3. then_call (rec graph st3 source target pivot)
                        provan_shier_right_leave) = Some y"
        using y by (cases rule: then_call_Some) auto
      from b2 obtain st3 where
        e: "provan_shier_right_enter (snd vi) st2 = Some (Inr st3)" and
        b3: "then_call (rec graph st3 source target pivot) provan_shier_right_leave = Some y"
        using y by (cases rule: then_call_Some) auto
      from b3 obtain st4 where
        r2: "rec graph st3 source target pivot = Some (Inr st4)" and
        lv: "provan_shier_right_leave st4 = Some y"
        using y by (cases rule: then_call_Some) auto
      have st1: "fst st1 = fst st" "fst (snd st1) = fst vi # fst (snd st)"
        using l by (auto simp: provan_shier_left_enter_def igraph_estack_push_def
            split: if_splits sum.splits)
      have st2: "fst st2 = fst st" "fst (snd st2) = fst vi # fst (snd st)"
        using IH [OF r1] st1 by auto
      obtain new where st3: "fst st3 = (igraph_marked_queue_int_start_batch (fst st))
                                \<lparr> mq_Q := mq_Q (fst st) @ new \<rparr>"
        "fst (snd st3) = fst (snd st)"
      proof -
        from e obtain S2 where a: "provan_shier_add_Isv (snd vi)
              (igraph_marked_queue_int_start_batch (fst st2)) = Inr S2"
          and s3: "st3 = (S2, igraph_estack_pop (fst (snd st2)), snd (snd st2))"
          by (auto simp: provan_shier_right_enter_def Let_def split: sum.splits)
        from provan_shier_add_Isv_shape [OF a] obtain new where
          "S2 = (igraph_marked_queue_int_start_batch (fst st2))
                  \<lparr> mq_Q := mq_Q (igraph_marked_queue_int_start_batch (fst st2)) @ new \<rparr>"
          by blast
        then have "fst st3 = (igraph_marked_queue_int_start_batch (fst st))
                                \<lparr> mq_Q := mq_Q (fst st) @ new \<rparr>"
          using s3 st2 by (simp add: igraph_marked_queue_int_start_batch_def)
        moreover have "fst (snd st3) = fst (snd st)"
          using s3 st2 by (simp add: igraph_estack_pop_def)
        ultimately show ?thesis using that by blast
      qed
      have st4: "fst st4 = fst st3" "fst (snd st4) = fst (snd st3)"
        using IH [OF r2] by auto
      have "st' = (igraph_marked_queue_int_pop_back_batch (fst st4), fst (snd st4), snd (snd st4))"
        using lv y by (simp add: provan_shier_right_leave_def)
      then show "fst st' = fst st \<and> fst (snd st') = fst (snd st)"
        using st4 st3 by (simp add: pop_back_batch_after_add)
    qed
  qed
qed

text \<open>
  Claim C10. A call of the search that returns successfully leaves \<open>S\<close> (its
  contents and its batch boundaries) and \<open>T\<close> as they were at entry, whatever the
  pivot function is.
\<close>

theorem provan_shier_list_restores:
  "igraph_provan_shier_list graph (S, T, result) source target pivot = Some (Inr (S', T', result'))
   \<Longrightarrow> S' = S \<and> T' = T"
  using provan_shier_frame_aux [of graph "(S, T, result)" source target pivot "Inr (S', T', result')"]
  by simp

theorem provan_shier_list_restores_witness:
  "igraph_provan_shier_list
       \<lparr> g_n = 4, g_directed = True, g_edges = [(0, 1), (0, 2), (1, 3), (2, 3)] \<rparr>
       (\<lparr> mq_Q = [], mq_batches = [] \<rparr>, [], []) 0 3 igraph_i_all_st_cuts_pivot
     = Some (Inr (\<lparr> mq_Q = [], mq_batches = [] \<rparr>, [], [[0], [0, 2], [0, 1], [0, 1, 2]])) \<and>
   \<lparr> mq_Q = [], mq_batches = [] \<rparr> = \<lparr> mq_Q = ([]::int list), mq_batches = [] \<rparr> \<and>
   [] = ([]::int list)"
proof -
  have run: "igraph_provan_shier_list
       \<lparr> g_n = 4, g_directed = True, g_edges = [(0, 1), (0, 2), (1, 3), (2, 3)] \<rparr>
       (\<lparr> mq_Q = [], mq_batches = [] \<rparr>, [], []) 0 3 igraph_i_all_st_cuts_pivot
     = Some (Inr (\<lparr> mq_Q = [], mq_batches = [] \<rparr>, [], [[0], [0, 2], [0, 1], [0, 1, 2]]))"
    by code_simp
  show ?thesis
    using run provan_shier_list_restores [OF run] by simp
qed

section \<open>The search on concrete graphs\<close>

text \<open>
  Claim C6, at an input where the code departs from it. \<^verbatim>\<open>igraph_all_st_cuts\<close>
  checks only that the graph is directed (lines 1037 to 1040). With the source equal to
  the target it returns successfully, with no cut, where the claim wants the
  invalid-argument error that \<^verbatim>\<open>igraph_all_st_mincuts\<close> returns (lines 1372 to
  1380).
\<close>

theorem all_st_cuts_source_is_target:
  "igraph_all_st_cuts \<lparr> g_n = 2, g_directed = True, g_edges = [(0, 1)] \<rparr> 0 0
     = Some (Inr ([], []))"
  by code_simp

text \<open>
  A flow: within the capacities, conserved at every vertex but the source and the
  target, and of the given value out of the source.
\<close>

definition edge_capacity :: "real list option \<Rightarrow> int \<Rightarrow> real" where
  "edge_capacity capacity j = (case capacity of None \<Rightarrow> 1 | Some c \<Rightarrow> c ! nat j)"

definition vertex_outflow :: "igraph_t \<Rightarrow> real list \<Rightarrow> int \<Rightarrow> real" where
  "vertex_outflow graph flow v =
     sum_list (map (\<lambda>j. flow ! nat j)
       (filter (\<lambda>j. IGRAPH_FROM graph j = v) [0 .. igraph_ecount graph - 1]))"

definition vertex_inflow :: "igraph_t \<Rightarrow> real list \<Rightarrow> int \<Rightarrow> real" where
  "vertex_inflow graph flow v =
     sum_list (map (\<lambda>j. flow ! nat j)
       (filter (\<lambda>j. IGRAPH_TO graph j = v) [0 .. igraph_ecount graph - 1]))"

definition is_flow ::
  "igraph_t \<Rightarrow> real list option \<Rightarrow> real list \<Rightarrow> int \<Rightarrow> int \<Rightarrow> real \<Rightarrow> bool" where
  "is_flow graph capacity flow source target val =
     (int (length flow) = igraph_ecount graph \<and>
      list_all (\<lambda>j. 0 \<le> flow ! nat j \<and> flow ! nat j \<le> edge_capacity capacity j)
        [0 .. igraph_ecount graph - 1] \<and>
      list_all (\<lambda>v. v = source \<or> v = target \<or>
                     vertex_inflow graph flow v = vertex_outflow graph flow v)
        [0 .. igraph_vcount graph - 1] \<and>
      vertex_outflow graph flow source - vertex_inflow graph flow source = val)"

definition cut_capacity :: "real list option \<Rightarrow> int list \<Rightarrow> real" where
  "cut_capacity capacity cutv = sum_list (map (edge_capacity capacity) cutv)"

text \<open>
  Claim C3, at an input where the code departs from it. Six vertices, unit capacities,
  source \<open>0\<close>, target \<open>5\<close>, edges \<open>0\<rightarrow>1\<close>, \<open>1\<rightarrow>2\<close>, \<open>2\<rightarrow>5\<close>, \<open>0\<rightarrow>4\<close>,
  \<open>4\<rightarrow>5\<close>, \<open>3\<rightarrow>2\<close>, \<open>4\<rightarrow>3\<close>. The flow of value \<open>2\<close> along \<open>0\<rightarrow>1\<rightarrow>2\<rightarrow>5\<close> and
  \<open>0\<rightarrow>4\<rightarrow>5\<close> is maximal (the two edges out of the source are saturated) and it is
  the only maximal flow. The reverse residual graph has no cycle, so every vertex is
  its own component. The second cut the code lists, the edges \<open>0\<close>, \<open>2\<close> and \<open>4\<close>
  for the partition \<open>{0, 2, 3, 4}\<close>, has capacity \<open>3\<close>: vertex \<open>4\<close> is taken for a
  minimal active vertex although the active vertex \<open>1\<close> reaches it through the
  inactive vertex \<open>3\<close>.
\<close>

theorem all_st_mincuts_lists_larger_cut:
  "is_flow \<lparr> g_n = 6, g_directed = True,
             g_edges = [(0, 1), (1, 2), (2, 5), (0, 4), (4, 5), (3, 2), (4, 3)] \<rparr>
     None [1, 1, 1, 1, 1, 0, 0] 0 5 2 \<and>
   cut_capacity None [0, 3] = 2 \<and>
   igraph_all_st_mincuts (\<lambda>g s t c. Inr (2, [1, 1, 1, 1, 1, 0, 0]))
     (\<lambda>g. Inr ([0, 1, 2, 3, 4, 5], 6))
     \<lparr> g_n = 6, g_directed = True,
       g_edges = [(0, 1), (1, 2), (2, 5), (0, 4), (4, 5), (3, 2), (4, 3)] \<rparr> 0 5 None
     = Some (Inr (2, [[0, 3], [0, 2, 4], [1, 3], [1, 4], [2, 3], [2, 4]],
          [[0], [0, 4, 3, 2], [0, 1], [0, 1, 4, 3], [0, 1, 2], [0, 1, 2, 4, 3]])) \<and>
   cut_capacity None [0, 2, 4] = 3"
  by code_simp

section \<open>Proofs: facts about the searches\<close>

lemma igraph_wf_endpoints:
  "igraph_wf graph \<Longrightarrow> graph_endpoints graph \<subseteq> {0 .. g_n graph - 1}"
  by (auto simp: igraph_wf_def graph_endpoints_def list_all_iff)

lemma igraph_wf_neighbors:
  "igraph_wf graph \<Longrightarrow> x \<in> set (igraph_neighbors graph v mode) \<Longrightarrow> 0 \<le> x \<and> x < g_n graph"
  using igraph_wf_endpoints [of graph] igraph_neighbors_endpoints [of graph v mode] by auto








lemma length_le_of_distinct_range:
  assumes "distinct vs" "set vs \<subseteq> {0 .. n - 1}"
  shows "length vs \<le> nat n"
proof -
  have "length vs = card (set vs)" using assms(1) by (simp add: distinct_card)
  also have "\<dots> \<le> card {0 .. n - 1}" using assms(2) by (intro card_mono) auto
  also have "\<dots> = nat n" by simp
  finally show ?thesis .
qed




text \<open>The depth-first loop: the vertices it reaches and the fathers it records.\<close>

definition dfs_inv ::
  "igraph_t \<Rightarrow> int \<Rightarrow> (int \<times> int list) list \<Rightarrow> int list \<Rightarrow> int list \<Rightarrow>
   igraph_dfs_event list \<Rightarrow> bool" where
  "dfs_inv graph rootv stack added father events =
     (added = rev (dfs_in_order events) \<and> distinct added \<and>
      set added \<subseteq> {0 .. g_n graph - 1} \<and>
      (\<forall>p \<in> set stack. fst p \<in> set added \<and> set (snd p) \<subseteq> {0 .. g_n graph - 1}) \<and>
      length father = nat (g_n graph) \<and>
      (\<exists>rest. dfs_in_order events = rootv # rest) \<and>
      father ! nat rootv = - 1 \<and>
      (\<forall>x \<in> {0 .. g_n graph - 1} - set added. father ! nat x = - 2) \<and>
      (\<forall>j < length added. 0 < j \<longrightarrow>
          (\<exists>i < j. father ! nat (dfs_in_order events ! j) = dfs_in_order events ! i)))"

lemma dfs_in_order_append:
  "dfs_in_order (es @ fs) = dfs_in_order es @ dfs_in_order fs"
  by (induction es rule: dfs_in_order.induct) simp_all

lemma dfs_inv_step_out:
  assumes "dfs_inv graph rootv ((actvect, neis) # stack) added father events"
  shows "dfs_inv graph rootv stack added father (events @ [DFS_OUT actvect])"
  using assms unfolding dfs_inv_def by (auto simp: dfs_in_order_append)

lemma nat_eq_nonneg: "0 \<le> a \<Longrightarrow> 0 \<le> b \<Longrightarrow> nat a = nat b \<Longrightarrow> a = b"
  by simp

lemma dfs_inv_step_in:
  assumes inv: "dfs_inv graph rootv ((actvect, neis) # stack) added father events"
      and wf: "igraph_wf graph"
      and dw: "dropWhile (\<lambda>nei. nei \<in> set added) neis = nei # rest"
  shows "dfs_inv graph rootv ((nei, igraph_neighbors graph nei mode) # (actvect, rest) # stack)
           (nei # added) (father[nat nei := actvect]) (events @ [DFS_IN nei])"
proof -
  let ?V = "dfs_in_order events"
  let ?n = "g_n graph"
  have n: "nei \<in> set neis" "nei \<notin> set added" "set rest \<subseteq> set neis"
    using dropWhile_Cons_set [OF dw] by auto
  have added: "added = rev ?V" and dist: "distinct added"
    and rng: "set added \<subseteq> {0 .. ?n - 1}"
    and stk: "\<forall>p \<in> set ((actvect, neis) # stack). fst p \<in> set added \<and> set (snd p) \<subseteq> {0 .. ?n - 1}"
    and len: "length father = nat ?n"
    and hd: "\<exists>rest. ?V = rootv # rest"
    and fr: "father ! nat rootv = - 1"
    and un: "\<forall>x \<in> {0 .. ?n - 1} - set added. father ! nat x = - 2"
    and par: "\<forall>j < length added. 0 < j \<longrightarrow> (\<exists>i < j. father ! nat (?V ! j) = ?V ! i)"
    using inv unfolding dfs_inv_def by blast+
  have neir: "0 \<le> nei" "nei < ?n" using stk n(1) by auto
  have act: "actvect \<in> set added" using stk by auto
  have rootin: "rootv \<in> set added" using hd added by auto
  have rootr: "0 \<le> rootv" using rootin rng by auto
  have neq: "nei \<noteq> rootv" using rootin n(2) by auto
  have V': "dfs_in_order (events @ [DFS_IN nei]) = ?V @ [nei]"
    by (simp add: dfs_in_order_append)
  have lenV: "length ?V = length added" using added by simp
  have 1: "nei # added = rev (dfs_in_order (events @ [DFS_IN nei]))"
    using added V' by simp
  have 2: "distinct (nei # added)" using dist n(2) by simp
  have 3: "set (nei # added) \<subseteq> {0 .. ?n - 1}" using rng neir by auto
  have 4: "\<forall>p \<in> set ((nei, igraph_neighbors graph nei mode) # (actvect, rest) # stack).
             fst p \<in> set (nei # added) \<and> set (snd p) \<subseteq> {0 .. ?n - 1}"
    using stk n(3) igraph_wf_neighbors [OF wf, of _ nei mode] by auto
  have 5: "length (father[nat nei := actvect]) = nat ?n" using len by simp
  have 6: "\<exists>rest. dfs_in_order (events @ [DFS_IN nei]) = rootv # rest"
    using hd V' by auto
  have 7: "father[nat nei := actvect] ! nat rootv = - 1"
    using fr neq neir rootr by (simp add: nth_list_update)
  have 8: "\<forall>x \<in> {0 .. ?n - 1} - set (nei # added). father[nat nei := actvect] ! nat x = - 2"
  proof
    fix x assume x: "x \<in> {0 .. ?n - 1} - set (nei # added)"
    then have "nat x \<noteq> nat nei" using neir by auto
    then show "father[nat nei := actvect] ! nat x = - 2" using un x by simp
  qed
  have 9: "\<forall>j < length (nei # added). 0 < j \<longrightarrow>
          (\<exists>i < j. father[nat nei := actvect] ! nat (dfs_in_order (events @ [DFS_IN nei]) ! j)
                   = dfs_in_order (events @ [DFS_IN nei]) ! i)"
  proof (intro allI impI)
    fix j assume j: "j < length (nei # added)" "0 < j"
    show "\<exists>i < j. father[nat nei := actvect] ! nat (dfs_in_order (events @ [DFS_IN nei]) ! j)
                   = dfs_in_order (events @ [DFS_IN nei]) ! i"
    proof (cases "j < length added")
      case True
      then obtain i where i: "i < j" "father ! nat (?V ! j) = ?V ! i" using par j(2) by blast
      have vj: "?V ! j \<in> set added" using True added lenV by (metis nth_mem set_rev)
      then have "?V ! j \<noteq> nei" "0 \<le> ?V ! j" using n(2) rng by auto
      then have "nat (?V ! j) \<noteq> nat nei" using neir by auto
      then show ?thesis using i True lenV by (intro exI [of _ i]) (simp add: V' nth_append)
    next
      case False
      then have jl: "j = length added" using j(1) by simp
      from act obtain i where i: "i < length ?V" "?V ! i = actvect"
        using added by (metis in_set_conv_nth set_rev)
      have "father[nat nei := actvect] ! nat (dfs_in_order (events @ [DFS_IN nei]) ! j) = actvect"
        using jl lenV len neir by (simp add: V' nth_append)
      then show ?thesis using i jl lenV by (intro exI [of _ i]) (simp add: V' nth_append)
    qed
  qed
  show ?thesis
    unfolding dfs_inv_def using 1 2 3 4 5 6 7 8 9 by blast
qed

lemma igraph_dfs_loop_inv:
  assumes "dfs_inv graph rootv stack added father events" "igraph_wf graph"
      and "igraph_dfs_loop graph mode stack added father events = (father', events')"
  shows "dfs_inv graph rootv [] (rev (dfs_in_order events')) father' events'"
  using assms
proof (induction graph mode stack added father events rule: igraph_dfs_loop.induct)
  case (1 graph mode added father events)
  then show ?case by (auto simp: dfs_inv_def)
next
  case (2 graph mode actvect neis stack added father events)
  note run = "2.prems"(3) [unfolded igraph_dfs_loop.simps(2) [of graph mode actvect neis stack]]
  show ?case
  proof (cases "dropWhile (\<lambda>nei. nei \<in> set added) neis")
    case Nil
    have r: "igraph_dfs_loop graph mode stack added father (events @ [DFS_OUT actvect])
               = (father', events')"
      using run by (simp only: Nil list.case)
    show ?thesis
      by (rule "2.IH"(1) [OF Nil dfs_inv_step_out [OF "2.prems"(1)] "2.prems"(2) r])
  next
    case (Cons nei rest)
    have r: "igraph_dfs_loop graph mode
               ((nei, igraph_neighbors graph nei mode) # (actvect, rest) # stack)
               (nei # added) (father[nat nei := actvect]) (events @ [DFS_IN nei])
               = (father', events')"
      using run by (simp only: Cons list.case)
    show ?thesis
      by (rule "2.IH"(2) [OF Cons dfs_inv_step_in [OF "2.prems"(1,2) Cons] "2.prems"(2) r])
  qed
qed

text \<open>What a successful depth-first search returns on a well-formed graph.\<close>

definition dfs_result_ok ::
  "igraph_t \<Rightarrow> int \<Rightarrow> int list \<Rightarrow> int list \<Rightarrow> int list \<Rightarrow> bool" where
  "dfs_result_ok graph rootv V order father =
     (order = V @ replicate (nat (g_n graph) - length V) (- 1) \<and>
      distinct V \<and> set V \<subseteq> {0 .. g_n graph - 1} \<and>
      (\<exists>rest. V = rootv # rest) \<and>
      length father = nat (g_n graph) \<and>
      father ! nat rootv = - 1 \<and>
      (\<forall>x \<in> {0 .. g_n graph - 1} - set V. father ! nat x = - 2) \<and>
      (\<forall>j < length V. 0 < j \<longrightarrow> (\<exists>i < j. father ! nat (V ! j) = V ! i)))"

lemma igraph_dfs_result:
  assumes "igraph_wf graph" "igraph_dfs graph rootv mode = Inr (order, father, events)"
  shows "dfs_result_ok graph rootv (dfs_in_order events) order father"
proof -
  let ?n = "g_n graph"
  have r: "0 \<le> rootv" "rootv < ?n" using assms(2)
    by (auto simp: igraph_dfs_def Let_def igraph_vcount_def split: if_splits)
  let ?f0 = "(replicate (nat ?n) (- 2))[nat rootv := - 1]"
  have run: "igraph_dfs_loop graph mode [(rootv, igraph_neighbors graph rootv mode)] [rootv] ?f0
               [DFS_IN rootv] = (father, events)"
    and ord: "order = dfs_in_order events @ replicate (nat ?n - length (dfs_in_order events)) (- 1)"
    using assms(2) r
    by (auto simp: igraph_dfs_def Let_def igraph_vcount_def split: if_splits prod.splits)
  have inv0: "dfs_inv graph rootv [(rootv, igraph_neighbors graph rootv mode)] [rootv] ?f0
                [DFS_IN rootv]"
    unfolding dfs_inv_def
    using r igraph_wf_neighbors [OF assms(1), of _ rootv mode]
    by (auto simp: nth_list_update)
  note inv = igraph_dfs_loop_inv [OF inv0 assms(1) run]
  then show ?thesis
    unfolding dfs_inv_def dfs_result_ok_def using ord
    by (auto simp: set_rev)
qed



section \<open>Proofs: the dominator tree returns\<close>

text \<open>The numbering of the reached vertices (step 1 of the dominator tree).\<close>

definition number_inv ::
  "int list \<Rightarrow> int list \<Rightarrow> nat \<Rightarrow> nat \<Rightarrow> int list \<times> int list \<times> int \<Rightarrow> bool" where
  "number_inv V order n k svc =
     (let c = min k (length V)
      in snd (snd svc) = int c \<and> length (fst svc) = n \<and> length (fst (snd svc)) = n \<and>
         (\<forall>j < c. fst svc ! nat (V ! j) = int j + 1 \<and> fst (snd svc) ! j = V ! j + 1) \<and>
         (\<forall>j. c \<le> j \<and> j < n \<longrightarrow> fst (snd svc) ! j = order ! j) \<and>
         (\<forall>y < n. 0 \<le> fst svc ! y))"

lemma number_inv_step:
  assumes V: "distinct V" "set V \<subseteq> {0 .. int n - 1}"
      and order: "order = V @ replicate (n - length V) (- 1)"
      and k: "k < n"
      and inv: "number_inv V order n k svc"
  shows "number_inv V order n (Suc k) (dominator_number_step (int k) svc)"
proof -
  obtain semi vertex cs where svc: "svc = (semi, vertex, cs)" by (cases svc) auto
  have lenV: "length V \<le> n" using length_le_of_distinct_range [OF V] by simp
  let ?c = "min k (length V)"
  have cs: "cs = int ?c" and ls: "length semi = n" and lv: "length vertex = n"
    and num: "\<forall>j < ?c. semi ! nat (V ! j) = int j + 1 \<and> vertex ! j = V ! j + 1"
    and rest: "\<forall>j. ?c \<le> j \<and> j < n \<longrightarrow> vertex ! j = order ! j"
    and nn: "\<forall>y < n. 0 \<le> semi ! y"
    using inv unfolding number_inv_def svc Let_def by simp_all
  show ?thesis
  proof (cases "k < length V")
    case True
    then have c: "?c = k" "min (Suc k) (length V) = Suc k" by simp_all
    have vk: "vertex ! k = V ! k" using rest c k True order by (simp add: nth_append)
    have "V ! k \<in> set V" using True by simp
    then have Vk: "0 \<le> V ! k" "V ! k < int n" using V(2) by auto
    have step: "dominator_number_step (int k) svc
                  = (semi[nat (V ! k) := int k + 1], vertex[k := V ! k + 1], int k + 1)"
      using vk Vk cs c by (simp add: dominator_number_step_def svc Let_def)
    have d: "nat (V ! j) \<noteq> nat (V ! k)" if "j < k" for j
    proof -
      have "V ! j \<noteq> V ! k" using V(1) True that by (simp add: nth_eq_iff_index_eq)
      moreover have "V ! j \<in> set V" using True that by simp
      then have "0 \<le> V ! j" using V(2) by auto
      ultimately show ?thesis using Vk by simp
    qed
    have a: "\<forall>j < Suc k. semi[nat (V ! k) := int k + 1] ! nat (V ! j) = int j + 1 \<and>
                          vertex[k := V ! k + 1] ! j = V ! j + 1"
    proof (intro allI impI)
      fix j assume j: "j < Suc k"
      show "semi[nat (V ! k) := int k + 1] ! nat (V ! j) = int j + 1 \<and>
            vertex[k := V ! k + 1] ! j = V ! j + 1"
      proof (cases "j = k")
        case True
        then show ?thesis using Vk ls lv k by simp
      next
        case False
        then have "j < k" using j by simp
        then show ?thesis using d [of j] num c by simp
      qed
    qed
    have b: "\<forall>j. Suc k \<le> j \<and> j < n \<longrightarrow> vertex[k := V ! k + 1] ! j = order ! j"
      using rest c by simp
    have e: "\<forall>y < n. 0 \<le> semi[nat (V ! k) := int k + 1] ! y"
      using nn ls Vk by (auto simp: nth_list_update)
    show ?thesis
      unfolding number_inv_def step Let_def c using a b e ls lv by simp
  next
    case False
    then have c: "?c = length V" "min (Suc k) (length V) = length V" by simp_all
    have vk: "vertex ! k = - 1" using rest c k False order by (simp add: nth_append)
    have step: "dominator_number_step (int k) svc = svc"
      using vk by (simp add: dominator_number_step_def svc Let_def)
    show ?thesis
      using inv unfolding number_inv_def step Let_def c by simp
  qed
qed

lemma number_inv_fold:
  assumes V: "distinct V" "set V \<subseteq> {0 .. int n - 1}"
      and order: "order = V @ replicate (n - length V) (- 1)"
      and k: "k \<le> n"
  shows "number_inv V order n k
           (fold dominator_number_step [0 .. int k - 1] (replicate n 0, order, 0))"
  using k
proof (induction k)
  case 0
  have "length V \<le> n" using length_le_of_distinct_range [OF V] by simp
  then show ?case using order by (simp add: number_inv_def)
next
  case (Suc k)
  have "[0 .. int (Suc k) - 1] = [0 .. int k - 1] @ [int k]"
    using upto_map_int [of "Suc k"] upto_map_int [of k] by simp
  then show ?case
    using number_inv_step [OF V order _ Suc.IH] Suc.prems by simp
qed

text \<open>
  The ancestor pointers of the link-eval forest lead to vertices with a smaller number,
  so the climb of COMPRESS ends.
\<close>

definition anc_inv :: "int list \<Rightarrow> nat \<Rightarrow> int list \<Rightarrow> bool" where
  "anc_inv num n ancestor =
     (length ancestor = n \<and>
      (\<forall>x < n. ancestor ! x \<noteq> 0 \<longrightarrow>
         0 \<le> ancestor ! x - 1 \<and> nat (ancestor ! x - 1) < n \<and>
         num ! nat (ancestor ! x - 1) < num ! x))"

abbreviation num_less :: "int list \<Rightarrow> int \<Rightarrow> int \<Rightarrow> bool" where
  "num_less num a b \<equiv> num ! nat a < num ! nat b"

lemma dominator_COMPRESS_climb_returns:
  assumes inv: "anc_inv num n ancestor" and nn: "\<forall>y < n. 0 \<le> num ! y"
  shows "0 \<le> w \<Longrightarrow> nat w < n \<Longrightarrow>
         \<forall>p \<in> set path. 0 \<le> p \<and> nat p < n \<and> ancestor ! nat p \<noteq> 0 \<Longrightarrow>
         sorted_wrt (num_less num) (w # path) \<Longrightarrow>
         \<exists>res. dominator_COMPRESS_climb ancestor w path = Some res \<and>
               (ancestor ! nat w \<noteq> 0 \<or> path \<noteq> [] \<longrightarrow> res \<noteq> []) \<and>
               (\<forall>p \<in> set res. 0 \<le> p \<and> nat p < n \<and> ancestor ! nat p \<noteq> 0) \<and>
               sorted_wrt (num_less num) res"
proof (induction w arbitrary: path rule: measure_induct_rule [where f = "\<lambda>w. nat (num ! nat w)"])
  case (less w)
  show ?case
  proof (cases "ancestor ! nat w = 0")
    case True
    then show ?thesis
      using less.prems by (subst dominator_COMPRESS_climb.simps) simp
  next
    case False
    let ?w' = "ancestor ! nat w - 1"
    have w': "0 \<le> ?w'" "nat ?w' < n" "num ! nat ?w' < num ! nat w"
      using inv False less.prems(2) unfolding anc_inv_def by auto
    have m: "nat (num ! nat ?w') < nat (num ! nat w)"
      using w' nn by auto
    have p: "\<forall>p \<in> set (w # path). 0 \<le> p \<and> nat p < n \<and> ancestor ! nat p \<noteq> 0"
      using less.prems False by simp
    have s: "sorted_wrt (num_less num) (?w' # w # path)"
      using less.prems(4) w'(3) by auto
    obtain res where res: "dominator_COMPRESS_climb ancestor ?w' (w # path) = Some res"
        "res \<noteq> []" "\<forall>p \<in> set res. 0 \<le> p \<and> nat p < n \<and> ancestor ! nat p \<noteq> 0"
        "sorted_wrt (num_less num) res"
      using less.IH [OF m w'(1,2) p s] by auto
    show ?thesis
      using res False by (subst dominator_COMPRESS_climb.simps) simp
  qed
qed

lemma dominator_COMPRESS_unwind_inv:
  assumes "anc_inv num n ancestor" "0 \<le> topv" "nat topv < n" "ancestor ! nat topv \<noteq> 0"
      and "\<forall>p \<in> set path. 0 \<le> p \<and> nat p < n"
      and "sorted_wrt (num_less num) (topv # path)"
  shows "anc_inv num n (fst (dominator_COMPRESS_unwind semi topv path (ancestor, label)))"
  using assms
proof (induction path arbitrary: topv ancestor label)
  case Nil
  then show ?case by simp
next
  case (Cons pretop path)
  let ?a1 = "ancestor[nat pretop := ancestor ! nat topv]"
  have pre: "0 \<le> pretop" "nat pretop < n" using Cons.prems(5) by auto
  have top: "0 \<le> ancestor ! nat topv - 1" "nat (ancestor ! nat topv - 1) < n"
      "num ! nat (ancestor ! nat topv - 1) < num ! nat topv"
    using Cons.prems(1,3,4) unfolding anc_inv_def by auto
  have lt: "num ! nat topv < num ! nat pretop" using Cons.prems(6) by simp
  have len: "length ancestor = n" using Cons.prems(1) unfolding anc_inv_def by simp
  have a1: "anc_inv num n ?a1"
    unfolding anc_inv_def
  proof (intro conjI allI impI)
    show "length ?a1 = n" using len by simp
  next
    fix x assume x: "x < n" "?a1 ! x \<noteq> 0"
    show "0 \<le> ?a1 ! x - 1" "nat (?a1 ! x - 1) < n" "num ! nat (?a1 ! x - 1) < num ! x"
      using x top lt len pre Cons.prems(1) unfolding anc_inv_def
      by (auto simp: nth_list_update split: if_splits)
  qed
  have a1top: "?a1 ! nat pretop \<noteq> 0" using Cons.prems(4) len pre by simp
  have rest: "\<forall>p \<in> set path. 0 \<le> p \<and> nat p < n" using Cons.prems(5) by simp
  have srt: "sorted_wrt (num_less num) (pretop # path)" using Cons.prems(6) by simp
  show ?case
    using Cons.IH [OF a1 pre a1top rest srt] by (simp add: Let_def)
qed

lemma igraph_i_dominator_EVAL_returns:
  assumes inv: "anc_inv num n ancestor" and nn: "\<forall>y < n. 0 \<le> num ! y"
      and v: "0 \<le> v" "nat v < n"
  shows "\<exists>u a l. igraph_i_dominator_EVAL v ancestor label semi = Some (u, a, l) \<and>
                 anc_inv num n a"
proof (cases "ancestor ! nat v = 0")
  case True
  then show ?thesis using inv by (simp add: igraph_i_dominator_EVAL_def)
next
  case False
  obtain res where res: "dominator_COMPRESS_climb ancestor v [] = Some res" "res \<noteq> []"
      "\<forall>p \<in> set res. 0 \<le> p \<and> nat p < n \<and> ancestor ! nat p \<noteq> 0"
      "sorted_wrt (num_less num) res"
    using dominator_COMPRESS_climb_returns [OF inv nn v, of "[]"] False by auto
  obtain topv path where tp: "res = topv # path" using res(2) by (cases res) auto
  obtain a l where al: "dominator_COMPRESS_unwind semi topv path (ancestor, label) = (a, l)"
    by (cases "dominator_COMPRESS_unwind semi topv path (ancestor, label)") auto
  have "anc_inv num n a"
    using dominator_COMPRESS_unwind_inv [OF inv, of topv path semi label] res(3,4) tp al by simp
  then show ?thesis
    using False res(1) tp al
    by (simp add: igraph_i_dominator_EVAL_def igraph_i_dominator_COMPRESS_def)
qed

lemma dominator_pred_loop_returns:
  assumes nn: "\<forall>y < n. 0 \<le> num ! y"
  shows "anc_inv num n (ds_ancestor s) \<Longrightarrow> \<forall>v \<in> set predw. 0 \<le> v \<and> nat v < n \<Longrightarrow>
         \<exists>s'. dominator_pred_loop w predw s = Some s' \<and> anc_inv num n (ds_ancestor s') \<and>
              ds_bucket s' = ds_bucket s"
proof (induction predw arbitrary: s)
  case Nil
  then show ?case by simp
next
  case (Cons v predw)
  have v: "0 \<le> v" "nat v < n" using Cons.prems(2) by auto
  obtain u a l where ev:
      "igraph_i_dominator_EVAL v (ds_ancestor s) (ds_label s) (ds_semi s) = Some (u, a, l)"
      "anc_inv num n a"
    using igraph_i_dominator_EVAL_returns [OF Cons.prems(1) nn v] by blast
  define s1 where "s1 = s \<lparr> ds_ancestor := a, ds_label := l \<rparr>"
  define s2 where "s2 = (if ds_semi s1 ! nat u < ds_semi s1 ! nat w
                    then s1 \<lparr> ds_semi := (ds_semi s1)[nat w := ds_semi s1 ! nat u] \<rparr>
                    else s1)"
  have s2: "anc_inv num n (ds_ancestor s2)" "ds_bucket s2 = ds_bucket s"
    using ev(2) by (simp_all add: s2_def s1_def)
  have rest: "\<forall>v \<in> set predw. 0 \<le> v \<and> nat v < n" using Cons.prems(2) by simp
  have "dominator_pred_loop w (v # predw) s = dominator_pred_loop w predw s2"
    using ev(1) by (simp add: Let_def s2_def s1_def)
  then show ?case using Cons.IH [OF s2(1) rest] s2(2) by simp
qed

text \<open>
  The buckets: the list of each bucket ends, and it holds vertices that the main loop
  has already handled.
\<close>

fun bucket_chain :: "int list \<Rightarrow> int \<Rightarrow> int list \<Rightarrow> bool" where
  "bucket_chain nxt h [] = (h = 0)"
| "bucket_chain nxt h (e # es) = (h = e + 1 \<and> bucket_chain nxt (nxt ! nat e) es)"

definition bucket_inv :: "nat \<Rightarrow> int set \<Rightarrow> igraph_i_dbucket_t \<Rightarrow> bool" where
  "bucket_inv n D buck =
     (length (db_head buck) = n \<and> length (db_next buck) = n \<and>
      (\<forall>b < n. \<exists>es. bucket_chain (db_next buck) (db_head buck ! b) es \<and>
                  (\<forall>e \<in> set es. 0 \<le> e \<and> nat e < n \<and> e \<in> D)))"

lemma bucket_chain_update:
  "bucket_chain nxt h es \<Longrightarrow> w \<notin> set es \<Longrightarrow> 0 \<le> w \<Longrightarrow> \<forall>e \<in> set es. 0 \<le> e \<Longrightarrow>
   bucket_chain (nxt[nat w := x]) h es"
proof (induction es arbitrary: h)
  case Nil
  then show ?case by simp
next
  case (Cons e es)
  have "nat e \<noteq> nat w" using Cons.prems by auto
  then show ?case using Cons by simp
qed

lemma bucket_inv_insert:
  assumes inv: "bucket_inv n D buck" and w: "0 \<le> w" "nat w < n" "w \<notin> D"
  shows "bucket_inv n (insert w D) (igraph_i_dbucket_insert buck bid w)"
proof -
  let ?h = "(db_head buck)[nat bid := w + 1]"
  let ?x = "(db_next buck)[nat w := db_head buck ! nat bid]"
  have len: "length (db_head buck) = n" "length (db_next buck) = n"
    using inv unfolding bucket_inv_def by simp_all
  have "\<exists>es. bucket_chain ?x (?h ! b) es \<and> (\<forall>e \<in> set es. 0 \<le> e \<and> nat e < n \<and> e \<in> insert w D)"
    if b: "b < n" for b
  proof -
    have old: "\<exists>es. bucket_chain (db_next buck) (db_head buck ! c) es \<and>
                 (\<forall>e \<in> set es. 0 \<le> e \<and> nat e < n \<and> e \<in> D)" if "c < n" for c
      using inv that unfolding bucket_inv_def by blast
    show ?thesis
    proof (cases "b = nat bid")
      case True
      obtain es where es: "bucket_chain (db_next buck) (db_head buck ! b) es"
          "\<forall>e \<in> set es. 0 \<le> e \<and> nat e < n \<and> e \<in> D"
        using old [OF b] by blast
      have "w \<notin> set es" using es(2) w(3) by auto
      then have "bucket_chain ?x (db_head buck ! b) es"
        using bucket_chain_update [OF es(1) _ w(1)] es(2) by blast
      then have "bucket_chain ?x (?h ! b) (w # es)"
        using True b len w by simp
      then show ?thesis using es(2) w by (intro exI [of _ "w # es"]) simp
    next
      case False
      obtain es where es: "bucket_chain (db_next buck) (db_head buck ! b) es"
          "\<forall>e \<in> set es. 0 \<le> e \<and> nat e < n \<and> e \<in> D"
        using old [OF b] by blast
      have "w \<notin> set es" using es(2) w(3) by auto
      then have "bucket_chain ?x (db_head buck ! b) es"
        using bucket_chain_update [OF es(1) _ w(1)] es(2) by blast
      then show ?thesis using False es(2) by (intro exI [of _ es]) simp
    qed
  qed
  then show ?thesis
    unfolding bucket_inv_def igraph_i_dbucket_insert_def using len by simp
qed

definition main_inv :: "int list \<Rightarrow> nat \<Rightarrow> int set \<Rightarrow> dominator_state \<Rightarrow> bool" where
  "main_inv num n D s = (anc_inv num n (ds_ancestor s) \<and> bucket_inv n D (ds_bucket s))"

lemma dominator_drain_returns:
  assumes nn: "\<forall>y < n. 0 \<le> num ! y" and pw: "0 \<le> pw" "nat pw < n"
  shows "main_inv num n D s \<Longrightarrow>
         bucket_chain (db_next (ds_bucket s)) (db_head (ds_bucket s) ! nat pw) es \<Longrightarrow>
         \<forall>e \<in> set es. 0 \<le> e \<and> nat e < n \<Longrightarrow>
         \<exists>s'. dominator_drain pw s = Some s' \<and> main_inv num n D s'"
proof (induction es arbitrary: s)
  case Nil
  then show ?case
    by (subst dominator_drain.simps) (simp add: igraph_i_dbucket_empty_def)
next
  case (Cons e es)
  let ?b = "ds_bucket s"
  have e: "0 \<le> e" "nat e < n" using Cons.prems(3) by auto
  have h: "db_head ?b ! nat pw = e + 1" "bucket_chain (db_next ?b) (db_next ?b ! nat e) es"
    using Cons.prems(2) by simp_all
  have ne: "\<not> igraph_i_dbucket_empty ?b pw"
    using h(1) e by (simp add: igraph_i_dbucket_empty_def)
  have inv: "anc_inv num n (ds_ancestor s)" "bucket_inv n D ?b"
    using Cons.prems(1) unfolding main_inv_def by simp_all
  have len: "length (db_head ?b) = n" "length (db_next ?b) = n"
    using inv(2) unfolding bucket_inv_def by simp_all
  obtain u a l where ev:
      "igraph_i_dominator_EVAL e (ds_ancestor s) (ds_label s) (ds_semi s) = Some (u, a, l)"
      "anc_inv num n a"
    using igraph_i_dominator_EVAL_returns [OF inv(1) nn e] by blast
  define b1 where "b1 = ?b \<lparr> db_head := (db_head ?b)[nat pw := db_next ?b ! nat e] \<rparr>"
  define s1 where "s1 = s \<lparr> ds_bucket := b1, ds_ancestor := a, ds_label := l,
                            ds_dom := (ds_dom s)[nat e := (if ds_semi s ! nat u < ds_semi s ! nat e
                                                        then u else pw)] \<rparr>"
  have step: "dominator_drain_step pw s = Some s1"
    using ev(1) h(1)
    by (simp add: dominator_drain_step_def igraph_i_dbucket_delete_def Let_def s1_def b1_def)
  have b1: "bucket_inv n D b1"
    unfolding bucket_inv_def
  proof (intro conjI allI impI)
    show "length (db_head b1) = n" "length (db_next b1) = n" using len by (simp_all add: b1_def)
  next
    fix b assume b: "b < n"
    show "\<exists>es. bucket_chain (db_next b1) (db_head b1 ! b) es \<and>
               (\<forall>e \<in> set es. 0 \<le> e \<and> nat e < n \<and> e \<in> D)"
    proof (cases "b = nat pw")
      case True
      obtain fs where fs: "bucket_chain (db_next ?b) (db_head ?b ! b) fs"
          "\<forall>e \<in> set fs. 0 \<le> e \<and> nat e < n \<and> e \<in> D"
        using inv(2) b unfolding bucket_inv_def by blast
      obtain fs' where fs': "fs = e # fs'" using fs(1) h(1) True e by (cases fs) auto
      have "bucket_chain (db_next ?b) (db_next ?b ! nat e) fs'" using fs(1) fs' by simp
      then show ?thesis
        using True b len fs(2) fs' by (intro exI [of _ fs']) (simp add: b1_def)
    next
      case False
      then show ?thesis
        using inv(2) b unfolding bucket_inv_def by (simp add: b1_def)
    qed
  qed
  have m1: "main_inv num n D s1" using ev(2) b1 by (simp add: main_inv_def s1_def)
  have c1: "bucket_chain (db_next (ds_bucket s1)) (db_head (ds_bucket s1) ! nat pw) es"
    using h(2) len pw by (simp add: s1_def b1_def)
  have r: "\<forall>e \<in> set es. 0 \<le> e \<and> nat e < n" using Cons.prems(3) by simp
  obtain s' where s': "dominator_drain pw s1 = Some s'" "main_inv num n D s'"
    using Cons.IH [OF m1 c1 r] by blast
  show ?case
    using ne step s' by (subst dominator_drain.simps) simp
qed

lemma dominator_main_step_returns:
  assumes nn: "\<forall>y < n. 0 \<le> num ! y"
      and inv: "main_inv num n D s"
      and w: "0 \<le> vertex ! nat i - 1" "nat (vertex ! nat i - 1) < n" "vertex ! nat i - 1 \<notin> D"
      and pw: "0 \<le> parent ! nat (vertex ! nat i - 1)"
              "nat (parent ! nat (vertex ! nat i - 1)) < n"
              "num ! nat (parent ! nat (vertex ! nat i - 1)) < num ! nat (vertex ! nat i - 1)"
      and pred: "\<forall>v \<in> set (pred ! nat (vertex ! nat i - 1)). 0 \<le> v \<and> nat v < n"
  shows "\<exists>s'. dominator_main_step vertex parent pred i s = Some s' \<and>
              main_inv num n (insert (vertex ! nat i - 1) D) s'"
proof -
  define w where "w = vertex ! nat i - 1"
  note wf = w [folded w_def] and pwf = pw [folded w_def]
  have a: "anc_inv num n (ds_ancestor s)" and b: "bucket_inv n D (ds_bucket s)"
    using inv unfolding main_inv_def by simp_all
  obtain s1 where s1: "dominator_pred_loop w (pred ! nat w) s = Some s1"
      "anc_inv num n (ds_ancestor s1)" "ds_bucket s1 = ds_bucket s"
    using dominator_pred_loop_returns [OF nn a pred [folded w_def]] by blast
  define s2 where "s2 = s1 \<lparr> ds_bucket := igraph_i_dbucket_insert (ds_bucket s1)
                          (vertex ! nat (ds_semi s1 ! nat w - 1) - 1) w \<rparr>"
  define s3 where "s3 = s2 \<lparr> ds_ancestor :=
                        igraph_i_dominator_LINK (parent ! nat w) w (ds_ancestor s2) \<rparr>"
  have b3: "bucket_inv n (insert w D) (ds_bucket s3)"
    using bucket_inv_insert [OF b wf] s1(3) by (simp add: s3_def s2_def)
  have len: "length (ds_ancestor s1) = n" using s1(2) unfolding anc_inv_def by simp
  have a3: "anc_inv num n (ds_ancestor s3)"
    unfolding anc_inv_def
  proof (intro conjI allI impI)
    show "length (ds_ancestor s3) = n"
      using len by (simp add: s3_def s2_def igraph_i_dominator_LINK_def)
  next
    fix x assume x: "x < n" "ds_ancestor s3 ! x \<noteq> 0"
    show "0 \<le> ds_ancestor s3 ! x - 1" "nat (ds_ancestor s3 ! x - 1) < n"
         "num ! nat (ds_ancestor s3 ! x - 1) < num ! x"
      using x s1(2) len wf pwf unfolding anc_inv_def
      by (auto simp: s3_def s2_def igraph_i_dominator_LINK_def nth_list_update split: if_splits)
  qed
  have m3: "main_inv num n (insert w D) s3" using a3 b3 by (simp add: main_inv_def)
  obtain es where es: "bucket_chain (db_next (ds_bucket s3))
                         (db_head (ds_bucket s3) ! nat (parent ! nat w)) es"
      "\<forall>e \<in> set es. 0 \<le> e \<and> nat e < n"
    using b3 pwf(2) unfolding bucket_inv_def by blast
  obtain s' where s': "dominator_drain (parent ! nat w) s3 = Some s'"
      "main_inv num n (insert w D) s'"
    using dominator_drain_returns [OF nn pwf(1,2) m3 es] by blast
  have "dominator_main_step vertex parent pred i s = Some s'"
    using s1(1) s'(1)
    by (simp add: dominator_main_step_def Let_def w_def [symmetric] s3_def s2_def)
  then show ?thesis using s'(2) by (simp add: w_def)
qed

lemma dominator_prune_subset:
  "n = int (length v) \<Longrightarrow> 0 \<le> j \<Longrightarrow> set (dominator_prune parent v j n) \<subseteq> set v"
proof (induction parent v j n rule: dominator_prune.induct)
  case (1 parent v j n)
  show ?case
  proof (cases "j < n")
    case False
    then show ?thesis by (subst dominator_prune.simps) simp
  next
    case True
    let ?v' = "butlast (v[nat j := v ! nat (n - 1)])"
    show ?thesis
    proof (cases "parent ! nat (v ! nat j) \<ge> - 1")
      case keep: True
      have "set (dominator_prune parent v (j + 1) n) \<subseteq> set v"
        using "1.IH"(1) [OF True refl keep] "1.prems" by simp
      then show ?thesis using True keep by (subst dominator_prune.simps) (simp add: Let_def)
    next
      case drop: False
      have len: "n - 1 = int (length ?v')" using "1.prems" True by simp
      have "v ! nat (n - 1) \<in> set v" using "1.prems" True by simp
      then have sub: "set ?v' \<subseteq> set v"
        using set_update_subset_insert [of v "nat j" "v ! nat (n - 1)"]
        by (auto dest: in_set_butlastD)
      have "set (dominator_prune parent ?v' j (n - 1)) \<subseteq> set ?v'"
        using "1.IH"(2) [OF True refl drop len] "1.prems" by simp
      then show ?thesis
        using True drop sub by (subst dominator_prune.simps) (auto simp: Let_def)
    qed
  qed
qed

lemma upto_snoc_int: "[1 .. int (Suc k)] = [1 .. int k] @ [int k + 1]"
  using upto_rec2 [of 1 "int k + 1"] by (simp add: add.commute)

lemma dominator_main_loop_returns:
  assumes nn: "\<forall>y < n. 0 \<le> num ! y"
      and w: "\<And>i. 1 \<le> i \<Longrightarrow> i \<le> m \<Longrightarrow>
                0 \<le> vertex ! nat i - 1 \<and> nat (vertex ! nat i - 1) < n \<and>
                0 \<le> parent ! nat (vertex ! nat i - 1) \<and>
                nat (parent ! nat (vertex ! nat i - 1)) < n \<and>
                num ! nat (parent ! nat (vertex ! nat i - 1)) < num ! nat (vertex ! nat i - 1) \<and>
                (\<forall>v \<in> set (pred ! nat (vertex ! nat i - 1)). 0 \<le> v \<and> nat v < n)"
      and d: "\<And>i j. 1 \<le> i \<Longrightarrow> i < j \<Longrightarrow> j \<le> m \<Longrightarrow> vertex ! nat i - 1 \<noteq> vertex ! nat j - 1"
  shows "int k \<le> m \<Longrightarrow> main_inv num n ((\<lambda>j. vertex ! nat j - 1) ` {int k + 1 .. m}) s \<Longrightarrow>
         \<exists>s'. fold_option (dominator_main_step vertex parent pred) (rev [1 .. int k]) s = Some s'"
proof (induction k arbitrary: s)
  case 0
  then show ?case by simp
next
  case (Suc k)
  let ?i = "int k + 1"
  let ?D = "(\<lambda>j. vertex ! nat j - 1) ` {int (Suc k) + 1 .. m}"
  have i: "1 \<le> ?i" "?i \<le> m" using Suc.prems(1) by simp_all
  note wi = w [OF i]
  have notin: "vertex ! nat ?i - 1 \<notin> ?D"
  proof
    assume "vertex ! nat ?i - 1 \<in> ?D"
    then obtain j where j: "int (Suc k) + 1 \<le> j" "j \<le> m" "vertex ! nat ?i - 1 = vertex ! nat j - 1"
      by auto
    then show False using d [of ?i j] by simp
  qed
  obtain s1 where s1: "dominator_main_step vertex parent pred ?i s = Some s1"
      "main_inv num n (insert (vertex ! nat ?i - 1) ?D) s1"
    using dominator_main_step_returns [OF nn Suc.prems(2), of vertex ?i parent pred] wi notin
    by blast
  have "insert (vertex ! nat ?i - 1) ?D = (\<lambda>j. vertex ! nat j - 1) ` {int k + 1 .. m}"
  proof -
    have "{int k + 1 .. m} = insert ?i {int (Suc k) + 1 .. m}" using i by auto
    then show ?thesis by simp
  qed
  then have inv1: "main_inv num n ((\<lambda>j. vertex ! nat j - 1) ` {int k + 1 .. m}) s1"
    using s1(2) by simp
  have "int k \<le> m" using Suc.prems(1) by simp
  from Suc.IH [OF this inv1] obtain s' where
    "fold_option (dominator_main_step vertex parent pred) (rev [1 .. int k]) s1 = Some s'"
    by blast
  moreover have "rev [1 .. int (Suc k)] = ?i # rev [1 .. int k]"
    unfolding upto_snoc_int by simp
  ultimately show ?case using s1(1) by (simp only: fold_option.simps option.case) blast
qed

lemma igraph_dominator_tree_None:
  assumes "igraph_dominator_tree graph rootv outs wd mode = None"
  shows "\<exists>opf. igraph_dfs graph rootv mode = Inr opf \<and>
     fold_option
       (dominator_main_step
          (fst (snd (fold dominator_number_step [0 .. igraph_vcount graph - 1]
                       (replicate (nat (igraph_vcount graph)) 0, fst opf, 0))))
          (fst (snd opf))
          (map (\<lambda>v. dominator_prune (fst (snd opf)) v 0 (int (length v)))
             (igraph_adjlist_init graph (IGRAPH_REVERSE_MODE mode))))
       (rev [1 .. snd (snd (fold dominator_number_step [0 .. igraph_vcount graph - 1]
                       (replicate (nat (igraph_vcount graph)) 0, fst opf, 0))) - 1])
       \<lparr> ds_semi = fst (fold dominator_number_step [0 .. igraph_vcount graph - 1]
                       (replicate (nat (igraph_vcount graph)) 0, fst opf, 0)),
         ds_ancestor = replicate (nat (igraph_vcount graph)) 0,
         ds_label = [0 .. igraph_vcount graph - 1],
         ds_bucket = igraph_i_dbucket_init (igraph_vcount graph),
         ds_dom = replicate (nat (igraph_vcount graph)) (- 2) \<rparr> = None"
  using assms unfolding igraph_dominator_tree_def Let_def
  by (auto split: if_splits sum.splits option.splits)

lemma igraph_dominator_tree_returns:
  assumes wf: "igraph_wf graph"
  shows "\<exists>r. igraph_dominator_tree graph rootv outs wd mode = Some r"
proof (rule ccontr)
  assume "\<not> (\<exists>r. igraph_dominator_tree graph rootv outs wd mode = Some r)"
  then have none: "igraph_dominator_tree graph rootv outs wd mode = None"
    by (cases "igraph_dominator_tree graph rootv outs wd mode") blast+
  define n where "n = nat (g_n graph)"
  have gn: "g_n graph = int n" "igraph_vcount graph = int n"
    using wf by (simp_all add: n_def igraph_wf_def igraph_vcount_def)
  obtain opf where dfs: "igraph_dfs graph rootv mode = Inr opf"
    and loop: "fold_option
       (dominator_main_step
          (fst (snd (fold dominator_number_step [0 .. int n - 1] (replicate n 0, fst opf, 0))))
          (fst (snd opf))
          (map (\<lambda>v. dominator_prune (fst (snd opf)) v 0 (int (length v)))
             (igraph_adjlist_init graph (IGRAPH_REVERSE_MODE mode))))
       (rev [1 .. snd (snd (fold dominator_number_step [0 .. int n - 1]
                       (replicate n 0, fst opf, 0))) - 1])
       \<lparr> ds_semi = fst (fold dominator_number_step [0 .. int n - 1] (replicate n 0, fst opf, 0)),
         ds_ancestor = replicate n 0,
         ds_label = [0 .. int n - 1],
         ds_bucket = igraph_i_dbucket_init (int n),
         ds_dom = replicate n (- 2) \<rparr> = None"
    using igraph_dominator_tree_None [OF none] unfolding gn by auto
  obtain order parent events where opf: "opf = (order, parent, events)" by (cases opf) auto
  define V where "V = dfs_in_order events"
  have ok: "dfs_result_ok graph rootv V order parent"
    using igraph_dfs_result [OF wf dfs [unfolded opf]] by (simp add: V_def)
  have order: "order = V @ replicate (n - length V) (- 1)"
    and dist: "distinct V" and rng: "set V \<subseteq> {0 .. int n - 1}"
    and ne: "V \<noteq> []"
    and par: "\<forall>j < length V. 0 < j \<longrightarrow> (\<exists>i < j. parent ! nat (V ! j) = V ! i)"
    using ok unfolding dfs_result_ok_def gn n_def [symmetric] by auto
  have lenV: "length V \<le> n" using length_le_of_distinct_range [OF dist rng] by simp
  define svc where "svc = fold dominator_number_step [0 .. int n - 1] (replicate n 0, order, 0)"
  define num where "num = fst svc"
  define vertex where "vertex = fst (snd svc)"
  define pred where "pred = map (\<lambda>v. dominator_prune parent v 0 (int (length v)))
             (igraph_adjlist_init graph (IGRAPH_REVERSE_MODE mode))"
  have ninv: "number_inv V order n n svc"
    unfolding svc_def by (rule number_inv_fold [OF dist rng order order_refl])
  have cs: "snd (snd svc) = int (length V)"
    and nn: "\<forall>y < n. 0 \<le> num ! y"
    and numv: "\<forall>j < length V. num ! nat (V ! j) = int j + 1 \<and> vertex ! j = V ! j + 1"
    using ninv lenV unfolding number_inv_def Let_def num_def vertex_def
    by (simp_all add: min_absorb2)
  define s0 where "s0 = \<lparr> ds_semi = num, ds_ancestor = replicate n 0, ds_label = [0 .. int n - 1],
         ds_bucket = igraph_i_dbucket_init (int n), ds_dom = replicate n (- 2) \<rparr>"
  define k where "k = length V - 1"
  have k: "int k = int (length V) - 1" using ne by (cases V) (simp_all add: k_def)
  have loop': "fold_option (dominator_main_step vertex parent pred) (rev [1 .. int k]) s0 = None"
    using loop unfolding opf fst_conv snd_conv svc_def [symmetric] cs k
      vertex_def [symmetric] num_def [symmetric] pred_def [symmetric] s0_def [symmetric] .
  have Vr: "0 \<le> V ! j \<and> nat (V ! j) < n" if "j < length V" for j
  proof -
    have "V ! j \<in> set V" using that by simp
    then have "0 \<le> V ! j" "V ! j \<le> int n - 1" using rng by auto
    then show ?thesis by linarith
  qed
  have predr: "\<forall>v \<in> set (pred ! x). 0 \<le> v \<and> nat v < n" if x: "x < n" for x
  proof
    fix v assume v: "v \<in> set (pred ! x)"
    have len: "length (igraph_adjlist_init graph (IGRAPH_REVERSE_MODE mode)) = n"
      by (simp add: igraph_adjlist_init_def gn)
    obtain l where l: "pred ! x = dominator_prune parent l 0 (int (length l))"
        "l = igraph_neighbors graph ([0 .. int n - 1] ! x) (IGRAPH_REVERSE_MODE mode)"
      using x len by (simp add: pred_def igraph_adjlist_init_def gn)
    have "v \<in> set l" using v dominator_prune_subset [of "int (length l)" l 0 parent] l(1) by auto
    then show "0 \<le> v \<and> nat v < n"
      using igraph_wf_neighbors [OF wf] l(2) gn by fastforce
  qed
  have w: "0 \<le> vertex ! nat i - 1 \<and> nat (vertex ! nat i - 1) < n \<and>
           0 \<le> parent ! nat (vertex ! nat i - 1) \<and>
           nat (parent ! nat (vertex ! nat i - 1)) < n \<and>
           num ! nat (parent ! nat (vertex ! nat i - 1)) < num ! nat (vertex ! nat i - 1) \<and>
           (\<forall>v \<in> set (pred ! nat (vertex ! nat i - 1)). 0 \<le> v \<and> nat v < n)"
    if i: "1 \<le> i" "i \<le> int k" for i
  proof -
    have il: "nat i < length V" "0 < nat i" using i k by auto
    have vi: "vertex ! nat i - 1 = V ! nat i" using numv il by simp
    obtain i' where i': "i' < nat i" "parent ! nat (V ! nat i) = V ! i'"
      using par il by blast
    have "num ! nat (V ! i') = int i' + 1" "num ! nat (V ! nat i) = int (nat i) + 1"
      using numv il i'(1) by simp_all
    then have "num ! nat (V ! i') < num ! nat (V ! nat i)" using i'(1) i(1) by simp
    moreover have "0 \<le> V ! nat i \<and> nat (V ! nat i) < n" "0 \<le> V ! i' \<and> nat (V ! i') < n"
      using Vr [of "nat i"] Vr [of i'] il i'(1) by simp_all
    moreover from this have "\<forall>v \<in> set (pred ! nat (V ! nat i)). 0 \<le> v \<and> nat v < n"
      using predr [of "nat (V ! nat i)"] by blast
    ultimately show ?thesis
      unfolding vi i'(2) by blast
  qed
  have d: "vertex ! nat i - 1 \<noteq> vertex ! nat j - 1" if "1 \<le> i" "i < j" "j \<le> int k" for i j
  proof -
    have il: "nat i < length V" "nat j < length V" "nat i \<noteq> nat j" using that k by auto
    then have "V ! nat i \<noteq> V ! nat j" using dist by (simp add: nth_eq_iff_index_eq)
    then show ?thesis using numv il by simp
  qed
  have a0: "anc_inv num n (ds_ancestor s0)" by (simp add: anc_inv_def s0_def)
  have "bucket_chain (replicate n 0) 0 []" by simp
  then have b0: "bucket_inv n {} (ds_bucket s0)"
    unfolding bucket_inv_def s0_def igraph_i_dbucket_init_def
    by (intro conjI allI impI) (simp, simp, rule exI [of _ "[]"], simp)
  have "(\<lambda>j. vertex ! nat j - 1) ` {int k + 1 .. int k} = {}" by simp
  then have m0: "main_inv num n ((\<lambda>j. vertex ! nat j - 1) ` {int k + 1 .. int k}) s0"
    using a0 b0 by (simp add: main_inv_def)
  obtain s' where
    "fold_option (dominator_main_step vertex parent pred) (rev [1 .. int k]) s0 = Some s'"
    using dominator_main_loop_returns [OF nn w d order_refl m0] by blast
  then show False using loop' by simp
qed

section \<open>Proofs: the search reaches a leaf\<close>

lemma then_call_cong_Some:
  assumes "r = Some x" "\<And>a. x = Inr a \<Longrightarrow> f a = g a"
  shows "then_call r f = then_call r g"
  using assms by (cases x) (simp_all add: then_call_simps)

lemma provan_shier_list_depth_sound:
  "provan_shier_list_depth k graph st source target pivot = Some y \<Longrightarrow>
   igraph_provan_shier_list graph st source target pivot = Some y"
proof (induction k arbitrary: st y)
  case 0
  then show ?case by simp
next
  case (Suc k)
  from Suc.prems obtain vi where
    piv: "provan_shier_call_pivot pivot graph (fst st) (fst (snd st)) source target = Some vi"
    by (auto simp: bind_eq_Some_conv)
  show ?case
  proof (cases "snd vi = []")
    case True
    then show ?thesis using Suc.prems piv
      by (subst igraph_provan_shier_list.simps) simp
  next
    case False
    with Suc.prems piv have b: "then_call (provan_shier_left_enter (fst vi) st) (\<lambda>st1.
            then_call (provan_shier_list_depth k graph st1 source target pivot) (\<lambda>st2.
            then_call (provan_shier_right_enter (snd vi) st2) (\<lambda>st3.
            then_call (provan_shier_list_depth k graph st3 source target pivot) (\<lambda>st4.
            provan_shier_right_leave st4)))) = Some y" by simp
    have goal: "then_call (provan_shier_left_enter (fst vi) st) (\<lambda>st1.
            then_call (igraph_provan_shier_list graph st1 source target pivot) (\<lambda>st2.
            then_call (provan_shier_right_enter (snd vi) st2) (\<lambda>st3.
            then_call (igraph_provan_shier_list graph st3 source target pivot) (\<lambda>st4.
            provan_shier_right_leave st4)))) = Some y"
    proof (cases rule: then_call_Some [OF b])
      case (1 e)
      then show ?thesis by (simp add: then_call_simps)
    next
      case (2 st1)
      note l = 2
      show ?thesis
      proof (cases rule: then_call_Some [OF l(2)])
        case (1 e)
        then show ?thesis using l(1) Suc.IH [of st1 "Inl e"] by (simp add: then_call_simps)
      next
        case (2 st2)
        note r1 = 2
        show ?thesis
        proof (cases rule: then_call_Some [OF r1(2)])
          case (1 e)
          then show ?thesis using l(1) r1(1) Suc.IH [of st1 "Inr st2"]
            by (simp add: then_call_simps)
        next
          case (2 st3)
          note e = 2
          show ?thesis
          proof (cases rule: then_call_Some [OF e(2)])
            case (1 err)
            then show ?thesis
              using l(1) r1(1) e(1) Suc.IH [of st1 "Inr st2"] Suc.IH [of st3 "Inl err"]
              by (simp add: then_call_simps)
          next
            case (2 st4)
            then show ?thesis
              using l(1) r1(1) e(1) Suc.IH [of st1 "Inr st2"] Suc.IH [of st3 "Inr st4"]
              by (simp add: then_call_simps)
          qed
        qed
      qed
    qed
    show ?thesis
      using piv False goal by (subst igraph_provan_shier_list.simps) simp
  qed
qed













lemma keep_facts:
  "distinct (filter P [0 .. int n - 1])" "set (filter P [0 .. int n - 1]) \<subseteq> {0 .. int n - 1}"
  by auto











section \<open>Proofs: the cuts of the listed partitions\<close>

text \<open>The edges that leave a vertex set, in increasing order of their ids.\<close>

definition edges_leaving :: "igraph_t \<Rightarrow> int list \<Rightarrow> int list" where
  "edges_leaving graph part =
     filter (\<lambda>j. IGRAPH_FROM graph j \<in> set part \<and> IGRAPH_TO graph j \<notin> set part)
       [0 .. igraph_ecount graph - 1]"

lemma mark_fold:
  "x < length m \<Longrightarrow>
   fold (\<lambda>v inS. inS[nat v := c]) part m ! x = (if x \<in> nat ` set part then c else m ! x)"
proof (induction part arbitrary: m)
  case Nil
  then show ?case by simp
next
  case (Cons v part)
  have "x < length (m[nat v := c])" using Cons.prems by simp
  from Cons.IH [OF this] show ?case using Cons.prems by (auto simp: nth_list_update)
qed

lemma mark_fold_length: "length (fold (\<lambda>v inS. inS[nat v := c]) part m) = length m"
  by (induction part arbitrary: m) simp_all

lemma fill_filter:
  "fold (\<lambda>j cp. if c j then store_next j cp else cp) js
     (igraph_vector_resize [] (int (length (filter c js))), 0)
   = (filter c js, int (length (filter c js)))"
proof -
  have f: "(\<lambda>j cp. if c j then store_next j cp else cp)
             = (\<lambda>j. stores (if c j then [j] else []))"
    by (rule ext, rule ext) (simp add: stores_Nil stores_Cons)
  have c: "concat (map (\<lambda>j. if c j then [j] else []) js) = filter c js"
    by (induction js) simp_all
  show ?thesis
    unfolding f fold_stores_concat c igraph_vector_resize_def
    using stores_eq [of 0 "filter c js" "replicate (length (filter c js)) 0"]
    by simp
qed

lemma all_st_cuts_cut_step_eq:
  assumes wf: "igraph_wf graph"
      and part: "set (parts ! nat i) \<subseteq> {0 .. g_n graph - 1}"
      and inS: "length inS = nat (g_n graph)" "\<forall>x < nat (g_n graph). inS ! x \<le> i"
  shows "all_st_cuts_cut_step graph parts i (inS, cuts)
           = (fold (\<lambda>v inS. inS[nat v := i + 1]) (parts ! nat i) inS,
              cuts @ [edges_leaving graph (parts ! nat i)])"
proof -
  let ?P = "parts ! nat i"
  let ?m = "fold (\<lambda>v inS. inS[nat v := i + 1]) ?P inS"
  let ?c = "\<lambda>j. ?m ! nat (IGRAPH_FROM graph j) = i + 1 \<and> ?m ! nat (IGRAPH_TO graph j) \<noteq> i + 1"
  have mem: "(?m ! nat y = i + 1) = (y \<in> set ?P)" if y: "0 \<le> y" "y < g_n graph" for y
  proof -
    have lt: "nat y < length inS" using y inS(1) by simp
    have "inS ! nat y \<le> i" using inS lt by simp
    then have "inS ! nat y \<noteq> i + 1" by simp
    moreover have "(nat y \<in> nat ` set ?P) = (y \<in> set ?P)"
    proof
      assume "nat y \<in> nat ` set ?P"
      then obtain v where v: "v \<in> set ?P" "nat v = nat y" by auto
      then have "0 \<le> v" using part by auto
      then have "v = y" using v(2) y(1) by linarith
      then show "y \<in> set ?P" using v(1) by simp
    qed simp
    ultimately show ?thesis using mark_fold [OF lt, of "i + 1" ?P] by simp
  qed
  have ends: "0 \<le> IGRAPH_FROM graph j \<and> IGRAPH_FROM graph j < g_n graph \<and>
              0 \<le> IGRAPH_TO graph j \<and> IGRAPH_TO graph j < g_n graph"
    if "j \<in> set [0 .. igraph_ecount graph - 1]" for j
  proof -
    have "nat j < length (g_edges graph)" using that by (auto simp: igraph_ecount_def)
    then have "g_edges graph ! nat j \<in> set (g_edges graph)" by simp
    then show ?thesis
      using wf by (auto simp: igraph_wf_def list_all_iff IGRAPH_FROM_def IGRAPH_TO_def)
  qed
  have flt: "filter ?c [0 .. igraph_ecount graph - 1] = edges_leaving graph ?P"
    unfolding edges_leaving_def
  proof (rule filter_cong [OF refl])
    fix j assume "j \<in> set [0 .. igraph_ecount graph - 1]"
    from ends [OF this] show "?c j = (IGRAPH_FROM graph j \<in> set ?P \<and> IGRAPH_TO graph j \<notin> set ?P)"
      using mem by simp
  qed
  have "all_st_cuts_cut_step graph parts i (inS, cuts)
          = (?m, cuts @ [fst (fold (\<lambda>j cp. if ?c j then store_next j cp else cp)
                 [0 .. igraph_ecount graph - 1]
                 (igraph_vector_resize [] (int (length (filter ?c [0 .. igraph_ecount graph - 1]))),
                  0))])"
    unfolding all_st_cuts_cut_step_def Let_def fst_conv snd_conv ..
  also have "\<dots> = (?m, cuts @ [filter ?c [0 .. igraph_ecount graph - 1]])"
    unfolding fill_filter fst_conv ..
  finally show ?thesis unfolding flt .
qed

lemma all_st_cuts_cut_fold:
  assumes wf: "igraph_wf graph"
      and parts: "\<forall>P \<in> set parts. set P \<subseteq> {0 .. g_n graph - 1}"
  shows "k \<le> length parts \<Longrightarrow>
         \<exists>inS. fold (all_st_cuts_cut_step graph parts) [0 .. int k - 1]
                 (replicate (nat (g_n graph)) 0, [])
               = (inS, map (edges_leaving graph) (take k parts)) \<and>
               length inS = nat (g_n graph) \<and> (\<forall>x < nat (g_n graph). inS ! x \<le> int k)"
proof (induction k)
  case 0
  then show ?case by simp
next
  case (Suc k)
  then obtain inS where inS:
      "fold (all_st_cuts_cut_step graph parts) [0 .. int k - 1] (replicate (nat (g_n graph)) 0, [])
         = (inS, map (edges_leaving graph) (take k parts))"
      "length inS = nat (g_n graph)" "\<forall>x < nat (g_n graph). inS ! x \<le> int k"
    by auto
  have up: "[0 .. int (Suc k) - 1] = [0 .. int k - 1] @ [int k]"
    using upto_map_int [of "Suc k"] upto_map_int [of k] by simp
  have pk: "set (parts ! nat (int k)) \<subseteq> {0 .. g_n graph - 1}"
    using parts Suc.prems by simp
  let ?m = "fold (\<lambda>v inS. inS[nat v := int k + 1]) (parts ! k) inS"
  have step: "all_st_cuts_cut_step graph parts (int k) (inS, map (edges_leaving graph) (take k parts))
        = (?m, map (edges_leaving graph) (take k parts) @ [edges_leaving graph (parts ! k)])"
    using all_st_cuts_cut_step_eq [OF wf pk inS(2,3)] by simp
  have tk: "take (Suc k) parts = take k parts @ [parts ! k]"
    using Suc.prems by (simp add: take_Suc_conv_app_nth)
  have bound: "\<forall>x < nat (g_n graph). ?m ! x \<le> int (Suc k)"
  proof (intro allI impI)
    fix x assume x: "x < nat (g_n graph)"
    then have "x < length inS" using inS(2) by simp
    from mark_fold [OF this, of "int k + 1" "parts ! k"] show "?m ! x \<le> int (Suc k)"
    proof (cases "x \<in> nat ` set (parts ! k)")
      case True
      then show "?m ! x = (if x \<in> nat ` set (parts ! k) then int k + 1 else inS ! x) \<Longrightarrow> ?thesis"
        by simp
    next
      case False
      have "inS ! x \<le> int k" using inS(3) x by simp
      then show "?m ! x = (if x \<in> nat ` set (parts ! k) then int k + 1 else inS ! x) \<Longrightarrow> ?thesis"
        using False by simp
    qed
  qed
  show ?case
    unfolding up fold_append comp_def inS(1) fold_simps step tk
    using bound inS(2) by (simp add: mark_fold_length)
qed

section \<open>Proofs: the listed partitions\<close>

text \<open>
  A listed partition is a list of distinct vertices with the source and without the
  target; \<open>S\<close> is such a list whenever it is not empty.
\<close>

definition good_part :: "igraph_t \<Rightarrow> int \<Rightarrow> int \<Rightarrow> int list \<Rightarrow> bool" where
  "good_part graph source target P =
     (distinct P \<and> set P \<subseteq> {0 .. igraph_vcount graph - 1} \<and> source \<in> set P \<and> target \<notin> set P)"

definition good_S :: "igraph_t \<Rightarrow> int \<Rightarrow> int \<Rightarrow> igraph_marked_queue_int_t \<Rightarrow> bool" where
  "good_S graph source target S =
     (distinct (mq_Q S) \<and> set (mq_Q S) \<subseteq> {0 .. igraph_vcount graph - 1} \<and>
      target \<notin> set (mq_Q S) \<and> (mq_Q S \<noteq> [] \<longrightarrow> source \<in> set (mq_Q S)))"

definition pivot_sound ::
  "igraph_t \<Rightarrow> int \<Rightarrow> int \<Rightarrow> igraph_provan_shier_pivot_t \<Rightarrow> bool" where
  "pivot_sound graph source target pivot =
     (\<forall>S T v Isv. pivot graph S T source target 0 = Some (Inr (v, Isv)) \<and> Isv \<noteq> [] \<longrightarrow>
        set Isv \<subseteq> {0 .. igraph_vcount graph - 1} \<and> target \<notin> set Isv \<and>
        (mq_Q S = [] \<longrightarrow> source \<in> set Isv))"

lemma provan_shier_add_Isv_distinct:
  "provan_shier_add_Isv Isv S = Inr S' \<Longrightarrow> distinct (mq_Q S) \<Longrightarrow>
   distinct (mq_Q S') \<and> set (mq_Q S') = set (mq_Q S) \<union> set Isv"
proof (induction Isv arbitrary: S)
  case Nil
  then show ?case by simp
next
  case (Cons u Isv)
  show ?case
  proof (cases "igraph_marked_queue_int_iselement S u")
    case True
    then show ?thesis
      using Cons by (auto simp: igraph_marked_queue_int_iselement_def)
  next
    case False
    then have nin: "u \<notin> set (mq_Q S)" by (simp add: igraph_marked_queue_int_iselement_def)
    then have push: "igraph_marked_queue_int_push S u = Inr (S \<lparr> mq_Q := mq_Q S @ [u] \<rparr>)"
      by (simp add: igraph_marked_queue_int_push_def)
    then have "provan_shier_add_Isv Isv (S \<lparr> mq_Q := mq_Q S @ [u] \<rparr>) = Inr S'"
      using Cons.prems False by simp
    from Cons.IH [OF this] show ?thesis using Cons.prems(2) nin by auto
  qed
qed

lemma provan_shier_list_depth_parts:
  assumes ps: "pivot_sound graph source target pivot"
  shows "provan_shier_list_depth k graph st source target pivot = Some (Inr st') \<Longrightarrow>
         good_S graph source target (fst st) \<Longrightarrow>
         \<forall>P \<in> set (snd (snd st)). good_part graph source target P \<Longrightarrow>
         \<forall>P \<in> set (snd (snd st')). good_part graph source target P"
proof (induction k arbitrary: st st')
  case 0
  then show ?case by simp
next
  case (Suc k)
  let ?S = "fst st" and ?T = "fst (snd st)"
  from Suc.prems(1) obtain vi where
    piv: "provan_shier_call_pivot pivot graph ?S ?T source target = Some vi"
    and body: "(if snd vi = []
           then if igraph_marked_queue_int_size ?S \<noteq> 0 \<and>
                   igraph_marked_queue_int_size ?S \<noteq> igraph_vcount graph
                then Some (Inr (?S, ?T, snd (snd st) @ [igraph_marked_queue_int_as_vector ?S]))
                else Some (Inr st)
           else then_call (provan_shier_left_enter (fst vi) st)
                 (\<lambda>st1. then_call (provan_shier_list_depth k graph st1 source target pivot)
                   (\<lambda>st2. then_call (provan_shier_right_enter (snd vi) st2)
                     (\<lambda>st3. then_call (provan_shier_list_depth k graph st3 source target pivot)
                        (\<lambda>st4. provan_shier_right_leave st4))))) = Some (Inr st')"
    by (auto simp: bind_eq_Some_conv)
  show ?case
  proof (cases "snd vi = []")
    case True
    have "good_part graph source target (mq_Q ?S)" if "igraph_marked_queue_int_size ?S \<noteq> 0"
      using Suc.prems(2) that
      by (auto simp: good_S_def good_part_def igraph_marked_queue_int_size_def)
    then show ?thesis
      using body True Suc.prems(3)
      by (auto simp: igraph_marked_queue_int_as_vector_def split: if_splits)
  next
    case False
    with body have b: "then_call (provan_shier_left_enter (fst vi) st)
                 (\<lambda>st1. then_call (provan_shier_list_depth k graph st1 source target pivot)
                   (\<lambda>st2. then_call (provan_shier_right_enter (snd vi) st2)
                     (\<lambda>st3. then_call (provan_shier_list_depth k graph st3 source target pivot)
                        (\<lambda>st4. provan_shier_right_leave st4)))) = Some (Inr st')" by simp
    from b obtain st1 where
      l: "provan_shier_left_enter (fst vi) st = Some (Inr st1)" and
      b1: "then_call (provan_shier_list_depth k graph st1 source target pivot)
                   (\<lambda>st2. then_call (provan_shier_right_enter (snd vi) st2)
                     (\<lambda>st3. then_call (provan_shier_list_depth k graph st3 source target pivot)
                        (\<lambda>st4. provan_shier_right_leave st4))) = Some (Inr st')"
      by (cases rule: then_call_Some) auto
    from b1 obtain st2 where
      r1: "provan_shier_list_depth k graph st1 source target pivot = Some (Inr st2)" and
      b2: "then_call (provan_shier_right_enter (snd vi) st2)
                     (\<lambda>st3. then_call (provan_shier_list_depth k graph st3 source target pivot)
                        (\<lambda>st4. provan_shier_right_leave st4)) = Some (Inr st')"
      by (cases rule: then_call_Some) auto
    from b2 obtain st3 where
      e: "provan_shier_right_enter (snd vi) st2 = Some (Inr st3)" and
      b3: "then_call (provan_shier_list_depth k graph st3 source target pivot)
             (\<lambda>st4. provan_shier_right_leave st4) = Some (Inr st')"
      by (cases rule: then_call_Some) auto
    from b3 obtain st4 where
      r2: "provan_shier_list_depth k graph st3 source target pivot = Some (Inr st4)" and
      lv: "provan_shier_right_leave st4 = Some (Inr st')"
      by (cases rule: then_call_Some) auto
    have st1: "fst st1 = ?S" "snd (snd st1) = snd (snd st)"
      using l by (auto simp: provan_shier_left_enter_def split: sum.splits)
    have p2: "\<forall>P \<in> set (snd (snd st2)). good_part graph source target P"
      using Suc.IH [OF r1] Suc.prems(2,3) st1 by simp
    have st2: "fst st2 = ?S"
      using provan_shier_frame_aux [OF provan_shier_list_depth_sound [OF r1]] st1 by simp
    from e obtain S2 where a: "provan_shier_add_Isv (snd vi)
              (igraph_marked_queue_int_start_batch ?S) = Inr S2"
      and s3: "st3 = (S2, igraph_estack_pop (fst (snd st2)), snd (snd st2))"
      using st2 by (auto simp: provan_shier_right_enter_def Let_def split: sum.splits)
    have piv': "pivot graph ?S ?T source target 0 = Some (Inr vi)"
      using piv False
      by (auto simp: provan_shier_call_pivot_def split: option.splits sum.splits)
    have isv: "set (snd vi) \<subseteq> {0 .. igraph_vcount graph - 1}" "target \<notin> set (snd vi)"
        "mq_Q ?S = [] \<longrightarrow> source \<in> set (snd vi)"
      using ps piv' False unfolding pivot_sound_def by (cases vi, auto)+
    have S2: "distinct (mq_Q S2)" "set (mq_Q S2) = set (mq_Q ?S) \<union> set (snd vi)"
      using provan_shier_add_Isv_distinct [OF a] Suc.prems(2)
      by (simp_all add: good_S_def igraph_marked_queue_int_start_batch_def)
    have g3: "good_S graph source target (fst st3)"
      using S2 isv Suc.prems(2) s3 unfolding good_S_def by (cases "mq_Q ?S = []") auto
    have "\<forall>P \<in> set (snd (snd st4)). good_part graph source target P"
      using Suc.IH [OF r2 g3] p2 s3 by simp
    moreover have "snd (snd st') = snd (snd st4)"
      using lv by (auto simp: provan_shier_right_leave_def)
    ultimately show ?thesis by simp
  qed
qed






text \<open>The vertices that the search did not reach.\<close>

lemma dominator_leftout_fold:
  "0 \<le> snd lp \<Longrightarrow> snd lp + int (length (filter (\<lambda>j. parent ! nat j < - 1) js)) \<le> n \<Longrightarrow>
   fold (dominator_leftout_step parent n) js lp
     = stores (filter (\<lambda>j. parent ! nat j < - 1) js) lp"
proof (induction js arbitrary: lp)
  case Nil
  then show ?case by (simp add: stores_Nil)
next
  case (Cons j js)
  show ?case
  proof (cases "parent ! nat j < - 1")
    case True
    then have lt: "snd lp < n" using Cons.prems by simp
    have "fold (dominator_leftout_step parent n) js (store_next j lp)
            = stores (filter (\<lambda>j. parent ! nat j < - 1) js) (store_next j lp)"
      using Cons.prems True by (intro Cons.IH) (simp_all add: store_next_def)
    moreover have "dominator_leftout_step parent n j lp = store_next j lp"
      using True lt by (simp add: dominator_leftout_step_def)
    ultimately show ?thesis using True by (simp add: stores_Cons)
  next
    case False
    then have "dominator_leftout_step parent n j lp = lp"
      by (simp add: dominator_leftout_step_def)
    then show ?thesis using Cons False by simp
  qed
qed




lemma length_filter_outside:
  assumes "distinct V" "set V \<subseteq> {0 .. int n - 1}"
  shows "length (filter (\<lambda>j. j \<notin> set V) [0 .. int n - 1]) = n - length V"
proof -
  have "length (filter (\<lambda>j. j \<in> set V) [0 .. int n - 1]) = card ({j. j \<in> set V} \<inter> set [0 .. int n - 1])"
    by (rule distinct_length_filter) simp
  also have "{j. j \<in> set V} \<inter> set [0 .. int n - 1] = set V" using assms(2) by auto
  also have "card (set V) = length V" using assms(1) by (rule distinct_card)
  finally have "length (filter (\<lambda>j. j \<in> set V) [0 .. int n - 1]) = length V" .
  moreover have "length (filter (\<lambda>j. j \<in> set V) [0 .. int n - 1]) +
                 length (filter (\<lambda>j. \<not> j \<in> set V) [0 .. int n - 1]) = length [0 .. int n - 1]"
    by (rule sum_length_filter_compl)
  ultimately show ?thesis by simp
qed






section \<open>Proofs: the depth-first search tree\<close>

text \<open>The position of an element in a list (the length for an element that is absent).\<close>

fun index_of :: "'a list \<Rightarrow> 'a \<Rightarrow> nat" where
  "index_of [] x = 0"
| "index_of (y # ys) x = (if x = y then 0 else Suc (index_of ys x))"

lemma index_of_less: "x \<in> set xs \<Longrightarrow> index_of xs x < length xs"
  by (induction xs) auto

lemma index_of_nth: "x \<in> set xs \<Longrightarrow> xs ! index_of xs x = x"
  by (induction xs) auto

lemma index_of_eq: "distinct xs \<Longrightarrow> i < length xs \<Longrightarrow> index_of xs (xs ! i) = i"
proof (induction xs arbitrary: i)
  case Nil
  then show ?case by simp
next
  case (Cons y ys)
  then show ?case by (cases i) auto
qed

lemma index_of_append: "x \<in> set xs \<Longrightarrow> index_of (xs @ ys) x = index_of xs x"
  by (induction xs) auto

lemma index_of_snoc: "y \<notin> set xs \<Longrightarrow> index_of (xs @ [y]) y = length xs"
  by (induction xs) auto

lemma index_of_inj:
  "x \<in> set xs \<Longrightarrow> y \<in> set xs \<Longrightarrow> index_of xs x = index_of xs y \<Longrightarrow> x = y"
  by (metis index_of_nth)

text \<open>
  The tree of a search: \<open>par x\<close> is the father of a reached vertex \<open>x\<close> other than the
  root, and \<open>anc\<close> is the relation between a vertex and its descendants.
\<close>

definition tstep :: "'a \<Rightarrow> 'a list \<Rightarrow> ('a \<Rightarrow> 'a) \<Rightarrow> 'a \<Rightarrow> 'a \<Rightarrow> bool" where
  "tstep r V par a x = (x \<in> set V \<and> x \<noteq> r \<and> par x = a)"

definition anc :: "'a \<Rightarrow> 'a list \<Rightarrow> ('a \<Rightarrow> 'a) \<Rightarrow> 'a \<Rightarrow> 'a \<Rightarrow> bool" where
  "anc r V par = (tstep r V par)\<^sup>*\<^sup>*"

lemma anc_refl [simp]: "anc r V par a a"
  by (simp add: anc_def)

lemma anc_trans: "anc r V par a b \<Longrightarrow> anc r V par b c \<Longrightarrow> anc r V par a c"
  by (simp add: anc_def)

lemma anc_step: "anc r V par a b \<Longrightarrow> tstep r V par b c \<Longrightarrow> anc r V par a c"
  by (simp add: anc_def)

lemma anc_last:
  "anc r V par a x \<Longrightarrow> a = x \<or> (x \<in> set V \<and> x \<noteq> r \<and> anc r V par a (par x))"
  unfolding anc_def by (induction rule: rtranclp_induct) (auto simp: tstep_def)

text \<open>Adding a leaf \<open>n\<close> below \<open>p\<close>.\<close>

lemma rtranclp_add_leaf:
  assumes leaf: "\<And>x. \<not> R n x" and np: "n \<noteq> p"
  shows "(\<lambda>a x. R a x \<or> (x = n \<and> a = p))\<^sup>*\<^sup>* a b = (R\<^sup>*\<^sup>* a b \<or> (b = n \<and> R\<^sup>*\<^sup>* a p))"
proof
  assume "(\<lambda>a x. R a x \<or> (x = n \<and> a = p))\<^sup>*\<^sup>* a b"
  then show "R\<^sup>*\<^sup>* a b \<or> (b = n \<and> R\<^sup>*\<^sup>* a p)"
  proof (induction rule: rtranclp_induct)
    case base
    then show ?case by simp
  next
    case (step b c)
    from step.hyps(2) show ?case
    proof
      assume Rbc: "R b c"
      from step.IH show ?thesis
      proof
        assume "R\<^sup>*\<^sup>* a b"
        then have "R\<^sup>*\<^sup>* a c" using Rbc by (rule rtranclp.rtrancl_into_rtrancl)
        then show ?thesis by simp
      next
        assume "b = n \<and> R\<^sup>*\<^sup>* a p"
        then show ?thesis using Rbc leaf by auto
      qed
    next
      assume c: "c = n \<and> b = p"
      from step.IH show ?thesis
      proof
        assume "R\<^sup>*\<^sup>* a b"
        then show ?thesis using c by auto
      next
        assume "b = n \<and> R\<^sup>*\<^sup>* a p"
        then show ?thesis using c np by auto
      qed
    qed
  qed
next
  assume r: "R\<^sup>*\<^sup>* a b \<or> (b = n \<and> R\<^sup>*\<^sup>* a p)"
  have mono: "R\<^sup>*\<^sup>* x y \<Longrightarrow> (\<lambda>a x. R a x \<or> (x = n \<and> a = p))\<^sup>*\<^sup>* x y" for x y
    by (rule rtranclp_mono [THEN predicate2D]) auto
  from r show "(\<lambda>a x. R a x \<or> (x = n \<and> a = p))\<^sup>*\<^sup>* a b"
  proof
    assume "R\<^sup>*\<^sup>* a b"
    then show ?thesis by (rule mono)
  next
    assume "b = n \<and> R\<^sup>*\<^sup>* a p"
    then have "(\<lambda>a x. R a x \<or> (x = n \<and> a = p))\<^sup>*\<^sup>* a p" "b = n" using mono by auto
    then show ?thesis by (auto intro: rtranclp.rtrancl_into_rtrancl)
  qed
qed

lemma anc_add_leaf:
  assumes n: "n \<notin> set V" "n \<noteq> r" and p: "p \<in> set V"
      and fresh: "\<And>x. x \<in> set V \<Longrightarrow> x \<noteq> r \<Longrightarrow> par x \<noteq> n"
      and same: "\<And>x. x \<in> set V \<Longrightarrow> par' x = par x" and new: "par' n = p"
  shows "anc r (V @ [n]) par' a b = (anc r V par a b \<or> (b = n \<and> anc r V par a p))"
proof -
  have step: "tstep r (V @ [n]) par' = (\<lambda>a x. tstep r V par a x \<or> (x = n \<and> a = p))"
    using n same new by (intro ext) (auto simp: tstep_def)
  have leaf: "\<not> tstep r V par n x" for x using fresh by (auto simp: tstep_def)
  have np: "n \<noteq> p" using n p by auto
  show ?thesis
    unfolding anc_def step
    by (rule rtranclp_add_leaf [where R = "tstep r V par" and n = n and p = p, OF leaf np])
qed

lemma anc_from_leaf:
  assumes "\<And>x. x \<in> set V \<Longrightarrow> x \<noteq> r \<Longrightarrow> par x \<noteq> n" "anc r V par n b"
  shows "b = n"
  using assms(2) unfolding anc_def
  by (induction rule: rtranclp_induct) (use assms(1) in \<open>auto simp: tstep_def\<close>)

lemma anc_to_outside:
  assumes "n \<notin> set V" "anc r V par a n"
  shows "a = n"
  using anc_last [OF assms(2)] assms(1) by auto

text \<open>
  What the stack of the search knows about the tree built so far: the stack is the path
  from the root to its top, a vertex on the stack is an ancestor of everything found after
  it, the descendants of a vertex are numbered consecutively, a vertex that has left the
  stack has all its successors reached, and an edge to a vertex found later leads to a
  descendant.
\<close>

definition dfs_tree_inv ::
  "('a \<Rightarrow> 'a \<Rightarrow> bool) \<Rightarrow> 'a \<Rightarrow> 'a list \<Rightarrow> ('a \<Rightarrow> 'a) \<Rightarrow> ('a \<times> 'a list) list \<Rightarrow> bool" where
  "dfs_tree_inv E r V par stack =
     (distinct (map fst stack) \<and>
      (\<forall>p \<in> set stack. \<forall>y \<in> set (snd p). E (fst p) y) \<and>
      successively (\<lambda>c p. c \<noteq> r \<and> par c = p) (map fst stack) \<and>
      (\<forall>top rest. stack = top # rest \<longrightarrow>
          (\<forall>a. anc r V par a (fst top) = (a \<in> fst ` set stack))) \<and>
      (\<forall>a \<in> fst ` set stack. \<forall>b \<in> set V. index_of V a \<le> index_of V b \<longrightarrow> anc r V par a b) \<and>
      (\<forall>a \<in> set V. \<forall>y \<in> set V. \<forall>z \<in> set V.
          anc r V par a z \<and> index_of V a \<le> index_of V y \<and> index_of V y \<le> index_of V z
          \<longrightarrow> anc r V par a y) \<and>
      (\<forall>x \<in> set V. x \<notin> fst ` set stack \<longrightarrow> (\<forall>y. E x y \<longrightarrow> y \<in> set V)) \<and>
      (\<forall>p \<in> set stack. \<forall>y. E (fst p) y \<longrightarrow> y \<in> set (snd p) \<or> y \<in> set V) \<and>
      (\<forall>x \<in> set V. \<forall>y \<in> set V. E x y \<and> index_of V x < index_of V y \<longrightarrow> anc r V par x y) \<and>
      (\<forall>x \<in> set V. x \<noteq> r \<longrightarrow> E (par x) x))"

text \<open>The father of a reached vertex was reached before it.\<close>

definition fathers_before :: "'a \<Rightarrow> 'a list \<Rightarrow> ('a \<Rightarrow> 'a) \<Rightarrow> bool" where
  "fathers_before r V par =
     (\<forall>x \<in> set V. x \<noteq> r \<longrightarrow> par x \<in> set V \<and> index_of V (par x) < index_of V x)"

lemma anc_index:
  assumes fb: "fathers_before r V par"
  shows "anc r V par a b \<Longrightarrow> b \<in> set V \<Longrightarrow> a \<in> set V \<and> index_of V a \<le> index_of V b"
  unfolding anc_def
proof (induction rule: rtranclp_induct)
  case base
  then show ?case by simp
next
  case (step b c)
  have "b \<in> set V" "index_of V b < index_of V c"
    using step.hyps(2) step.prems fb by (auto simp: tstep_def fathers_before_def)
  then show ?case using step.IH by auto
qed

lemma anc_index_strict:
  assumes fb: "fathers_before r V par" and "anc r V par a b" "b \<in> set V" "a \<noteq> b"
  shows "index_of V a < index_of V b"
proof -
  from anc_last [OF assms(2)] assms(4)
  have b: "b \<noteq> r" "anc r V par a (par b)" by auto
  have "par b \<in> set V" "index_of V (par b) < index_of V b"
    using fb assms(3) b(1) by (auto simp: fathers_before_def)
  then show ?thesis using anc_index [OF fb b(2)] by auto
qed

lemma dfs_tree_inv_push:
  assumes inv: "dfs_tree_inv E r V par ((t, neis) # stack)"
      and dV: "distinct V" and rV: "r \<in> set V"
      and sV: "fst ` set ((t, neis) # stack) \<subseteq> set V"
      and fb: "fathers_before r V par"
      and n: "n \<notin> set V"
      and neis: "neis = skipped @ n # rest" "set skipped \<subseteq> set V"
      and same: "\<And>x. x \<in> set V \<Longrightarrow> par' x = par x" and new: "par' n = t"
      and nn: "\<And>y. E n y = (y \<in> set nn)"
  shows "dfs_tree_inv E r (V @ [n]) par' ((n, nn) # (t, rest) # stack)"
proof -
  let ?V' = "V @ [n]"
  let ?old = "(t, neis) # stack"
  let ?new = "(n, nn) # (t, rest) # stack"
  have i1: "distinct (map fst ?old)"
    and i2: "\<forall>p \<in> set ?old. \<forall>y \<in> set (snd p). E (fst p) y"
    and i3: "successively (\<lambda>c p. c \<noteq> r \<and> par c = p) (map fst ?old)"
    and i4: "\<forall>a. anc r V par a t = (a \<in> fst ` set ?old)"
    and i5: "\<forall>a \<in> fst ` set ?old. \<forall>b \<in> set V. index_of V a \<le> index_of V b \<longrightarrow> anc r V par a b"
    and i6: "\<forall>a \<in> set V. \<forall>y \<in> set V. \<forall>z \<in> set V.
          anc r V par a z \<and> index_of V a \<le> index_of V y \<and> index_of V y \<le> index_of V z
          \<longrightarrow> anc r V par a y"
    and i7: "\<forall>x \<in> set V. x \<notin> fst ` set ?old \<longrightarrow> (\<forall>y. E x y \<longrightarrow> y \<in> set V)"
    and i8: "\<forall>p \<in> set ?old. \<forall>y. E (fst p) y \<longrightarrow> y \<in> set (snd p) \<or> y \<in> set V"
    and i9: "\<forall>x \<in> set V. \<forall>y \<in> set V. E x y \<and> index_of V x < index_of V y \<longrightarrow> anc r V par x y"
    and i10: "\<forall>x \<in> set V. x \<noteq> r \<longrightarrow> E (par x) x"
    using inv unfolding dfs_tree_inv_def by simp_all
  have nr: "n \<noteq> r" using n rV by auto
  have tV: "t \<in> set V" using sV by simp
  have fresh: "\<And>x. x \<in> set V \<Longrightarrow> x \<noteq> r \<Longrightarrow> par x \<noteq> n"
    using fb n by (auto simp: fathers_before_def)
  have A: "anc r ?V' par' a b = (anc r V par a b \<or> (b = n \<and> anc r V par a t))" for a b
    by (rule anc_add_leaf [where par = par and par' = par' and p = t, OF n nr tV fresh same new])
  have An: "anc r V par a n = (a = n)" for a
    using anc_to_outside [OF n] by auto
  have nA: "anc r V par n b = (b = n)" for b
    using anc_from_leaf [OF fresh] by auto
  have ix: "index_of ?V' x = index_of V x" "index_of V x < length V" if "x \<in> set V" for x
    using that by (simp_all add: index_of_append index_of_less)
  have ixn: "index_of ?V' n = length V" using n by (rule index_of_snoc)
  have top: "x = n" if "x \<in> set ?V'" "length V \<le> index_of ?V' x" for x
  proof (rule ccontr)
    assume "x \<noteq> n"
    then have "x \<in> set V" using that(1) by simp
    from ix [OF this] that(2) show False by simp
  qed
  have oldset: "fst ` set ?new = insert n (fst ` set ?old)" by auto
  have c1: "distinct (map fst ?new)" using i1 n sV by auto
  have c2: "\<forall>p \<in> set ?new. \<forall>y \<in> set (snd p). E (fst p) y"
    using i2 nn neis(1) by auto
  have c3: "successively (\<lambda>c p. c \<noteq> r \<and> par' c = p) (map fst ?new)"
  proof -
    have "successively (\<lambda>c p. c \<noteq> r \<and> par' c = p) (map fst ?old)"
      using i3 by (rule successively_mono) (use sV same in auto)
    then show ?thesis using nr new by simp
  qed
  have c4: "\<forall>top rest'. ?new = top # rest' \<longrightarrow>
          (\<forall>a. anc r ?V' par' a (fst top) = (a \<in> fst ` set ?new))"
    using A An i4 by auto
  have c5: "\<forall>a \<in> fst ` set ?new. \<forall>b \<in> set ?V'. index_of ?V' a \<le> index_of ?V' b
              \<longrightarrow> anc r ?V' par' a b"
  proof (intro ballI impI)
    fix a b assume a: "a \<in> fst ` set ?new" and b: "b \<in> set ?V'"
      and le: "index_of ?V' a \<le> index_of ?V' b"
    show "anc r ?V' par' a b"
    proof (cases "a = n")
      case True
      then have "b = n" using le ixn top [OF b] by simp
      then show ?thesis using True by simp
    next
      case False
      then have ao: "a \<in> fst ` set ?old" using a by auto
      then have aV: "a \<in> set V" using sV by blast
      show ?thesis
      proof (cases "b = n")
        case True
        then show ?thesis using A i4 ao by auto
      next
        case False
        then have bV: "b \<in> set V" using b by simp
        then show ?thesis using A i5 ao le ix aV by auto
      qed
    qed
  qed
  have c6: "\<forall>a \<in> set ?V'. \<forall>y \<in> set ?V'. \<forall>z \<in> set ?V'.
          anc r ?V' par' a z \<and> index_of ?V' a \<le> index_of ?V' y \<and> index_of ?V' y \<le> index_of ?V' z
          \<longrightarrow> anc r ?V' par' a y"
  proof (intro ballI impI, elim conjE)
    fix a y z assume a: "a \<in> set ?V'" and y: "y \<in> set ?V'" and z: "z \<in> set ?V'"
      and az: "anc r ?V' par' a z"
      and le1: "index_of ?V' a \<le> index_of ?V' y" and le2: "index_of ?V' y \<le> index_of ?V' z"
    show "anc r ?V' par' a y"
    proof (cases "z = n")
      case zn: True
      show ?thesis
      proof (cases "a = n")
        case True
        then have "y = n" using le1 ixn top [OF y] by simp
        then show ?thesis using True by simp
      next
        case False
        then have aV: "a \<in> set V" using a by simp
        have at: "anc r V par a t" using az zn A An False by auto
        then have ao: "a \<in> fst ` set ?old" using i4 by simp
        show ?thesis
        proof (cases "y = n")
          case True
          then show ?thesis using A at by auto
        next
          case False
          then have yV: "y \<in> set V" using y by simp
          then show ?thesis using A i5 ao le1 ix aV by auto
        qed
      qed
    next
      case zn: False
      then have zV: "z \<in> set V" using z by simp
      have az': "anc r V par a z" using az A zn by auto
      have an: "a \<noteq> n" using az' nA zn by auto
      then have aV: "a \<in> set V" using a by simp
      have "y \<noteq> n" using le2 ixn top [OF z] zn by auto
      then have yV: "y \<in> set V" using y by simp
      have "anc r V par a y" using i6 aV yV zV az' le1 le2 ix by auto
      then show ?thesis using A by auto
    qed
  qed
  have c7: "\<forall>x \<in> set ?V'. x \<notin> fst ` set ?new \<longrightarrow> (\<forall>y. E x y \<longrightarrow> y \<in> set ?V')"
    using i7 by auto
  have c8: "\<forall>p \<in> set ?new. \<forall>y. E (fst p) y \<longrightarrow> y \<in> set (snd p) \<or> y \<in> set ?V'"
  proof (intro ballI allI impI)
    fix p y assume p: "p \<in> set ?new" and e: "E (fst p) y"
    consider "p = (n, nn)" | "p = (t, rest)" | "p \<in> set stack" using p by auto
    then show "y \<in> set (snd p) \<or> y \<in> set ?V'"
    proof cases
      case 1
      then show ?thesis using e nn by simp
    next
      case 2
      then have "y \<in> set neis \<or> y \<in> set V" using i8 e by auto
      then show ?thesis using 2 neis by auto
    next
      case 3
      then show ?thesis using i8 e by auto
    qed
  qed
  have c9: "\<forall>x \<in> set ?V'. \<forall>y \<in> set ?V'. E x y \<and> index_of ?V' x < index_of ?V' y
              \<longrightarrow> anc r ?V' par' x y"
  proof (intro ballI impI, elim conjE)
    fix x y assume x: "x \<in> set ?V'" and y: "y \<in> set ?V'" and e: "E x y"
      and lt: "index_of ?V' x < index_of ?V' y"
    have xn: "x \<noteq> n"
    proof
      assume "x = n"
      then have "length V < index_of ?V' y" using lt ixn by simp
      then have "y = n" using top [OF y] by simp
      then show False using \<open>length V < index_of ?V' y\<close> ixn by simp
    qed
    then have xV: "x \<in> set V" using x by simp
    show "anc r ?V' par' x y"
    proof (cases "y = n")
      case True
      have "x \<in> fst ` set ?old" using i7 xV e True n by blast
      then show ?thesis using A i4 True by auto
    next
      case False
      then have "y \<in> set V" using y by simp
      then show ?thesis using A i9 xV e lt ix by auto
    qed
  qed
  have c10: "\<forall>x \<in> set ?V'. x \<noteq> r \<longrightarrow> E (par' x) x"
  proof (intro ballI impI)
    fix x assume x: "x \<in> set ?V'" "x \<noteq> r"
    show "E (par' x) x"
    proof (cases "x = n")
      case True
      then show ?thesis using new i2 neis(1) by auto
    next
      case False
      then show ?thesis using x same i10 by auto
    qed
  qed
  show ?thesis
    unfolding dfs_tree_inv_def using c1 c2 c3 c4 c5 c6 c7 c8 c9 c10 by blast
qed

lemma dfs_tree_inv_pop:
  assumes inv: "dfs_tree_inv E r V par ((t, neis) # stack)"
      and sV: "fst ` set ((t, neis) # stack) \<subseteq> set V"
      and fb: "fathers_before r V par"
      and neis: "set neis \<subseteq> set V"
  shows "dfs_tree_inv E r V par stack"
proof -
  let ?old = "(t, neis) # stack"
  have i1: "distinct (map fst ?old)"
    and i2: "\<forall>p \<in> set ?old. \<forall>y \<in> set (snd p). E (fst p) y"
    and i3: "successively (\<lambda>c p. c \<noteq> r \<and> par c = p) (map fst ?old)"
    and i4: "\<forall>a. anc r V par a t = (a \<in> fst ` set ?old)"
    and i5: "\<forall>a \<in> fst ` set ?old. \<forall>b \<in> set V. index_of V a \<le> index_of V b \<longrightarrow> anc r V par a b"
    and i6: "\<forall>a \<in> set V. \<forall>y \<in> set V. \<forall>z \<in> set V.
          anc r V par a z \<and> index_of V a \<le> index_of V y \<and> index_of V y \<le> index_of V z
          \<longrightarrow> anc r V par a y"
    and i7: "\<forall>x \<in> set V. x \<notin> fst ` set ?old \<longrightarrow> (\<forall>y. E x y \<longrightarrow> y \<in> set V)"
    and i8: "\<forall>p \<in> set ?old. \<forall>y. E (fst p) y \<longrightarrow> y \<in> set (snd p) \<or> y \<in> set V"
    and i9: "\<forall>x \<in> set V. \<forall>y \<in> set V. E x y \<and> index_of V x < index_of V y \<longrightarrow> anc r V par x y"
    and i10: "\<forall>x \<in> set V. x \<noteq> r \<longrightarrow> E (par x) x"
    using inv unfolding dfs_tree_inv_def by simp_all
  have tV: "t \<in> set V" using sV by simp
  have c1: "distinct (map fst stack)" using i1 by simp
  have c2: "\<forall>p \<in> set stack. \<forall>y \<in> set (snd p). E (fst p) y" using i2 by simp
  have c3: "successively (\<lambda>c p. c \<noteq> r \<and> par c = p) (map fst stack)"
    using i3 by (cases stack) simp_all
  have c4: "\<forall>top rest. stack = top # rest \<longrightarrow>
          (\<forall>a. anc r V par a (fst top) = (a \<in> fst ` set stack))"
  proof (intro allI impI)
    fix top rest a assume st: "stack = top # rest"
    have ch: "t \<noteq> r" "par t = fst top" using i3 st by simp_all
    have ts: "tstep r V par (fst top) t" using ch tV by (simp add: tstep_def)
    have lt: "index_of V (fst top) < index_of V t"
      using fb tV ch by (auto simp: fathers_before_def)
    show "anc r V par a (fst top) = (a \<in> fst ` set stack)"
    proof
      assume a: "anc r V par a (fst top)"
      then have "anc r V par a t" using ts by (rule anc_step)
      then have "a \<in> fst ` set ?old" using i4 by simp
      moreover have "a \<noteq> t"
      proof
        assume "a = t"
        then have "index_of V t \<le> index_of V (fst top)"
          using anc_index [OF fb a] sV st by auto
        then show False using lt by simp
      qed
      ultimately show "a \<in> fst ` set stack" by auto
    next
      assume a: "a \<in> fst ` set stack"
      then have "anc r V par a t" using i4 by simp
      moreover have "a \<noteq> t" using a i1 by auto
      ultimately show "anc r V par a (fst top)" using anc_last [of r V par a t] ch by auto
    qed
  qed
  have c5: "\<forall>a \<in> fst ` set stack. \<forall>b \<in> set V. index_of V a \<le> index_of V b \<longrightarrow> anc r V par a b"
    using i5 by simp
  have c7: "\<forall>x \<in> set V. x \<notin> fst ` set stack \<longrightarrow> (\<forall>y. E x y \<longrightarrow> y \<in> set V)"
  proof (intro ballI impI allI)
    fix x y assume x: "x \<in> set V" "x \<notin> fst ` set stack" and e: "E x y"
    show "y \<in> set V"
    proof (cases "x = t")
      case True
      then show ?thesis using i8 e neis by auto
    next
      case False
      then show ?thesis using i7 x e by auto
    qed
  qed
  have c8: "\<forall>p \<in> set stack. \<forall>y. E (fst p) y \<longrightarrow> y \<in> set (snd p) \<or> y \<in> set V"
    using i8 by simp
  show ?thesis
    unfolding dfs_tree_inv_def using c1 c2 c3 c4 c5 i6 c7 c8 i9 i10 by blast
qed

text \<open>
  The tree of a finished search: the reached vertices \<open>V\<close> in the order of the
  search, closed under the edges, with the fathers before their children along edges
  of the graph, the descendants of a vertex numbered consecutively, and every edge to
  a later vertex leading to a descendant.
\<close>

definition dfs_tree :: "('a \<Rightarrow> 'a \<Rightarrow> bool) \<Rightarrow> 'a \<Rightarrow> 'a list \<Rightarrow> ('a \<Rightarrow> 'a) \<Rightarrow> bool" where
  "dfs_tree E r V par =
     (distinct V \<and> (\<exists>rest. V = r # rest) \<and> fathers_before r V par \<and>
      (\<forall>x \<in> set V. x \<noteq> r \<longrightarrow> E (par x) x) \<and>
      (\<forall>x \<in> set V. \<forall>y. E x y \<longrightarrow> y \<in> set V) \<and>
      (\<forall>a \<in> set V. \<forall>y \<in> set V. \<forall>z \<in> set V.
          anc r V par a z \<and> index_of V a \<le> index_of V y \<and> index_of V y \<le> index_of V z
          \<longrightarrow> anc r V par a y) \<and>
      (\<forall>x \<in> set V. \<forall>y \<in> set V. E x y \<and> index_of V x < index_of V y \<longrightarrow> anc r V par x y))"

lemma dfs_inv_fathers_before:
  assumes "dfs_inv graph rootv stack added father events"
  shows "fathers_before rootv (dfs_in_order events) (\<lambda>x. father ! nat x)"
  unfolding fathers_before_def
proof (intro ballI impI)
  let ?V = "dfs_in_order events"
  fix x assume x: "x \<in> set ?V" "x \<noteq> rootv"
  have added: "added = rev ?V" and dist: "distinct added"
    and hd: "\<exists>rest. ?V = rootv # rest"
    and par: "\<forall>j < length added. 0 < j \<longrightarrow> (\<exists>i < j. father ! nat (?V ! j) = ?V ! i)"
    using assms unfolding dfs_inv_def by blast+
  have dV: "distinct ?V" using dist added by simp
  let ?j = "index_of ?V x"
  have j: "?j < length ?V" "?V ! ?j = x" using x(1) by (simp_all add: index_of_less index_of_nth)
  have "?j \<noteq> 0" using j(2) hd x(2) by (cases "?j = 0") auto
  then obtain i where i: "i < ?j" "father ! nat (?V ! ?j) = ?V ! i"
    using par j(1) added by auto
  have "index_of ?V (?V ! i) = i" using dV i(1) j(1) by (intro index_of_eq) simp_all
  then show "father ! nat x \<in> set ?V \<and> index_of ?V (father ! nat x) < index_of ?V x"
    using i j by simp
qed

lemma dropWhile_Cons_split:
  assumes "dropWhile P xs = y # ys"
  shows "\<exists>skipped. xs = skipped @ y # ys \<and> (\<forall>x \<in> set skipped. P x)"
proof -
  have "xs = takeWhile P xs @ y # ys" using assms takeWhile_dropWhile_id [of P xs] by simp
  moreover have "\<forall>x \<in> set (takeWhile P xs). P x" by (auto dest: set_takeWhileD)
  ultimately show ?thesis by blast
qed

lemma igraph_dfs_loop_tree:
  assumes "dfs_inv graph rootv stack added father events" "igraph_wf graph"
      and "dfs_tree_inv (\<lambda>x y. y \<in> set (igraph_neighbors graph x mode)) rootv
             (dfs_in_order events) (\<lambda>x. father ! nat x) stack"
      and "igraph_dfs_loop graph mode stack added father events = (father', events')"
  shows "dfs_tree_inv (\<lambda>x y. y \<in> set (igraph_neighbors graph x mode)) rootv
             (dfs_in_order events') (\<lambda>x. father' ! nat x) []"
  using assms
proof (induction graph mode stack added father events rule: igraph_dfs_loop.induct)
  case (1 graph mode added father events)
  then show ?case by simp
next
  case (2 graph mode actvect neis stack added father events)
  let ?E = "\<lambda>x y. y \<in> set (igraph_neighbors graph x mode)"
  let ?V = "dfs_in_order events"
  note run = "2.prems"(4) [unfolded igraph_dfs_loop.simps(2) [of graph mode actvect neis stack]]
  note inv = "2.prems"(1)
  have added: "added = rev ?V" and dist: "distinct added"
    and rng: "set added \<subseteq> {0 .. g_n graph - 1}"
    and stk: "\<forall>p \<in> set ((actvect, neis) # stack). fst p \<in> set added"
    and len: "length father = nat (g_n graph)"
    and hd: "\<exists>rest. ?V = rootv # rest"
    using inv unfolding dfs_inv_def by blast+
  have sV: "fst ` set ((actvect, neis) # stack) \<subseteq> set ?V" using stk added by auto
  have fb: "fathers_before rootv ?V (\<lambda>x. father ! nat x)"
    by (rule dfs_inv_fathers_before [OF inv])
  show ?case
  proof (cases "dropWhile (\<lambda>nei. nei \<in> set added) neis")
    case Nil
    have r: "igraph_dfs_loop graph mode stack added father (events @ [DFS_OUT actvect])
               = (father', events')"
      using run by (simp only: Nil list.case)
    have sub: "set neis \<subseteq> set ?V" using Nil added by auto
    have V': "dfs_in_order (events @ [DFS_OUT actvect]) = ?V" by (simp add: dfs_in_order_append)
    have t: "dfs_tree_inv ?E rootv (dfs_in_order (events @ [DFS_OUT actvect]))
               (\<lambda>x. father ! nat x) stack"
      unfolding V' by (rule dfs_tree_inv_pop [OF "2.prems"(3) sV fb sub])
    show ?thesis
      by (rule "2.IH"(1) [OF Nil dfs_inv_step_out [OF inv] "2.prems"(2) t r])
  next
    case (Cons nei rest)
    have r: "igraph_dfs_loop graph mode
               ((nei, igraph_neighbors graph nei mode) # (actvect, rest) # stack)
               (nei # added) (father[nat nei := actvect]) (events @ [DFS_IN nei])
               = (father', events')"
      using run by (simp only: Cons list.case)
    obtain skipped where sk: "neis = skipped @ nei # rest" "\<forall>x \<in> set skipped. x \<in> set added"
      using dropWhile_Cons_split [OF Cons] by blast
    have n: "nei \<in> set neis" "nei \<notin> set added"
      using dropWhile_Cons_set [OF Cons] by auto
    note inv' = dfs_inv_step_in [OF inv "2.prems"(2) Cons, of mode]
    have nr: "0 \<le> nei" "nei < g_n graph"
      using inv' unfolding dfs_inv_def by auto
    have V': "dfs_in_order (events @ [DFS_IN nei]) = ?V @ [nei]" by (simp add: dfs_in_order_append)
    have same: "father[nat nei := actvect] ! nat x = father ! nat x" if "x \<in> set ?V" for x
    proof -
      have "x \<noteq> nei" "0 \<le> x" using that n(2) added rng by auto
      then have "nat x \<noteq> nat nei" using nr by simp
      then show ?thesis by simp
    qed
    have new: "father[nat nei := actvect] ! nat nei = actvect" using len nr by simp
    have t: "dfs_tree_inv ?E rootv (dfs_in_order (events @ [DFS_IN nei]))
               (\<lambda>x. father[nat nei := actvect] ! nat x)
               ((nei, igraph_neighbors graph nei mode) # (actvect, rest) # stack)"
      unfolding V'
    proof (rule dfs_tree_inv_push [OF "2.prems"(3) _ _ sV fb _ sk(1)])
      show "distinct ?V" using dist added by simp
      show "rootv \<in> set ?V" using hd by auto
      show "nei \<notin> set ?V" using n(2) added by simp
      show "set skipped \<subseteq> set ?V" using sk(2) added by auto
      show "\<And>x. x \<in> set ?V \<Longrightarrow> father[nat nei := actvect] ! nat x = father ! nat x"
        by (rule same)
      show "father[nat nei := actvect] ! nat nei = actvect" by (rule new)
      show "\<And>y. (y \<in> set (igraph_neighbors graph nei mode))
                 = (y \<in> set (igraph_neighbors graph nei mode))" by simp
    qed
    show ?thesis
      by (rule "2.IH"(2) [OF Cons inv' "2.prems"(2) t r])
  qed
qed

lemma igraph_dfs_tree:
  assumes wf: "igraph_wf graph" and dfs: "igraph_dfs graph rootv mode = Inr (order, father, events)"
  shows "dfs_tree (\<lambda>x y. y \<in> set (igraph_neighbors graph x mode)) rootv
           (dfs_in_order events) (\<lambda>x. father ! nat x)"
proof -
  let ?n = "g_n graph"
  let ?E = "\<lambda>x y. y \<in> set (igraph_neighbors graph x mode)"
  have r: "0 \<le> rootv" "rootv < ?n" using dfs
    by (auto simp: igraph_dfs_def Let_def igraph_vcount_def split: if_splits)
  let ?f0 = "(replicate (nat ?n) (- 2))[nat rootv := - 1]"
  let ?st0 = "[(rootv, igraph_neighbors graph rootv mode)]"
  have run: "igraph_dfs_loop graph mode ?st0 [rootv] ?f0 [DFS_IN rootv] = (father, events)"
    using dfs r
    by (auto simp: igraph_dfs_def Let_def igraph_vcount_def split: if_splits prod.splits)
  have inv0: "dfs_inv graph rootv ?st0 [rootv] ?f0 [DFS_IN rootv]"
    unfolding dfs_inv_def
    using r igraph_wf_neighbors [OF wf, of _ rootv mode]
    by (auto simp: nth_list_update)
  have a0: "anc rootv [rootv] par a b = (a = b)" for par :: "int \<Rightarrow> int" and a b
  proof
    assume "anc rootv [rootv] par a b"
    then show "a = b" unfolding anc_def
      by (induction rule: rtranclp_induct) (auto simp: tstep_def)
  qed simp
  have t0: "dfs_tree_inv ?E rootv (dfs_in_order [DFS_IN rootv]) (\<lambda>x. ?f0 ! nat x) ?st0"
    unfolding dfs_tree_inv_def by (simp add: a0)
  note fin = igraph_dfs_loop_inv [OF inv0 wf run]
  note tfin = igraph_dfs_loop_tree [OF inv0 wf t0 run]
  have fb: "fathers_before rootv (dfs_in_order events) (\<lambda>x. father ! nat x)"
    by (rule dfs_inv_fathers_before [OF fin])
  have "distinct (rev (dfs_in_order events))" "\<exists>rest. dfs_in_order events = rootv # rest"
    using fin unfolding dfs_inv_def by blast+
  then have d: "distinct (dfs_in_order events)" "\<exists>rest. dfs_in_order events = rootv # rest"
    by simp_all
  show ?thesis
    unfolding dfs_tree_def using tfin fb d unfolding dfs_tree_inv_def by simp
qed

section \<open>Proofs: dominators and semidominators\<close>

subsection \<open>The tree\<close>

lemma dfs_tree_facts:
  assumes "dfs_tree E r V par"
  shows "distinct V" "r \<in> set V" "index_of V r = 0" "fathers_before r V par"
    "\<And>x. x \<in> set V \<Longrightarrow> x \<noteq> r \<Longrightarrow> E (par x) x"
    "\<And>x y. x \<in> set V \<Longrightarrow> E x y \<Longrightarrow> y \<in> set V"
    "\<And>a y z. a \<in> set V \<Longrightarrow> y \<in> set V \<Longrightarrow> z \<in> set V \<Longrightarrow> anc r V par a z \<Longrightarrow>
        index_of V a \<le> index_of V y \<Longrightarrow> index_of V y \<le> index_of V z \<Longrightarrow> anc r V par a y"
    "\<And>x y. x \<in> set V \<Longrightarrow> y \<in> set V \<Longrightarrow> E x y \<Longrightarrow> index_of V x < index_of V y \<Longrightarrow>
        anc r V par x y"
proof -
  have d: "distinct V" and h: "\<exists>rest. V = r # rest" and f: "fathers_before r V par"
    and e: "\<forall>x \<in> set V. x \<noteq> r \<longrightarrow> E (par x) x"
    and c: "\<forall>x \<in> set V. \<forall>y. E x y \<longrightarrow> y \<in> set V"
    and v: "\<forall>a \<in> set V. \<forall>y \<in> set V. \<forall>z \<in> set V.
          anc r V par a z \<and> index_of V a \<le> index_of V y \<and> index_of V y \<le> index_of V z
          \<longrightarrow> anc r V par a y"
    and x: "\<forall>x \<in> set V. \<forall>y \<in> set V. E x y \<and> index_of V x < index_of V y \<longrightarrow> anc r V par x y"
    using assms unfolding dfs_tree_def by blast+
  show "distinct V" by (rule d)
  show "r \<in> set V" "index_of V r = 0" using h by auto
  show "fathers_before r V par" by (rule f)
  show "\<And>x. x \<in> set V \<Longrightarrow> x \<noteq> r \<Longrightarrow> E (par x) x" using e by blast
  show "\<And>x y. x \<in> set V \<Longrightarrow> E x y \<Longrightarrow> y \<in> set V" using c by blast
  show "\<And>a y z. a \<in> set V \<Longrightarrow> y \<in> set V \<Longrightarrow> z \<in> set V \<Longrightarrow> anc r V par a z \<Longrightarrow>
        index_of V a \<le> index_of V y \<Longrightarrow> index_of V y \<le> index_of V z \<Longrightarrow> anc r V par a y"
    using v by blast
  show "\<And>x y. x \<in> set V \<Longrightarrow> y \<in> set V \<Longrightarrow> E x y \<Longrightarrow> index_of V x < index_of V y \<Longrightarrow>
        anc r V par x y"
    using x by blast
qed

lemma index_of_less_iff:
  "distinct V \<Longrightarrow> x \<in> set V \<Longrightarrow> y \<in> set V \<Longrightarrow> index_of V x = index_of V y \<longleftrightarrow> x = y"
  using index_of_inj by metis

lemma tree_par:
  assumes t: "dfs_tree E r V par" and x: "x \<in> set V" "x \<noteq> r"
  shows "par x \<in> set V" "index_of V (par x) < index_of V x" "tstep r V par (par x) x"
    "anc r V par (par x) x"
  using dfs_tree_facts(4) [OF t] x
  by (auto simp: fathers_before_def tstep_def anc_def)

lemma anc_in:
  assumes t: "dfs_tree E r V par" and "anc r V par a b" "b \<in> set V"
  shows "a \<in> set V" "index_of V a \<le> index_of V b"
  using anc_index [OF dfs_tree_facts(4) [OF t] assms(2,3)] by simp_all

lemma anc_strict:
  assumes t: "dfs_tree E r V par" and "anc r V par a b" "b \<in> set V" "a \<noteq> b"
  shows "index_of V a < index_of V b"
  using anc_index_strict [OF dfs_tree_facts(4) [OF t] assms(2,3,4)] .

lemma anc_antisym:
  assumes t: "dfs_tree E r V par" and "anc r V par a b" "anc r V par b a" "b \<in> set V"
  shows "a = b"
proof -
  have a: "a \<in> set V" "index_of V a \<le> index_of V b" using anc_in [OF t assms(2,4)] by simp_all
  have "index_of V b \<le> index_of V a" using anc_in [OF t assms(3) a(1)] by simp
  then show ?thesis using a index_of_inj [OF a(1) assms(4)] by simp
qed

lemma anc_root:
  assumes t: "dfs_tree E r V par"
  shows "x \<in> set V \<Longrightarrow> anc r V par r x"
proof (induction "index_of V x" arbitrary: x rule: less_induct)
  case less
  show ?case
  proof (cases "x = r")
    case True
    then show ?thesis by simp
  next
    case False
    note p = tree_par [OF t less.prems False]
    have "anc r V par r (par x)" using less.hyps [OF p(2) p(1)] .
    then show ?thesis using p(3) by (rule anc_step)
  qed
qed

lemma anc_linear:
  assumes t: "dfs_tree E r V par"
  shows "x \<in> set V \<Longrightarrow> anc r V par a x \<Longrightarrow> anc r V par b x \<Longrightarrow>
         anc r V par a b \<or> anc r V par b a"
proof (induction "index_of V x" arbitrary: x rule: less_induct)
  case less
  from anc_last [OF less.prems(2)] anc_last [OF less.prems(3)]
  consider "a = x" | "b = x" | "x \<noteq> r" "anc r V par a (par x)" "anc r V par b (par x)"
    by blast
  then show ?case
  proof cases
    case 1
    then show ?thesis using less.prems(3) by simp
  next
    case 2
    then show ?thesis using less.prems(2) by simp
  next
    case 3
    note p = tree_par [OF t less.prems(1) 3(1)]
    show ?thesis using less.hyps [OF p(2) p(1) 3(2,3)] .
  qed
qed

text \<open>Walks in the graph.\<close>

definition path :: "('a \<Rightarrow> 'a \<Rightarrow> bool) \<Rightarrow> 'a list \<Rightarrow> bool" where
  "path E xs = (xs \<noteq> [] \<and> successively E xs)"

lemma path_single [simp]: "path E [x]"
  by (simp add: path_def)

lemma path_Cons: "path E (x # y # ys) = (E x y \<and> path E (y # ys))"
  by (simp add: path_def)

lemma path_append:
  "path E xs \<Longrightarrow> path E ys \<Longrightarrow> E (last xs) (hd ys) \<Longrightarrow> path E (xs @ ys)"
  by (simp add: path_def successively_append_iff)

lemma path_join:
  "path E xs \<Longrightarrow> path E ys \<Longrightarrow> last xs = hd ys \<Longrightarrow> path E (xs @ tl ys)"
  by (cases ys; cases "tl ys")
     (auto simp: path_def successively_append_iff successively_Cons)

lemma path_suffix: "path E (xs @ ys) \<Longrightarrow> ys \<noteq> [] \<Longrightarrow> path E ys"
  by (simp add: path_def successively_append_iff)

lemma path_prefix: "path E (xs @ ys) \<Longrightarrow> xs \<noteq> [] \<Longrightarrow> path E xs"
  by (simp add: path_def successively_append_iff)

lemma path_closed:
  assumes closed: "\<And>x y. x \<in> S \<Longrightarrow> E x y \<Longrightarrow> y \<in> S"
  shows "path E xs \<Longrightarrow> hd xs \<in> S \<Longrightarrow> set xs \<subseteq> S"
proof (induction xs rule: induct_list012)
  case 1
  then show ?case by simp
next
  case (2 x)
  then show ?case by simp
next
  case (3 x y zs)
  have "y \<in> S" using closed [of x y] 3(3,4) by (simp add: path_Cons)
  then show ?case using 3 by (simp add: path_Cons)
qed

lemma tree_path:
  assumes t: "dfs_tree E r V par"
  shows "anc r V par a b \<Longrightarrow> b \<in> set V \<Longrightarrow>
         \<exists>xs. path E xs \<and> hd xs = a \<and> last xs = b \<and>
              (\<forall>y \<in> set xs. anc r V par a y \<and> anc r V par y b)"
  unfolding anc_def
proof (induction rule: rtranclp_induct)
  case base
  show ?case by (intro exI [of _ "[a]"]) simp
next
  case (step b c)
  have c: "c \<in> set V" "c \<noteq> r" "par c = b" using step.hyps(2) by (simp_all add: tstep_def)
  note p = tree_par [OF t c(1,2)]
  have bV: "b \<in> set V" using p(1) c(3) by simp
  from step.IH [OF bV] obtain xs where xs: "path E xs" "hd xs = a" "last xs = b"
      "\<forall>y \<in> set xs. (tstep r V par)\<^sup>*\<^sup>* a y \<and> (tstep r V par)\<^sup>*\<^sup>* y b"
    by blast
  have e: "E b c" using dfs_tree_facts(5) [OF t c(1,2)] c(3) by simp
  have 1: "path E (xs @ [c])" using xs(1,3) e by (intro path_append) simp_all
  have 2: "hd (xs @ [c]) = a" using xs(1,2) by (simp add: path_def)
  have 3: "\<forall>y \<in> set (xs @ [c]). (tstep r V par)\<^sup>*\<^sup>* a y \<and> (tstep r V par)\<^sup>*\<^sup>* y c"
    using xs(4) step.hyps by auto
  show ?case using 1 2 3 by (intro exI [of _ "xs @ [c]"]) simp
qed

text \<open>The path lemma: a walk to a later vertex passes a common ancestor.\<close>

lemma descendants_closed:
  assumes t: "dfs_tree E r V par"
  shows "anc r V par x u \<Longrightarrow> u \<in> set V \<Longrightarrow> path E (u # zs) \<Longrightarrow>
         \<forall>z \<in> set zs. index_of V x \<le> index_of V z \<Longrightarrow> \<forall>z \<in> set zs. anc r V par x z"
proof (induction zs arbitrary: u)
  case Nil
  then show ?case by simp
next
  case (Cons u' zs)
  have e: "E u u'" and p: "path E (u' # zs)" using Cons.prems(3) by (simp_all add: path_Cons)
  have u'V: "u' \<in> set V" using dfs_tree_facts(6) [OF t Cons.prems(2) e] .
  have xV: "x \<in> set V" using anc_in [OF t Cons.prems(1,2)] by simp
  have le: "index_of V x \<le> index_of V u'" using Cons.prems(4) by simp
  have "anc r V par x u'"
  proof (cases "index_of V u < index_of V u'")
    case True
    have "anc r V par u u'" using dfs_tree_facts(8) [OF t Cons.prems(2) u'V e True] .
    then show ?thesis using Cons.prems(1) anc_trans by metis
  next
    case False
    then show ?thesis
      using dfs_tree_facts(7) [OF t xV u'V Cons.prems(2) Cons.prems(1) le] by simp
  qed
  then show ?case using Cons.IH [OF _ u'V p] Cons.prems(4) by simp
qed

lemma path_lemma:
  assumes t: "dfs_tree E r V par"
      and p: "path E xs" "hd xs = v" "last xs = w" and v: "v \<in> set V"
      and le: "index_of V v \<le> index_of V w"
  shows "\<exists>x \<in> set xs. anc r V par x v \<and> anc r V par x w"
proof -
  have sub: "set xs \<subseteq> set V"
    using path_closed [of "set V" E xs] dfs_tree_facts(6) [OF t] p(1,2) v by blast
  have ne: "xs \<noteq> []" using p(1) by (simp add: path_def)
  define m where "m = Min (index_of V ` set xs)"
  have "m \<in> index_of V ` set xs" unfolding m_def using ne by (intro Min_in) simp_all
  then obtain x where x: "x \<in> set xs" "index_of V x = m" by auto
  have min: "\<forall>y \<in> set xs. index_of V x \<le> index_of V y"
    unfolding x(2) m_def by simp
  obtain ys zs where split: "xs = ys @ x # zs" using x(1) by (auto simp: in_set_conv_decomp)
  have xV: "x \<in> set V" using sub x(1) by auto
  have pz: "path E (x # zs)" using p(1) split path_suffix [of E ys "x # zs"] by simp
  have "\<forall>z \<in> set zs. anc r V par x z"
    using descendants_closed [OF t anc_refl xV pz] min split by simp
  moreover have "w = x \<or> w \<in> set zs" using p(3) split by (cases zs rule: rev_cases) auto
  ultimately have xw: "anc r V par x w" by auto
  have vx: "index_of V x \<le> index_of V v"
    using min p(2) ne by (cases xs) auto
  have wV: "w \<in> set V" using sub p(3) ne last_in_set by fastforce
  have "anc r V par x v"
    using dfs_tree_facts(7) [OF t xV v wV xw vx le] .
  then show ?thesis using x(1) xw by blast
qed

subsection \<open>Dominators\<close>

definition rpath :: "('a \<Rightarrow> 'a \<Rightarrow> bool) \<Rightarrow> 'a \<Rightarrow> 'a list \<Rightarrow> 'a \<Rightarrow> bool" where
  "rpath E r xs v = (path E xs \<and> hd xs = r \<and> last xs = v)"

definition dominates :: "('a \<Rightarrow> 'a \<Rightarrow> bool) \<Rightarrow> 'a \<Rightarrow> 'a \<Rightarrow> 'a \<Rightarrow> bool" where
  "dominates E r d v = (\<forall>xs. rpath E r xs v \<longrightarrow> d \<in> set xs)"

text \<open>
  The immediate dominator of \<open>v\<close>: a dominator of \<open>v\<close> other than \<open>v\<close> that every other
  such dominator dominates.
\<close>

definition is_idom :: "('a \<Rightarrow> 'a \<Rightarrow> bool) \<Rightarrow> 'a \<Rightarrow> 'a \<Rightarrow> 'a \<Rightarrow> bool" where
  "is_idom E r d v =
     (d \<noteq> v \<and> dominates E r d v \<and> (\<forall>d'. d' \<noteq> v \<and> dominates E r d' v \<longrightarrow> dominates E r d' d))"

definition idom :: "('a \<Rightarrow> 'a \<Rightarrow> bool) \<Rightarrow> 'a \<Rightarrow> 'a list \<Rightarrow> 'a \<Rightarrow> 'a" where
  "idom E r V v = V ! Max (index_of V ` {d. d \<noteq> v \<and> dominates E r d v})"

lemma rpath_in:
  assumes t: "dfs_tree E r V par" and "rpath E r xs v"
  shows "set xs \<subseteq> set V" "v \<in> set V"
proof -
  show s: "set xs \<subseteq> set V"
    using path_closed [of "set V" E xs] dfs_tree_facts(2,6) [OF t] assms(2)
    unfolding rpath_def by blast
  have "xs \<noteq> []" using assms(2) by (simp add: rpath_def path_def)
  then show "v \<in> set V" using s assms(2) last_in_set [of xs] by (auto simp: rpath_def)
qed

lemma tree_rpath:
  assumes t: "dfs_tree E r V par" and v: "v \<in> set V"
  shows "\<exists>xs. rpath E r xs v \<and> (\<forall>y \<in> set xs. anc r V par y v)"
  using tree_path [OF t anc_root [OF t v] v] unfolding rpath_def by blast

lemma dominates_anc:
  assumes t: "dfs_tree E r V par" and "dominates E r d v" "v \<in> set V"
  shows "anc r V par d v"
  using tree_rpath [OF t assms(3)] assms(2) unfolding dominates_def by blast

lemma dominates_refl: "dominates E r v v"
  unfolding dominates_def rpath_def path_def using last_in_set by fastforce

lemma dominates_root: "dominates E r r v"
  unfolding dominates_def rpath_def path_def using hd_in_set by fastforce

lemma path_split:
  assumes "path E xs" "d \<in> set xs"
  shows "\<exists>ys zs. xs = ys @ d # zs \<and> path E (ys @ [d]) \<and> path E (d # zs)"
proof -
  obtain ys zs where s: "xs = ys @ d # zs" using assms(2) by (auto simp: in_set_conv_decomp)
  have "path E ((ys @ [d]) @ zs)" using assms(1) s by simp
  then have "path E (ys @ [d])" by (rule path_prefix) simp
  moreover have "path E (d # zs)" using assms(1) s path_suffix [of E ys "d # zs"] by simp
  ultimately show ?thesis using s by blast
qed

lemma dominates_trans:
  assumes "dominates E r a b" "dominates E r b c"
  shows "dominates E r a c"
  unfolding dominates_def
proof (intro allI impI)
  fix xs assume p: "rpath E r xs c"
  then have "b \<in> set xs" using assms(2) unfolding dominates_def by blast
  then obtain ys zs where s: "xs = ys @ b # zs" "path E (ys @ [b])"
    using path_split [of E xs b] p by (auto simp: rpath_def)
  have "hd (ys @ [b]) = r" using p s(1) by (cases ys) (auto simp: rpath_def)
  then have "rpath E r (ys @ [b]) b" using s(2) by (simp add: rpath_def)
  then have "a \<in> set (ys @ [b])" using assms(1) unfolding dominates_def by blast
  then show "a \<in> set xs" using s(1) by auto
qed

lemma dominates_chain:
  assumes t: "dfs_tree E r V par" and v: "v \<in> set V"
      and d1: "dominates E r d1 v" and d2: "dominates E r d2 v"
      and le: "index_of V d1 \<le> index_of V d2"
  shows "dominates E r d1 d2"
proof (cases "d1 = d2")
  case True
  then show ?thesis by (simp add: dominates_refl)
next
  case False
  have a1: "anc r V par d1 v" and a2: "anc r V par d2 v"
    using dominates_anc [OF t _ v] d1 d2 by simp_all
  have d1V: "d1 \<in> set V" and d2V: "d2 \<in> set V" using anc_in [OF t _ v] a1 a2 by simp_all
  have lt: "index_of V d1 < index_of V d2"
    using le False index_of_inj [OF d1V d2V] by (cases "index_of V d1 = index_of V d2") auto
  obtain ts where ts: "path E ts" "hd ts = d2" "last ts = v" "\<forall>y \<in> set ts. anc r V par d2 y"
    using tree_path [OF t a2 v] by blast
  show ?thesis
    unfolding dominates_def
  proof (intro allI impI)
    fix xs assume p: "rpath E r xs d2"
    have j: "path E (xs @ tl ts)" using p ts(1,2) by (intro path_join) (simp_all add: rpath_def)
    have ne: "xs \<noteq> []" using p by (simp add: rpath_def path_def)
    have "last (xs @ tl ts) = v"
    proof (cases "tl ts = []")
      case True
      then have "ts = [d2]" using ts(1,2) by (cases ts) (auto simp: path_def)
      then show ?thesis using True p ts(3) by (simp add: rpath_def)
    next
      case False
      then show ?thesis using ts(3) by (simp add: last_tl)
    qed
    then have "rpath E r (xs @ tl ts) v" using j p ne by (simp add: rpath_def)
    then have "d1 \<in> set (xs @ tl ts)" using d1 unfolding dominates_def by blast
    then have "d1 \<in> set xs \<or> d1 \<in> set (tl ts)" by simp
    moreover have "d1 \<notin> set (tl ts)"
    proof
      assume "d1 \<in> set (tl ts)"
      then have "d1 \<in> set ts" by (rule list.set_sel(2) [rotated]) (use ts(1) in \<open>simp add: path_def\<close>)
      then have "anc r V par d2 d1" using ts(4) by simp
      then have "index_of V d2 \<le> index_of V d1" using anc_in [OF t _ d1V] by simp
      then show False using lt by simp
    qed
    ultimately show "d1 \<in> set xs" by simp
  qed
qed

lemma strict_dominators_finite:
  assumes t: "dfs_tree E r V par" and v: "v \<in> set V"
  shows "{d. d \<noteq> v \<and> dominates E r d v} \<subseteq> set V"
  using anc_in(1) [OF t dominates_anc [OF t _ v] v] by auto

lemma idom_facts:
  assumes t: "dfs_tree E r V par" and v: "v \<in> set V" "v \<noteq> r"
  shows "idom E r V v \<noteq> v" "dominates E r (idom E r V v) v" "idom E r V v \<in> set V"
    "\<And>d. d \<noteq> v \<Longrightarrow> dominates E r d v \<Longrightarrow> index_of V d \<le> index_of V (idom E r V v)"
proof -
  let ?D = "{d. d \<noteq> v \<and> dominates E r d v}"
  have sub: "?D \<subseteq> set V" by (rule strict_dominators_finite [OF t v(1)])
  have fin: "finite (index_of V ` ?D)" using sub finite_subset by (intro finite_imageI) blast
  have rD: "r \<in> ?D" using v(2) dominates_root [of E r v] by simp
  have "Max (index_of V ` ?D) \<in> index_of V ` ?D" using fin rD by (intro Max_in) auto
  then obtain d where d: "d \<in> ?D" "index_of V d = Max (index_of V ` ?D)" by auto
  have "idom E r V v = d" unfolding idom_def using d sub index_of_nth [of d V] by auto
  then show "idom E r V v \<noteq> v" "dominates E r (idom E r V v) v" "idom E r V v \<in> set V"
    using d(1) sub by auto
  show "\<And>d'. d' \<noteq> v \<Longrightarrow> dominates E r d' v \<Longrightarrow> index_of V d' \<le> index_of V (idom E r V v)"
    using \<open>idom E r V v = d\<close> d(2) fin by (auto intro: Max_ge)
qed

lemma idom_is_idom:
  assumes t: "dfs_tree E r V par" and v: "v \<in> set V" "v \<noteq> r"
  shows "is_idom E r (idom E r V v) v"
  unfolding is_idom_def
  using idom_facts [OF t v] dominates_chain [OF t v(1)] by blast

lemma is_idom_unique:
  assumes t: "dfs_tree E r V par" and v: "v \<in> set V" "v \<noteq> r" and d: "is_idom E r d v"
  shows "d = idom E r V v"
proof -
  note i = idom_facts [OF t v]
  have 1: "dominates E r (idom E r V v) d" using d i(1,2) by (simp add: is_idom_def)
  have 2: "dominates E r d (idom E r V v)"
    using idom_is_idom [OF t v] d by (simp add: is_idom_def)
  have dV: "d \<in> set V" using strict_dominators_finite [OF t v(1)] d by (auto simp: is_idom_def)
  show ?thesis
    using anc_antisym [OF t dominates_anc [OF t 2 i(3)] dominates_anc [OF t 1 dV] i(3)] .
qed

lemma idom_anc:
  assumes t: "dfs_tree E r V par" and v: "v \<in> set V" "v \<noteq> r"
  shows "anc r V par (idom E r V v) v" "index_of V (idom E r V v) < index_of V v"
proof -
  note i = idom_facts [OF t v]
  show a: "anc r V par (idom E r V v) v" by (rule dominates_anc [OF t i(2) v(1)])
  show "index_of V (idom E r V v) < index_of V v" by (rule anc_strict [OF t a v(1) i(1)])
qed

subsection \<open>Semidominators\<close>

text \<open>
  A semidominator path to \<open>w\<close>: a walk whose inner vertices are numbered above \<open>w\<close>.
  The semidominator of \<open>w\<close> is the reached vertex with the least number that starts
  such a walk; \<open>sdn\<close> is its number.
\<close>

definition sdpath :: "('a \<Rightarrow> 'a \<Rightarrow> bool) \<Rightarrow> 'a list \<Rightarrow> 'a \<Rightarrow> 'a \<Rightarrow> bool" where
  "sdpath E V w v =
     (\<exists>ys. path E (v # ys @ [w]) \<and> (\<forall>y \<in> set ys. index_of V w < index_of V y))"

definition sdn :: "('a \<Rightarrow> 'a \<Rightarrow> bool) \<Rightarrow> 'a list \<Rightarrow> 'a \<Rightarrow> nat" where
  "sdn E V w = Min (index_of V ` {v \<in> set V. sdpath E V w v})"

definition sdv :: "('a \<Rightarrow> 'a \<Rightarrow> bool) \<Rightarrow> 'a list \<Rightarrow> 'a \<Rightarrow> 'a" where
  "sdv E V w = V ! sdn E V w"

lemma sdpath_edge: "E v w \<Longrightarrow> sdpath E V w v"
  unfolding sdpath_def by (intro exI [of _ "[]"]) (simp add: path_Cons)

lemma sdn_le:
  assumes "v \<in> set V" "sdpath E V w v"
  shows "sdn E V w \<le> index_of V v"
  unfolding sdn_def using assms by (intro Min_le) auto

lemma sd_facts:
  assumes t: "dfs_tree E r V par" and w: "w \<in> set V" "w \<noteq> r"
  shows "sdv E V w \<in> set V" "index_of V (sdv E V w) = sdn E V w" "sdpath E V w (sdv E V w)"
    "sdn E V w < index_of V w"
proof -
  let ?C = "{v \<in> set V. sdpath E V w v}"
  note p = tree_par [OF t w]
  have pc: "par w \<in> ?C" using p(1) dfs_tree_facts(5) [OF t w] by (simp add: sdpath_edge)
  have "Min (index_of V ` ?C) \<in> index_of V ` ?C" using pc by (intro Min_in) auto
  then obtain v where v: "v \<in> ?C" "index_of V v = sdn E V w" by (auto simp: sdn_def)
  have eq: "sdv E V w = v" unfolding sdv_def using v index_of_nth [of v V] by auto
  show "sdv E V w \<in> set V" "index_of V (sdv E V w) = sdn E V w" "sdpath E V w (sdv E V w)"
    using v eq by auto
  have "sdn E V w \<le> index_of V (par w)" using pc by (intro sdn_le) auto
  then show "sdn E V w < index_of V w" using p(2) by simp
qed

lemma sdpath_in:
  assumes t: "dfs_tree E r V par" and "path E (x # zs)" "x \<in> set V"
  shows "set zs \<subseteq> set V"
  using path_closed [of "set V" E "x # zs"] dfs_tree_facts(6) [OF t] assms(2,3) by auto

text \<open>The semidominator is a proper ancestor (Lemma 3 of Lengauer and Tarjan).\<close>

lemma sdv_anc:
  assumes t: "dfs_tree E r V par" and w: "w \<in> set V" "w \<noteq> r"
  shows "anc r V par (sdv E V w) w" "sdv E V w \<noteq> w"
proof -
  note s = sd_facts [OF t w]
  let ?s = "sdv E V w"
  show ne: "?s \<noteq> w" using s(2,4) by auto
  obtain ys where ys: "path E (?s # ys @ [w])" "\<forall>y \<in> set ys. index_of V w < index_of V y"
    using s(3) unfolding sdpath_def by blast
  have le: "index_of V ?s \<le> index_of V w" using s(2,4) by simp
  have hl: "hd (?s # ys @ [w]) = ?s" "last (?s # ys @ [w]) = w" by simp_all
  obtain x where x: "x \<in> set (?s # ys @ [w])" "anc r V par x ?s" "anc r V par x w"
    using path_lemma [OF t ys(1) hl s(1) le] by blast
  have "x \<notin> set ys"
  proof
    assume "x \<in> set ys"
    then have "index_of V w < index_of V x" using ys(2) by simp
    then show False using anc_in(2) [OF t x(3) w(1)] by simp
  qed
  moreover have "x \<noteq> w"
  proof
    assume "x = w"
    then have "index_of V w \<le> index_of V ?s" using anc_in(2) [OF t x(2) s(1)] by simp
    then show False using s(2,4) by simp
  qed
  ultimately have "x = ?s" using x(1) by auto
  then show "anc r V par ?s w" using x(3) by simp
qed

text \<open>A dominator lies above the semidominator (Lemma 4).\<close>

lemma dominator_above_sdv:
  assumes t: "dfs_tree E r V par" and w: "w \<in> set V" "w \<noteq> r"
      and d: "dominates E r d w" "d \<noteq> w"
  shows "anc r V par d (sdv E V w)"
proof -
  note s = sd_facts [OF t w]
  let ?s = "sdv E V w"
  obtain ys where ys: "path E (?s # ys @ [w])" "\<forall>y \<in> set ys. index_of V w < index_of V y"
    using s(3) unfolding sdpath_def by blast
  obtain xs where xs: "rpath E r xs ?s" "\<forall>y \<in> set xs. anc r V par y ?s"
    using tree_rpath [OF t s(1)] by blast
  have "path E (xs @ tl (?s # ys @ [w]))"
    using xs(1) ys(1) by (intro path_join) (simp_all add: rpath_def)
  then have "rpath E r (xs @ ys @ [w]) w"
    using xs(1) by (simp add: rpath_def path_def)
  then have "d \<in> set (xs @ ys @ [w])" using d(1) unfolding dominates_def by blast
  moreover have "d \<notin> set ys"
  proof
    assume "d \<in> set ys"
    then have "index_of V w < index_of V d" using ys(2) by simp
    then show False using anc_in(2) [OF t dominates_anc [OF t d(1) w(1)] w(1)] by simp
  qed
  ultimately have "d \<in> set xs" using d(2) by auto
  then show ?thesis using xs(2) by simp
qed

text \<open>Lemma 5.\<close>

lemma idom_descend:
  assumes t: "dfs_tree E r V par" and w: "w \<in> set V" "w \<noteq> r"
      and vw: "anc r V par v w" and nv: "\<not> anc r V par v (idom E r V w)"
  shows "dominates E r (idom E r V w) v" "idom E r V w \<noteq> v"
proof -
  let ?i = "idom E r V w"
  note i = idom_facts [OF t w] idom_anc [OF t w]
  show ne: "?i \<noteq> v" using nv by auto
  have vV: "v \<in> set V" using anc_in(1) [OF t vw w(1)] .
  obtain ts where ts: "path E ts" "hd ts = v" "last ts = w" "\<forall>y \<in> set ts. anc r V par v y"
    using tree_path [OF t vw w(1)] by blast
  show "dominates E r ?i v"
    unfolding dominates_def
  proof (intro allI impI)
    fix xs assume p: "rpath E r xs v"
    have j: "path E (xs @ tl ts)" using p ts(1,2) by (intro path_join) (simp_all add: rpath_def)
    have nx: "xs \<noteq> []" using p by (simp add: rpath_def path_def)
    have "last (xs @ tl ts) = w"
    proof (cases "tl ts = []")
      case True
      then have "ts = [v]" using ts(1,2) by (cases ts) (auto simp: path_def)
      then show ?thesis using True p ts(3) by (simp add: rpath_def)
    next
      case False
      then show ?thesis using ts(3) by (simp add: last_tl)
    qed
    then have "rpath E r (xs @ tl ts) w" using j p nx by (simp add: rpath_def)
    then have "?i \<in> set (xs @ tl ts)" using i(2) unfolding dominates_def by blast
    moreover have "?i \<notin> set (tl ts)"
    proof
      assume "?i \<in> set (tl ts)"
      then have "?i \<in> set ts" by (rule list.set_sel(2) [rotated]) (use ts(1) in \<open>simp add: path_def\<close>)
      then show False using ts(4) nv by simp
    qed
    ultimately show "?i \<in> set xs" by simp
  qed
qed

lemma idom_above:
  assumes t: "dfs_tree E r V par" and w: "w \<in> set V" "w \<noteq> r"
      and vw: "anc r V par v w" and nv: "\<not> anc r V par v (idom E r V w)"
  shows "index_of V (idom E r V w) \<le> index_of V (idom E r V v)"
proof -
  note d = idom_descend [OF t w vw nv]
  have vV: "v \<in> set V" using anc_in(1) [OF t vw w(1)] .
  have "v \<noteq> r"
  proof
    assume "v = r"
    then have "anc r V par (idom E r V w) r" using dominates_anc [OF t d(1) vV] by simp
    then have "index_of V (idom E r V w) \<le> 0"
      using anc_in(2) [OF t _ dfs_tree_facts(2) [OF t]] dfs_tree_facts(3) [OF t] by simp
    then have "idom E r V w = r"
      using index_of_inj [OF idom_facts(3) [OF t w] dfs_tree_facts(2) [OF t]]
        dfs_tree_facts(3) [OF t] by simp
    then show False using nv \<open>v = r\<close> by simp
  qed
  then show ?thesis using idom_facts(4) [OF t vV _ d(2) d(1)] by simp
qed

text \<open>
  On a walk that ends in \<open>y\<close> and on which no vertex but \<open>y\<close> is an ancestor of \<open>y\<close>, all
  vertices are numbered above \<open>y\<close>.
\<close>

lemma walk_above_end:
  assumes t: "dfs_tree E r V par" and p: "path E (zs @ [y])" and zV: "set zs \<subseteq> set V"
      and yV: "y \<in> set V"
      and none: "\<And>c. c \<in> set zs \<Longrightarrow> anc r V par c y \<Longrightarrow> False"
  shows "\<forall>z \<in> set zs. index_of V y < index_of V z"
proof (rule ccontr)
  assume "\<not> (\<forall>z \<in> set zs. index_of V y < index_of V z)"
  then obtain z where z: "z \<in> set zs" "index_of V z \<le> index_of V y" by force
  obtain a b where ab: "zs = a @ z # b" using z(1) by (auto simp: in_set_conv_decomp)
  have pz: "path E (z # b @ [y])" using p ab path_suffix [of E a "z # b @ [y]"] by simp
  have zV': "z \<in> set V" using zV z(1) by auto
  have hl: "hd (z # b @ [y]) = z" "last (z # b @ [y]) = y" by simp_all
  obtain c where c: "c \<in> set (z # b @ [y])" "anc r V par c z" "anc r V par c y"
    using path_lemma [OF t pz hl zV' z(2)] by blast
  show False
  proof (cases "c = y")
    case True
    then have "index_of V y \<le> index_of V z" using anc_in(2) [OF t c(2) zV'] by simp
    then have "z = y" using z(2) index_of_inj [OF zV' yV] by simp
    then show False using none [OF z(1)] by simp
  next
    case False
    then have "c \<in> set zs" using c(1) ab by auto
    then show False using none c(3) by blast
  qed
qed

lemma sdn_walk:
  assumes t: "dfs_tree E r V par" and p: "path E (x # zs @ [y])" and xV: "x \<in> set V"
      and none: "\<And>c. c \<in> set zs \<Longrightarrow> anc r V par c y \<Longrightarrow> False"
  shows "sdn E V y \<le> index_of V x"
proof -
  have sub: "set (zs @ [y]) \<subseteq> set V" using sdpath_in [OF t p xV] .
  have pz: "path E (zs @ [y])" using p path_suffix [of E "[x]" "zs @ [y]"] by simp
  have "\<forall>z \<in> set zs. index_of V y < index_of V z"
  proof (rule walk_above_end [OF t pz])
    show "set zs \<subseteq> set V" "y \<in> set V" using sub by auto
    show "\<And>c. c \<in> set zs \<Longrightarrow> anc r V par c y \<Longrightarrow> False" by (rule none)
  qed
  then have "sdpath E V y x" using p unfolding sdpath_def by blast
  then show ?thesis using sdn_le [OF xV] by simp
qed

text \<open>
  A walk from the root to \<open>w\<close> passes an ancestor \<open>b\<close> of \<open>w\<close>, or it enters the tree
  path from \<open>b\<close> to \<open>w\<close> at a vertex whose semidominator is above \<open>b\<close>.
\<close>

lemma first_entry:
  assumes t: "dfs_tree E r V par" and w: "w \<in> set V" and bw: "anc r V par b w"
      and p: "rpath E r p w"
  shows "b \<in> set p \<or>
         (\<exists>y. anc r V par b y \<and> y \<noteq> b \<and> anc r V par y w \<and> sdn E V y < index_of V b)"
proof -
  have bV: "b \<in> set V" and bw': "index_of V b \<le> index_of V w" using anc_in [OF t bw w] by simp_all
  have pV: "set p \<subseteq> set V" using rpath_in(1) [OF t p] .
  have pp: "path E p" "hd p = r" "last p = w" "p \<noteq> []" using p by (auto simp: rpath_def path_def)
  show ?thesis
  proof (cases "\<exists>x \<in> set p. index_of V x < index_of V b")
    case False
    have "r \<in> set p" using pp(2,4) hd_in_set by fastforce
    then have "index_of V b = 0" using False dfs_tree_facts(3) [OF t] by force
    then have "b = r" using index_of_inj [OF bV dfs_tree_facts(2) [OF t]] dfs_tree_facts(3) [OF t]
      by simp
    then show ?thesis using \<open>r \<in> set p\<close> by simp
  next
    case True
    from split_list_last_prop [OF True] obtain ys x zs where
      s1: "p = ys @ x # zs" "index_of V x < index_of V b"
          "\<forall>z \<in> set zs. \<not> index_of V z < index_of V b"
      by blast
    have xV: "x \<in> set V" using pV s1(1) by auto
    have "zs \<noteq> []"
    proof
      assume "zs = []"
      then have "x = w" using pp(3) s1(1) by simp
      then show False using s1(2) bw' by simp
    qed
    then have lz: "last zs = w" using pp(3) s1(1) by simp
    then have wz: "w \<in> set zs" using \<open>zs \<noteq> []\<close> last_in_set by fastforce
    have "\<exists>z \<in> set zs. anc r V par b z \<and> anc r V par z w" using wz bw by auto
    from split_list_first_prop [OF this] obtain zs1 y zs2 where
      s2: "zs = zs1 @ y # zs2" "anc r V par b y" "anc r V par y w"
          "\<forall>z \<in> set zs1. \<not> (anc r V par b z \<and> anc r V par z w)"
      by blast
    have yV: "y \<in> set V" using anc_in(1) [OF t s2(3) w] .
    have px: "path E (x # zs1 @ [y])"
    proof -
      have "path E (x # zs)" using pp(1) s1(1) path_suffix [of E ys "x # zs"] by simp
      then have "path E ((x # zs1 @ [y]) @ zs2)" using s2(1) by simp
      then show ?thesis by (rule path_prefix) simp
    qed
    have none: "False" if c: "c \<in> set zs1" "anc r V par c y" for c
    proof -
      have cV: "c \<in> set V" using anc_in(1) [OF t c(2) yV] .
      have le: "index_of V b \<le> index_of V c" using s1(3) s2(1) c(1) by force
      have "anc r V par b c"
      proof -
        from anc_linear [OF t yV c(2) s2(2)] show ?thesis
        proof
          assume cb: "anc r V par c b"
          then have "index_of V c \<le> index_of V b" using anc_in(2) [OF t cb bV] by simp
          then have "c = b" using le index_of_inj [OF cV bV] by simp
          then show ?thesis by simp
        qed simp
      qed
      moreover have "anc r V par c w" using c(2) s2(3) by (rule anc_trans)
      ultimately show False using s2(4) c(1) by blast
    qed
    have "sdn E V y \<le> index_of V x" by (rule sdn_walk [OF t px xV none])
    then have "sdn E V y < index_of V b" using s1(2) by simp
    moreover have "y \<in> set p" using s1(1) s2(1) by simp
    ultimately show ?thesis using s2(2,3) by (cases "y = b") auto
  qed
qed

text \<open>Theorem 2 of Lengauer and Tarjan.\<close>

lemma idom_is_sdv:
  assumes t: "dfs_tree E r V par" and w: "w \<in> set V" "w \<noteq> r"
      and min: "\<And>y. anc r V par (sdv E V w) y \<Longrightarrow> y \<noteq> sdv E V w \<Longrightarrow> anc r V par y w \<Longrightarrow>
                  sdn E V w \<le> sdn E V y"
  shows "idom E r V w = sdv E V w"
proof -
  let ?s = "sdv E V w"
  note s = sd_facts [OF t w] sdv_anc [OF t w]
  note i = idom_facts [OF t w]
  have dom: "dominates E r ?s w"
    unfolding dominates_def
  proof (intro allI impI)
    fix p assume p: "rpath E r p w"
    from first_entry [OF t w(1) s(5) p] show "?s \<in> set p"
    proof
      assume "\<exists>y. anc r V par ?s y \<and> y \<noteq> ?s \<and> anc r V par y w \<and> sdn E V y < index_of V ?s"
      then obtain y where y: "anc r V par ?s y" "y \<noteq> ?s" "anc r V par y w"
          "sdn E V y < index_of V ?s" by blast
      then show ?thesis using min [OF y(1,2,3)] s(2) by simp
    qed simp
  qed
  have 1: "index_of V ?s \<le> index_of V (idom E r V w)" using i(4) [OF s(6) dom] .
  have "anc r V par (idom E r V w) ?s" by (rule dominator_above_sdv [OF t w i(2,1)])
  then have 2: "index_of V (idom E r V w) \<le> index_of V ?s" using anc_in(2) [OF t _ s(1)] by simp
  show ?thesis using 1 2 index_of_inj [OF i(3) s(1)] by simp
qed

text \<open>Theorem 3 of Lengauer and Tarjan.\<close>

lemma idom_relative:
  assumes t: "dfs_tree E r V par" and w: "w \<in> set V" "w \<noteq> r"
      and u: "anc r V par (sdv E V w) u" "u \<noteq> sdv E V w" "anc r V par u w"
      and min: "\<And>y. anc r V par (sdv E V w) y \<Longrightarrow> y \<noteq> sdv E V w \<Longrightarrow> anc r V par y w \<Longrightarrow>
                  sdn E V u \<le> sdn E V y"
  shows "idom E r V u = idom E r V w"
proof -
  let ?s = "sdv E V w" and ?iu = "idom E r V u" and ?iw = "idom E r V w"
  note s = sd_facts [OF t w] sdv_anc [OF t w]
  have uV: "u \<in> set V" using anc_in(1) [OF t u(3) w(1)] .
  have su: "index_of V ?s < index_of V u" using anc_strict [OF t u(1) uV] u(2) by simp
  have ur: "u \<noteq> r" using su dfs_tree_facts(3) [OF t] by auto
  note iu = idom_facts [OF t uV ur] idom_anc [OF t uV ur]
  note iw = idom_facts [OF t w] idom_anc [OF t w]
  note su' = sd_facts [OF t uV ur]
  have iuw: "anc r V par ?iu w" using iu(5) u(3) by (rule anc_trans)
  have iu_sd: "index_of V ?iu \<le> sdn E V u"
    using anc_in(2) [OF t dominator_above_sdv [OF t uV ur iu(2,1)] su'(1)] su'(2) by simp
  have dom: "dominates E r ?iu w"
    unfolding dominates_def
  proof (intro allI impI)
    fix p assume p: "rpath E r p w"
    from first_entry [OF t w(1) iuw p] show "?iu \<in> set p"
    proof
      assume "\<exists>y. anc r V par ?iu y \<and> y \<noteq> ?iu \<and> anc r V par y w \<and> sdn E V y < index_of V ?iu"
      then obtain y where y: "anc r V par ?iu y" "y \<noteq> ?iu" "anc r V par y w"
          "sdn E V y < index_of V ?iu" by blast
      have yV: "y \<in> set V" using anc_in(1) [OF t y(3) w(1)] .
      have iy: "index_of V ?iu < index_of V y" using anc_strict [OF t y(1) yV] y(2) by simp
      have yr: "y \<noteq> r" using iy dfs_tree_facts(3) [OF t] by auto
      note sy = sd_facts [OF t yV yr]
      have lt: "sdn E V y < sdn E V u" using y(4) iu_sd by simp
      have ys: "anc r V par y ?s"
      proof -
        from anc_linear [OF t w(1) s(5) y(3)] show ?thesis
        proof
          assume a: "anc r V par ?s y"
          have "y = ?s"
          proof (rule ccontr)
            assume "y \<noteq> ?s"
            from min [OF a this y(3)] lt show False by simp
          qed
          then show ?thesis by simp
        qed simp
      qed
      have yu: "anc r V par y u" using ys u(1) by (rule anc_trans)
      obtain xs where xs: "rpath E r xs (sdv E V y)" "\<forall>z \<in> set xs. anc r V par z (sdv E V y)"
        using tree_rpath [OF t sy(1)] by blast
      obtain ys where ysp: "path E (sdv E V y # ys @ [y])"
          "\<forall>z \<in> set ys. index_of V y < index_of V z"
        using sy(3) unfolding sdpath_def by blast
      obtain ts where ts: "path E ts" "hd ts = y" "last ts = u" "\<forall>z \<in> set ts. anc r V par y z"
        using tree_path [OF t yu uV] by blast
      have p1: "path E (xs @ ys @ [y])"
        using path_join [of E xs "sdv E V y # ys @ [y]"] xs(1) ysp(1) by (simp add: rpath_def)
      have p2: "path E ((xs @ ys @ [y]) @ tl ts)"
        using p1 ts(1,2) by (intro path_join) simp_all
      have tsne: "ts \<noteq> []" using ts(1) by (simp add: path_def)
      have seteq: "set ((xs @ ys @ [y]) @ tl ts) = set xs \<union> set ys \<union> set ts"
      proof -
        have "ts = y # tl ts" using ts(2) tsne by (cases ts) auto
        then have "set ts = insert y (set (tl ts))" by (metis list.simps(15))
        then show ?thesis by auto
      qed
      have lastu: "last ((xs @ ys @ [y]) @ tl ts) = u"
      proof (cases "tl ts = []")
        case True
        then have "ts = [y]" using ts(2) tsne by (cases ts) auto
        then show ?thesis using True ts(3) by simp
      next
        case False
        then show ?thesis using ts(3) by (simp add: last_tl)
      qed
      have "xs \<noteq> []" "hd xs = r" using xs(1) by (auto simp: rpath_def path_def)
      then have "rpath E r ((xs @ ys @ [y]) @ tl ts) u" using p2 lastu by (simp add: rpath_def)
      then have "?iu \<in> set xs \<union> set ys \<union> set ts"
        using iu(2) seteq unfolding dominates_def by blast
      moreover have "?iu \<notin> set xs"
      proof
        assume "?iu \<in> set xs"
        then have "index_of V ?iu \<le> sdn E V y"
          using xs(2) anc_in(2) [OF t _ sy(1)] sy(2) by auto
        then show False using y(4) by simp
      qed
      moreover have "?iu \<notin> set ys" using ysp(2) iy by auto
      moreover have "?iu \<notin> set ts"
      proof
        assume "?iu \<in> set ts"
        then have "index_of V y \<le> index_of V ?iu" using ts(4) anc_in(2) [OF t _ iu(3)] by auto
        then show False using iy by simp
      qed
      ultimately show ?thesis by blast
    qed simp
  qed
  have "?iu \<noteq> w" using iu(6) anc_in(2) [OF t u(3) w(1)] by auto
  then have 1: "index_of V ?iu \<le> index_of V ?iw" using iw(4) dom by simp
  have "\<not> anc r V par u ?iw"
  proof
    assume a: "anc r V par u ?iw"
    have "index_of V ?iw \<le> index_of V ?s"
      using anc_in(2) [OF t dominator_above_sdv [OF t w iw(2,1)] s(1)] .
    moreover have "index_of V u \<le> index_of V ?iw" using anc_in(2) [OF t a iw(3)] .
    ultimately show False using su by simp
  qed
  then have 2: "index_of V ?iw \<le> index_of V ?iu" by (rule idom_above [OF t w u(3)])
  show ?thesis using 1 2 index_of_inj [OF iu(3) iw(3)] by simp
qed

text \<open>Theorem 4 of Lengauer and Tarjan: how the semidominator is computed.\<close>

lemma sdn_edge:
  assumes "v \<in> set V" "E v w"
  shows "sdn E V w \<le> index_of V v"
  using sdn_le [OF assms(1) sdpath_edge [of E v w V, OF assms(2)]] .

lemma sdn_via:
  assumes t: "dfs_tree E r V par" and v: "v \<in> set V" "E v w"
      and u: "anc r V par u v" "index_of V w < index_of V u"
  shows "sdn E V w \<le> sdn E V u"
proof -
  have uV: "u \<in> set V" using anc_in(1) [OF t u(1) v(1)] .
  have ur: "u \<noteq> r" using u(2) dfs_tree_facts(3) [OF t] by auto
  note su = sd_facts [OF t uV ur]
  obtain ys where ys: "path E (sdv E V u # ys @ [u])"
      "\<forall>z \<in> set ys. index_of V u < index_of V z"
    using su(3) unfolding sdpath_def by blast
  obtain ts where ts: "path E ts" "hd ts = u" "last ts = v" "\<forall>z \<in> set ts. anc r V par u z"
    using tree_path [OF t u(1) v(1)] by blast
  have tsne: "ts \<noteq> []" using ts(1) by (simp add: path_def)
  have tseq: "ts = u # tl ts" using ts(2) tsne by (cases ts) auto
  have "path E ((sdv E V u # ys @ [u]) @ tl ts)"
    using ys(1) ts(1,2) by (intro path_join) simp_all
  then have p1: "path E (sdv E V u # ys @ ts)" using tseq by (metis append.assoc append_Cons append_Nil)
  have "path E ((sdv E V u # ys @ ts) @ [w])"
    using p1 v(2) ts(3) tsne by (intro path_append) simp_all
  then have p2: "path E (sdv E V u # (ys @ ts) @ [w])" by simp
  have "\<forall>z \<in> set (ys @ ts). index_of V w < index_of V z"
  proof
    fix z assume "z \<in> set (ys @ ts)"
    then consider "z \<in> set ys" | "z \<in> set ts" by auto
    then show "index_of V w < index_of V z"
    proof cases
      case 1
      then show ?thesis using ys(2) u(2) by force
    next
      case 2
      then have a: "anc r V par u z" using ts(4) by simp
      have "set ts \<subseteq> set V"
        using path_closed [of "set V" E ts] dfs_tree_facts(6) [OF t] ts(1,2) uV by blast
      then have "index_of V u \<le> index_of V z" using anc_in(2) [OF t a] 2 by auto
      then show ?thesis using u(2) by simp
    qed
  qed
  then have "sdpath E V w (sdv E V u)" using p2 unfolding sdpath_def by blast
  then show ?thesis using sdn_le [OF su(1)] su(2) by simp
qed

lemma sdn_attained:
  assumes t: "dfs_tree E r V par" and w: "w \<in> set V" "w \<noteq> r"
  shows "(\<exists>v \<in> set V. E v w \<and> index_of V v < index_of V w \<and> index_of V v = sdn E V w) \<or>
         (\<exists>u \<in> set V. \<exists>v \<in> set V. E v w \<and> anc r V par u v \<and> index_of V w < index_of V u \<and>
             sdn E V u \<le> sdn E V w)"
proof -
  let ?s = "sdv E V w"
  note s = sd_facts [OF t w]
  obtain ys where ys: "path E (?s # ys @ [w])" "\<forall>y \<in> set ys. index_of V w < index_of V y"
    using s(3) unfolding sdpath_def by blast
  show ?thesis
  proof (cases "ys = []")
    case True
    then have "E ?s w" using ys(1) by (simp add: path_Cons)
    then show ?thesis using s(1,2,4) by auto
  next
    case False
    then obtain ys' v where yv: "ys = ys' @ [v]" by (cases ys rule: rev_cases) auto
    have sub: "set (ys @ [w]) \<subseteq> set V" using sdpath_in [OF t ys(1) s(1)] .
    have vV: "v \<in> set V" using sub yv by auto
    have "path E ((?s # ys') @ [v, w])" using ys(1) yv by simp
    then have "path E [v, w]" by (rule path_suffix) simp
    then have e: "E v w" by (simp add: path_Cons)
    have "\<exists>z \<in> set ys. anc r V par z v" using yv by auto
    from split_list_first_prop [OF this] obtain ys1 u ys2 where
      sp: "ys = ys1 @ u # ys2" "anc r V par u v" "\<forall>z \<in> set ys1. \<not> anc r V par z v"
      by blast
    have uV: "u \<in> set V" using sub sp(1) by auto
    have "path E ((?s # ys1 @ [u]) @ (ys2 @ [w]))" using ys(1) sp(1) by simp
    then have pu: "path E (?s # ys1 @ [u])" by (rule path_prefix) simp
    have none: "False" if "c \<in> set ys1" "anc r V par c u" for c
      using sp(3) that(1) anc_trans [OF that(2) sp(2)] by blast
    have "sdn E V u \<le> index_of V ?s" by (rule sdn_walk [OF t pu s(1) none])
    then have "sdn E V u \<le> sdn E V w" using s(2) by simp
    moreover have "index_of V w < index_of V u" using ys(2) sp(1) by simp
    ultimately show ?thesis using uV vV e sp(2) by blast
  qed
qed

section \<open>Proofs: the dominator tree is correct\<close>

subsection \<open>The link-eval forest\<close>

text \<open>
  The ancestors of \<open>x\<close> below \<open>a\<close>. At the time the vertices numbered from \<open>k\<close> on are
  linked, the ancestor entry of a linked vertex \<open>x\<close> is a proper ancestor \<open>a\<close> with all of
  \<open>seg a x\<close> linked, and its label has the least semidominator in \<open>seg a x\<close>; the \<open>semi\<close>
  entry of a linked vertex is final.
\<close>

definition seg :: "'a \<Rightarrow> 'a list \<Rightarrow> ('a \<Rightarrow> 'a) \<Rightarrow> 'a \<Rightarrow> 'a \<Rightarrow> 'a set" where
  "seg r V par a x = {y. anc r V par y x \<and> index_of V a < index_of V y}"

definition forest_inv ::
  "(int \<Rightarrow> int \<Rightarrow> bool) \<Rightarrow> int \<Rightarrow> int list \<Rightarrow> (int \<Rightarrow> int) \<Rightarrow> nat \<Rightarrow> nat \<Rightarrow>
   int list \<Rightarrow> int list \<Rightarrow> int list \<Rightarrow> bool" where
  "forest_inv E r V par n k semi ancestor label =
     (length semi = n \<and> length ancestor = n \<and> length label = n \<and>
      (\<forall>x \<in> set V. k \<le> index_of V x \<longrightarrow> semi ! nat x = int (sdn E V x) + 1) \<and>
      (\<forall>x \<in> set V. index_of V x < k \<longrightarrow> ancestor ! nat x = 0 \<and> label ! nat x = x) \<and>
      (\<forall>x \<in> set V. k \<le> index_of V x \<longrightarrow>
          ancestor ! nat x - 1 \<in> set V \<and> anc r V par (ancestor ! nat x - 1) x \<and>
          ancestor ! nat x - 1 \<noteq> x \<and>
          (\<forall>y \<in> seg r V par (ancestor ! nat x - 1) x. k \<le> index_of V y) \<and>
          label ! nat x \<in> seg r V par (ancestor ! nat x - 1) x \<and>
          (\<forall>y \<in> seg r V par (ancestor ! nat x - 1) x. sdn E V (label ! nat x) \<le> sdn E V y)))"

lemma forest_inv_lengths:
  assumes "forest_inv E r V par n k semi ancestor label"
  shows "length semi = n" "length ancestor = n" "length label = n"
  using assms unfolding forest_inv_def by blast+

lemma forest_inv_semi:
  assumes "forest_inv E r V par n k semi ancestor label" "x \<in> set V" "k \<le> index_of V x"
  shows "semi ! nat x = int (sdn E V x) + 1"
  using assms unfolding forest_inv_def by blast

lemma forest_inv_unlinked:
  assumes "forest_inv E r V par n k semi ancestor label" "x \<in> set V" "index_of V x < k"
  shows "ancestor ! nat x = 0" "label ! nat x = x"
  using assms unfolding forest_inv_def by blast+

lemma forest_inv_linked:
  assumes "forest_inv E r V par n k semi ancestor label" "x \<in> set V" "k \<le> index_of V x"
  shows "ancestor ! nat x - 1 \<in> set V" "anc r V par (ancestor ! nat x - 1) x"
    "ancestor ! nat x - 1 \<noteq> x"
    "\<And>y. y \<in> seg r V par (ancestor ! nat x - 1) x \<Longrightarrow> k \<le> index_of V y"
    "label ! nat x \<in> seg r V par (ancestor ! nat x - 1) x"
    "\<And>y. y \<in> seg r V par (ancestor ! nat x - 1) x \<Longrightarrow> sdn E V (label ! nat x) \<le> sdn E V y"
proof -
  have a: "ancestor ! nat x - 1 \<in> set V \<and> anc r V par (ancestor ! nat x - 1) x \<and>
          ancestor ! nat x - 1 \<noteq> x \<and>
          (\<forall>y \<in> seg r V par (ancestor ! nat x - 1) x. k \<le> index_of V y) \<and>
          label ! nat x \<in> seg r V par (ancestor ! nat x - 1) x \<and>
          (\<forall>y \<in> seg r V par (ancestor ! nat x - 1) x. sdn E V (label ! nat x) \<le> sdn E V y)"
    using assms unfolding forest_inv_def by blast
  show "ancestor ! nat x - 1 \<in> set V" "anc r V par (ancestor ! nat x - 1) x"
    "ancestor ! nat x - 1 \<noteq> x" "label ! nat x \<in> seg r V par (ancestor ! nat x - 1) x"
    using a by blast+
  show "\<And>y. y \<in> seg r V par (ancestor ! nat x - 1) x \<Longrightarrow> k \<le> index_of V y"
    using a by blast
  show "\<And>y. y \<in> seg r V par (ancestor ! nat x - 1) x \<Longrightarrow> sdn E V (label ! nat x) \<le> sdn E V y"
    using a by blast
qed

lemma forest_inv_ancestor_nonzero:
  assumes "forest_inv E r V par n k semi ancestor label" "x \<in> set V" "k \<le> index_of V x"
      and "set V \<subseteq> {0 .. int n - 1}"
  shows "ancestor ! nat x \<noteq> 0"
proof -
  have "0 \<le> ancestor ! nat x - 1" using forest_inv_linked(1) [OF assms(1,2,3)] assms(4) by auto
  then show ?thesis by simp
qed

text \<open>The ancestors of a vertex are ordered by their numbers.\<close>

lemma anc_by_index:
  assumes t: "dfs_tree E r V par" and x: "x \<in> set V"
      and a: "anc r V par a x" and b: "anc r V par b x" and le: "index_of V a \<le> index_of V b"
  shows "anc r V par a b"
proof -
  from anc_linear [OF t x a b] show ?thesis
  proof
    assume ba: "anc r V par b a"
    have aV: "a \<in> set V" and bV: "b \<in> set V" using anc_in(1) [OF t _ x] a b by simp_all
    have "index_of V b \<le> index_of V a" using anc_in(2) [OF t ba aV] .
    then have "a = b" using le index_of_inj [OF aV bV] by simp
    then show ?thesis by simp
  qed simp
qed

lemma seg_union:
  assumes t: "dfs_tree E r V par" and x: "x \<in> set V"
      and ab: "anc r V par a b" and bx: "anc r V par b x"
  shows "seg r V par a x = seg r V par a b \<union> seg r V par b x"
proof
  show "seg r V par a x \<subseteq> seg r V par a b \<union> seg r V par b x"
  proof
    fix y assume "y \<in> seg r V par a x"
    then have y: "anc r V par y x" "index_of V a < index_of V y" by (simp_all add: seg_def)
    show "y \<in> seg r V par a b \<union> seg r V par b x"
    proof (cases "index_of V b < index_of V y")
      case True
      then show ?thesis using y by (simp add: seg_def)
    next
      case False
      then have "anc r V par y b" using anc_by_index [OF t x y(1) bx] by simp
      then show ?thesis using y(2) by (simp add: seg_def)
    qed
  qed
next
  have bV: "b \<in> set V" using anc_in(1) [OF t bx x] .
  have "index_of V a \<le> index_of V b" using anc_in(2) [OF t ab bV] .
  then show "seg r V par a b \<union> seg r V par b x \<subseteq> seg r V par a x"
    using bx anc_trans [of r V par _ b x] by (auto simp: seg_def)
qed

text \<open>A list of vertices in which each ancestor entry points to the vertex before.\<close>

definition pointer_chain :: "int list \<Rightarrow> int list \<Rightarrow> bool" where
  "pointer_chain ancestor xs = successively (\<lambda>hi lo. ancestor ! nat lo = hi + 1) xs"

lemma pointer_chain_Cons:
  "pointer_chain ancestor (x # y # ys) = (ancestor ! nat y = x + 1 \<and> pointer_chain ancestor (y # ys))"
  by (simp add: pointer_chain_def)

lemma pointer_chain_single [simp]: "pointer_chain ancestor [x]"
  by (simp add: pointer_chain_def)

lemma pointer_chain_update:
  "pointer_chain ancestor (x # rest) \<Longrightarrow> \<forall>y \<in> set rest. nat y \<noteq> nat p \<Longrightarrow>
   pointer_chain (ancestor[nat p := v]) (x # rest)"
proof (induction rest arbitrary: x)
  case Nil
  then show ?case by simp
next
  case (Cons y rest)
  then show ?case by (simp add: pointer_chain_Cons)
qed

lemma vertex_nat:
  assumes "set V \<subseteq> {0 .. int n - 1}" "x \<in> set V"
  shows "0 \<le> x" "nat x < n"
proof -
  have "x \<in> {0 .. int n - 1}" using assms by blast
  then have "0 \<le> x" "x \<le> int n - 1" by simp_all
  then show "0 \<le> x" "nat x < n" by linarith+
qed

lemma vertex_nat_neq:
  assumes "set V \<subseteq> {0 .. int n - 1}" "x \<in> set V" "y \<in> set V" "x \<noteq> y"
  shows "nat x \<noteq> nat y"
  using vertex_nat(1) [OF assms(1,2)] vertex_nat(1) [OF assms(1,3)] assms(4) by linarith

lemma dominator_COMPRESS_climb_spec:
  assumes t: "dfs_tree E r V par" and vr: "set V \<subseteq> {0 .. int n - 1}"
      and fi: "forest_inv E r V par n k semi ancestor label"
  shows "w \<in> set V \<Longrightarrow> pointer_chain ancestor (w # pth) \<Longrightarrow>
         \<forall>x \<in> set pth. x \<in> set V \<and> k \<le> index_of V x \<Longrightarrow>
         sorted_wrt (\<lambda>a b. index_of V a < index_of V b) (w # pth) \<Longrightarrow>
         \<exists>res \<rho>. dominator_COMPRESS_climb ancestor w pth = Some res \<and>
            \<rho> \<in> set V \<and> index_of V \<rho> < k \<and> pointer_chain ancestor (\<rho> # res) \<and>
            (\<forall>x \<in> set res. x \<in> set V \<and> k \<le> index_of V x) \<and>
            sorted_wrt (\<lambda>a b. index_of V a < index_of V b) (\<rho> # res) \<and>
            (k \<le> index_of V w \<longrightarrow> (\<exists>pre. res = pre @ w # pth)) \<and>
            (index_of V w < k \<longrightarrow> res = pth)"
proof (induction w arbitrary: pth rule: measure_induct_rule [where f = "index_of V"])
  case (less w)
  show ?case
  proof (cases "k \<le> index_of V w")
    case False
    then have "ancestor ! nat w = 0" using forest_inv_unlinked(1) [OF fi less.prems(1)] by simp
    then have c: "dominator_COMPRESS_climb ancestor w pth = Some pth"
      by (subst dominator_COMPRESS_climb.simps) simp
    have lt: "index_of V w < k" using False by simp
    show ?thesis
    proof (intro exI conjI)
      show "dominator_COMPRESS_climb ancestor w pth = Some pth" by (rule c)
      show "w \<in> set V" by (rule less.prems(1))
      show "index_of V w < k" by (rule lt)
      show "pointer_chain ancestor (w # pth)" by (rule less.prems(2))
      show "\<forall>x \<in> set pth. x \<in> set V \<and> k \<le> index_of V x" by (rule less.prems(3))
      show "sorted_wrt (\<lambda>a b. index_of V a < index_of V b) (w # pth)" by (rule less.prems(4))
      show "k \<le> index_of V w \<longrightarrow> (\<exists>pre. pth = pre @ w # pth)" using lt by simp
      show "index_of V w < k \<longrightarrow> pth = pth" by simp
    qed
  next
    case True
    let ?a = "ancestor ! nat w - 1"
    note l = forest_inv_linked [OF fi less.prems(1) True]
    have nz: "ancestor ! nat w \<noteq> 0"
      by (rule forest_inv_ancestor_nonzero [OF fi less.prems(1) True vr])
    have lt: "index_of V ?a < index_of V w" using anc_strict [OF t l(2) less.prems(1) l(3)] .
    have ch: "pointer_chain ancestor (?a # w # pth)"
      using less.prems(2) by (simp add: pointer_chain_Cons)
    have lk: "\<forall>x \<in> set (w # pth). x \<in> set V \<and> k \<le> index_of V x"
      using less.prems(1,3) True by simp
    have so: "sorted_wrt (\<lambda>a b. index_of V a < index_of V b) (?a # w # pth)"
      using less.prems(4) lt by auto
    from less.IH [OF lt l(1) ch lk so] obtain res \<rho> where
      r: "dominator_COMPRESS_climb ancestor ?a (w # pth) = Some res"
         "\<rho> \<in> set V" "index_of V \<rho> < k" "pointer_chain ancestor (\<rho> # res)"
         "\<forall>x \<in> set res. x \<in> set V \<and> k \<le> index_of V x"
         "sorted_wrt (\<lambda>a b. index_of V a < index_of V b) (\<rho> # res)"
         "k \<le> index_of V ?a \<longrightarrow> (\<exists>pre. res = pre @ ?a # w # pth)"
         "index_of V ?a < k \<longrightarrow> res = w # pth"
      by (elim exE conjE)
    have pre: "\<exists>pre. res = pre @ w # pth"
    proof (cases "k \<le> index_of V ?a")
      case True
      then obtain pre where "res = pre @ ?a # w # pth" using r(7) by blast
      then have "res = (pre @ [?a]) @ w # pth" by simp
      then show ?thesis by (rule exI)
    next
      case False
      then have "res = [] @ w # pth" using r(8) by simp
      then show ?thesis by (rule exI)
    qed
    have c: "dominator_COMPRESS_climb ancestor w pth = Some res"
      using r(1) nz by (subst dominator_COMPRESS_climb.simps) simp
    show ?thesis
    proof (intro exI conjI)
      show "dominator_COMPRESS_climb ancestor w pth = Some res" by (rule c)
      show "\<rho> \<in> set V" by (rule r(2))
      show "index_of V \<rho> < k" by (rule r(3))
      show "pointer_chain ancestor (\<rho> # res)" by (rule r(4))
      show "\<forall>x \<in> set res. x \<in> set V \<and> k \<le> index_of V x" by (rule r(5))
      show "sorted_wrt (\<lambda>a b. index_of V a < index_of V b) (\<rho> # res)" by (rule r(6))
      show "k \<le> index_of V w \<longrightarrow> (\<exists>pre. res = pre @ w # pth)" using pre by simp
      show "index_of V w < k \<longrightarrow> res = pth" using True by simp
    qed
  qed
qed

text \<open>One step of the path compression: the entry of \<open>p\<close> moves from \<open>tp\<close> up to \<open>\<rho>\<close>.\<close>

lemma compress_step:
  assumes t: "dfs_tree E r V par" and vr: "set V \<subseteq> {0 .. int n - 1}"
      and fi: "forest_inv E r V par n k semi ancestor label"
      and rho: "\<rho> \<in> set V" "index_of V \<rho> < k"
      and tp: "tp \<in> set V" "k \<le> index_of V tp" "ancestor ! nat tp = \<rho> + 1"
      and p: "p \<in> set V" "k \<le> index_of V p" "ancestor ! nat p = tp + 1"
  shows "forest_inv E r V par n k semi (ancestor[nat p := ancestor ! nat tp])
           (if semi ! nat (label ! nat tp) < semi ! nat (label ! nat p)
            then label[nat p := label ! nat tp] else label)"
proof -
  let ?lt = "label ! nat tp" and ?lp = "label ! nat p"
  let ?anc' = "ancestor[nat p := ancestor ! nat tp]"
  let ?lab' = "if semi ! nat ?lt < semi ! nat ?lp then label[nat p := ?lt] else label"
  note len = forest_inv_lengths [OF fi]
  note ft = forest_inv_linked [OF fi tp(1,2)]
  note fp = forest_inv_linked [OF fi p(1,2)]
  have at: "ancestor ! nat tp - 1 = \<rho>" using tp(3) by simp
  have ap: "ancestor ! nat p - 1 = tp" using p(3) by simp
  have rt: "anc r V par \<rho> tp" using ft(2) at by simp
  have tpp: "anc r V par tp p" using fp(2) ap by simp
  have rp: "anc r V par \<rho> p" using rt tpp by (rule anc_trans)
  have un: "seg r V par \<rho> p = seg r V par \<rho> tp \<union> seg r V par tp p"
    by (rule seg_union [OF t p(1) rt tpp])
  have lt: "?lt \<in> seg r V par \<rho> tp" using ft(5) at by simp
  have lp: "?lp \<in> seg r V par tp p" using fp(5) ap by simp
  have ltV: "?lt \<in> set V" "k \<le> index_of V ?lt"
    using lt anc_in(1) [OF t _ tp(1)] ft(4) at by (auto simp: seg_def)
  have lpV: "?lp \<in> set V" "k \<le> index_of V ?lp"
    using lp anc_in(1) [OF t _ p(1)] fp(4) ap by (auto simp: seg_def)
  have st: "semi ! nat ?lt = int (sdn E V ?lt) + 1" by (rule forest_inv_semi [OF fi ltV])
  have sp: "semi ! nat ?lp = int (sdn E V ?lp) + 1" by (rule forest_inv_semi [OF fi lpV])
  have np: "nat p < n" using vertex_nat [OF vr p(1)] by simp
  have lab_p: "?lab' ! nat p = (if sdn E V ?lt < sdn E V ?lp then ?lt else ?lp)"
    using st sp np len by simp
  have anc_p: "?anc' ! nat p = \<rho> + 1" using np len tp(3) by simp
  have other: "?anc' ! nat x = ancestor ! nat x" "?lab' ! nat x = label ! nat x"
    if "x \<in> set V" "x \<noteq> p" for x
    using vertex_nat_neq [OF vr that(1) p(1) that(2)] by simp_all
  have min_t: "\<And>y. y \<in> seg r V par \<rho> tp \<Longrightarrow> sdn E V ?lt \<le> sdn E V y"
    using ft(6) at by simp
  have min_p: "\<And>y. y \<in> seg r V par tp p \<Longrightarrow> sdn E V ?lp \<le> sdn E V y"
    using fp(6) ap by simp
  have lk_t: "\<And>y. y \<in> seg r V par \<rho> tp \<Longrightarrow> k \<le> index_of V y" using ft(4) at by simp
  have lk_p: "\<And>y. y \<in> seg r V par tp p \<Longrightarrow> k \<le> index_of V y" using fp(4) ap by simp
  have new_p: "?anc' ! nat p - 1 \<in> set V \<and> anc r V par (?anc' ! nat p - 1) p \<and>
          ?anc' ! nat p - 1 \<noteq> p \<and>
          (\<forall>y \<in> seg r V par (?anc' ! nat p - 1) p. k \<le> index_of V y) \<and>
          ?lab' ! nat p \<in> seg r V par (?anc' ! nat p - 1) p \<and>
          (\<forall>y \<in> seg r V par (?anc' ! nat p - 1) p. sdn E V (?lab' ! nat p) \<le> sdn E V y)"
  proof -
    have e: "?anc' ! nat p - 1 = \<rho>" using anc_p by simp
    have 1: "\<rho> \<noteq> p" using rho(2) p(2) by auto
    have 2: "\<forall>y \<in> seg r V par \<rho> p. k \<le> index_of V y" unfolding un using lk_t lk_p by blast
    have 3: "?lab' ! nat p \<in> seg r V par \<rho> p" unfolding un lab_p using lt lp by simp
    have 4: "\<forall>y \<in> seg r V par \<rho> p. sdn E V (?lab' ! nat p) \<le> sdn E V y"
    proof
      fix y assume "y \<in> seg r V par \<rho> p"
      then consider "y \<in> seg r V par \<rho> tp" | "y \<in> seg r V par tp p" unfolding un by blast
      then show "sdn E V (?lab' ! nat p) \<le> sdn E V y"
      proof cases
        case 1
        then show ?thesis unfolding lab_p using min_t [OF 1] by auto
      next
        case 2
        then show ?thesis unfolding lab_p using min_p [OF 2] by auto
      qed
    qed
    show ?thesis unfolding e using rho(1) rp 1 2 3 4 by blast
  qed
  show ?thesis
    unfolding forest_inv_def
  proof (intro conjI ballI impI)
    show "length semi = n" by (rule len(1))
    show "length ?anc' = n" using len(2) by simp
    show "length ?lab' = n" using len(3) by simp
  next
    fix x assume "x \<in> set V" "k \<le> index_of V x"
    then show "semi ! nat x = int (sdn E V x) + 1" by (rule forest_inv_semi [OF fi])
  next
    fix x assume x: "x \<in> set V" "index_of V x < k"
    then have "x \<noteq> p" using p(2) by auto
    then show "?anc' ! nat x = 0" "?lab' ! nat x = x"
      using other [OF x(1)] forest_inv_unlinked [OF fi x] by simp_all
  next
    fix x assume x: "x \<in> set V" "k \<le> index_of V x"
    note fx = forest_inv_linked [OF fi x]
    have all: "?anc' ! nat x - 1 \<in> set V \<and> anc r V par (?anc' ! nat x - 1) x \<and>
          ?anc' ! nat x - 1 \<noteq> x \<and>
          (\<forall>y \<in> seg r V par (?anc' ! nat x - 1) x. k \<le> index_of V y) \<and>
          ?lab' ! nat x \<in> seg r V par (?anc' ! nat x - 1) x \<and>
          (\<forall>y \<in> seg r V par (?anc' ! nat x - 1) x. sdn E V (?lab' ! nat x) \<le> sdn E V y)"
    proof (cases "x = p")
      case True
      then show ?thesis using new_p by simp
    next
      case False
      show ?thesis unfolding other [OF x(1) False] using fx by blast
    qed
    show "?anc' ! nat x - 1 \<in> set V" "anc r V par (?anc' ! nat x - 1) x"
      "?anc' ! nat x - 1 \<noteq> x"
      "?lab' ! nat x \<in> seg r V par (?anc' ! nat x - 1) x"
      using all by blast+
    show "\<And>y. y \<in> seg r V par (?anc' ! nat x - 1) x \<Longrightarrow> k \<le> index_of V y"
      using all by blast
    show "\<And>y. y \<in> seg r V par (?anc' ! nat x - 1) x \<Longrightarrow> sdn E V (?lab' ! nat x) \<le> sdn E V y"
      using all by blast
  qed
qed

lemma dominator_COMPRESS_unwind_spec:
  assumes t: "dfs_tree E r V par" and vr: "set V \<subseteq> {0 .. int n - 1}"
      and rho: "\<rho> \<in> set V" "index_of V \<rho> < k"
  shows "forest_inv E r V par n k semi ancestor label \<Longrightarrow> tp \<in> set V \<Longrightarrow>
         k \<le> index_of V tp \<Longrightarrow> ancestor ! nat tp = \<rho> + 1 \<Longrightarrow>
         pointer_chain ancestor (tp # pth) \<Longrightarrow>
         \<forall>x \<in> set pth. x \<in> set V \<and> k \<le> index_of V x \<Longrightarrow>
         sorted_wrt (\<lambda>a b. index_of V a < index_of V b) (tp # pth) \<Longrightarrow>
         forest_inv E r V par n k semi
           (fst (dominator_COMPRESS_unwind semi tp pth (ancestor, label)))
           (snd (dominator_COMPRESS_unwind semi tp pth (ancestor, label))) \<and>
         (\<forall>x \<in> set (tp # pth).
            fst (dominator_COMPRESS_unwind semi tp pth (ancestor, label)) ! nat x = \<rho> + 1) \<and>
         (\<forall>x \<in> set V. x \<notin> set pth \<longrightarrow>
            fst (dominator_COMPRESS_unwind semi tp pth (ancestor, label)) ! nat x
              = ancestor ! nat x)"
proof (induction pth arbitrary: tp ancestor label)
  case Nil
  then show ?case by simp
next
  case (Cons p rest)
  define lab1 where "lab1 = (if semi ! nat (label ! nat tp) < semi ! nat (label ! nat p)
                    then label[nat p := label ! nat tp] else label)"
  define anc1 where "anc1 = ancestor[nat p := ancestor ! nat tp]"
  have un: "dominator_COMPRESS_unwind semi tp (p # rest) (ancestor, label)
              = dominator_COMPRESS_unwind semi p rest (anc1, lab1)"
    by (simp add: Let_def lab1_def anc1_def)
  have p: "p \<in> set V" "k \<le> index_of V p" using Cons.prems(6) by simp_all
  have pa: "ancestor ! nat p = tp + 1" using Cons.prems(5) by (simp add: pointer_chain_Cons)
  have idx: "index_of V tp < index_of V p" "\<forall>y \<in> set rest. index_of V p < index_of V y"
      "\<forall>y \<in> set rest. index_of V tp < index_of V y"
    using Cons.prems(7) by auto
  have restV: "\<forall>x \<in> set rest. x \<in> set V \<and> k \<le> index_of V x" using Cons.prems(6) by simp
  have fi1: "forest_inv E r V par n k semi anc1 lab1"
    unfolding anc1_def lab1_def
    by (rule compress_step [OF t vr Cons.prems(1) rho Cons.prems(2,3,4) p pa])
  have np: "nat p < n" using vertex_nat [OF vr p(1)] by simp
  have len: "length ancestor = n" using forest_inv_lengths [OF Cons.prems(1)] by simp
  have a1p: "anc1 ! nat p = \<rho> + 1" using np len Cons.prems(4) by (simp add: anc1_def)
  have ne: "\<forall>y \<in> set rest. nat y \<noteq> nat p"
  proof
    fix y assume y: "y \<in> set rest"
    then have "y \<noteq> p" using idx(2) by auto
    then show "nat y \<noteq> nat p" using vertex_nat_neq [OF vr _ p(1)] restV y by blast
  qed
  have ch1: "pointer_chain anc1 (p # rest)"
    unfolding anc1_def
    by (rule pointer_chain_update) (use Cons.prems(5) ne in \<open>simp_all add: pointer_chain_Cons\<close>)
  have so1: "sorted_wrt (\<lambda>a b. index_of V a < index_of V b) (p # rest)"
    using Cons.prems(7) by simp
  note IH = Cons.IH [OF fi1 p a1p ch1 restV so1]
  let ?res = "fst (dominator_COMPRESS_unwind semi p rest (anc1, lab1))"
  have 1: "forest_inv E r V par n k semi ?res
             (snd (dominator_COMPRESS_unwind semi p rest (anc1, lab1)))"
    using IH by blast
  have 2: "\<forall>x \<in> set (p # rest). ?res ! nat x = \<rho> + 1" using IH by blast
  have 3: "\<forall>x \<in> set V. x \<notin> set rest \<longrightarrow> ?res ! nat x = anc1 ! nat x" using IH by blast
  have other: "anc1 ! nat x = ancestor ! nat x" if "x \<in> set V" "x \<noteq> p" for x
    using vertex_nat_neq [OF vr that(1) p(1) that(2)] by (simp add: anc1_def)
  have tpr: "tp \<notin> set rest" "tp \<noteq> p" using idx(1,3) by auto
  have 4: "?res ! nat tp = \<rho> + 1"
    using 3 Cons.prems(2) tpr other [OF Cons.prems(2) tpr(2)] Cons.prems(4) by simp
  have 5: "\<forall>x \<in> set V. x \<notin> set (p # rest) \<longrightarrow> ?res ! nat x = ancestor ! nat x"
    using 3 other by simp
  show ?case unfolding un using 1 2 4 5 by simp
qed

text \<open>
  \<^verbatim>\<open>EVAL\<close>: an unlinked vertex is its own answer; for a linked vertex the answer is a
  linked ancestor with the least semidominator among the linked ancestors.
\<close>

lemma igraph_i_dominator_EVAL_spec:
  assumes t: "dfs_tree E r V par" and vr: "set V \<subseteq> {0 .. int n - 1}"
      and fi: "forest_inv E r V par n k semi ancestor label"
      and v: "v \<in> set V"
  shows "\<exists>u anc' lab'. igraph_i_dominator_EVAL v ancestor label semi = Some (u, anc', lab') \<and>
           forest_inv E r V par n k semi anc' lab' \<and>
           (index_of V v < k \<longrightarrow> u = v) \<and>
           (k \<le> index_of V v \<longrightarrow>
              anc r V par u v \<and> k \<le> index_of V u \<and>
              (\<forall>y. anc r V par y v \<and> k \<le> index_of V y \<longrightarrow> sdn E V u \<le> sdn E V y))"
proof (cases "k \<le> index_of V v")
  case False
  then have "ancestor ! nat v = 0" using forest_inv_unlinked(1) [OF fi v] by simp
  then have "igraph_i_dominator_EVAL v ancestor label semi = Some (v, ancestor, label)"
    by (simp add: igraph_i_dominator_EVAL_def)
  then show ?thesis using fi False by simp
next
  case True
  have nz: "ancestor ! nat v \<noteq> 0" by (rule forest_inv_ancestor_nonzero [OF fi v True vr])
  have "\<exists>res \<rho>. dominator_COMPRESS_climb ancestor v [] = Some res \<and>
            \<rho> \<in> set V \<and> index_of V \<rho> < k \<and> pointer_chain ancestor (\<rho> # res) \<and>
            (\<forall>x \<in> set res. x \<in> set V \<and> k \<le> index_of V x) \<and>
            sorted_wrt (\<lambda>a b. index_of V a < index_of V b) (\<rho> # res) \<and>
            (k \<le> index_of V v \<longrightarrow> (\<exists>pre. res = pre @ v # [])) \<and>
            (index_of V v < k \<longrightarrow> res = [])"
    by (rule dominator_COMPRESS_climb_spec [OF t vr fi v]) simp_all
  then obtain res \<rho> where
    c: "dominator_COMPRESS_climb ancestor v [] = Some res"
       "\<rho> \<in> set V" "index_of V \<rho> < k" "pointer_chain ancestor (\<rho> # res)"
       "\<forall>x \<in> set res. x \<in> set V \<and> k \<le> index_of V x"
       "sorted_wrt (\<lambda>a b. index_of V a < index_of V b) (\<rho> # res)"
       "k \<le> index_of V v \<longrightarrow> (\<exists>pre. res = pre @ v # [])"
    by (elim exE conjE)
  obtain pre where pre: "res = pre @ [v]" using c(7) True by auto
  then have "res \<noteq> []" by simp
  then obtain tp pth where tp: "res = tp # pth" by (cases res) simp_all
  have vin: "v \<in> set (tp # pth)" using pre tp by (metis in_set_conv_decomp)
  have tpV: "tp \<in> set V" "k \<le> index_of V tp" using c(5) tp by simp_all
  have tpa: "ancestor ! nat tp = \<rho> + 1" using c(4) tp by (simp add: pointer_chain_Cons)
  have tch: "pointer_chain ancestor (tp # pth)"
    using c(4) tp by (cases pth) (simp_all add: pointer_chain_Cons)
  have pV: "\<forall>x \<in> set pth. x \<in> set V \<and> k \<le> index_of V x" using c(5) tp by simp
  have so: "sorted_wrt (\<lambda>a b. index_of V a < index_of V b) (tp # pth)" using c(6) tp by simp
  define al where "al = dominator_COMPRESS_unwind semi tp pth (ancestor, label)"
  note u = dominator_COMPRESS_unwind_spec [OF t vr c(2,3) fi tpV tpa tch pV so,
      folded al_def]
  have fi': "forest_inv E r V par n k semi (fst al) (snd al)" using u by blast
  have av: "fst al ! nat v = \<rho> + 1" using u vin by blast
  note fv = forest_inv_linked [OF fi' v True]
  have e: "fst al ! nat v - 1 = \<rho>" using av by simp
  have ev: "igraph_i_dominator_EVAL v ancestor label semi = Some (snd al ! nat v, fst al, snd al)"
    using nz c(1) tp by (simp add: igraph_i_dominator_EVAL_def igraph_i_dominator_COMPRESS_def al_def)
  have lin: "snd al ! nat v \<in> seg r V par \<rho> v" using fv(5) e by simp
  have 1: "anc r V par (snd al ! nat v) v" using lin by (simp add: seg_def)
  have 2: "k \<le> index_of V (snd al ! nat v)" using fv(4) lin e by simp
  have 3: "\<forall>y. anc r V par y v \<and> k \<le> index_of V y \<longrightarrow> sdn E V (snd al ! nat v) \<le> sdn E V y"
  proof (intro allI impI, elim conjE)
    fix y assume y: "anc r V par y v" "k \<le> index_of V y"
    then have "y \<in> seg r V par \<rho> v" using c(3) by (simp add: seg_def)
    then show "sdn E V (snd al ! nat v) \<le> sdn E V y" using fv(6) e by simp
  qed
  show ?thesis
  proof (intro exI conjI)
    show "igraph_i_dominator_EVAL v ancestor label semi = Some (snd al ! nat v, fst al, snd al)"
      by (rule ev)
    show "forest_inv E r V par n k semi (fst al) (snd al)" by (rule fi')
    show "index_of V v < k \<longrightarrow> snd al ! nat v = v" using True by simp
    show "k \<le> index_of V v \<longrightarrow>
              anc r V par (snd al ! nat v) v \<and> k \<le> index_of V (snd al ! nat v) \<and>
              (\<forall>y. anc r V par y v \<and> k \<le> index_of V y \<longrightarrow>
                   sdn E V (snd al ! nat v) \<le> sdn E V y)"
      using 1 2 3 by blast
  qed
qed

subsection \<open>The semidominators\<close>

lemma forest_inv_semi_update:
  assumes fi: "forest_inv E r V par n k semi ancestor label"
      and vr: "set V \<subseteq> {0 .. int n - 1}" and w: "w \<in> set V" "index_of V w < k"
  shows "forest_inv E r V par n k (semi[nat w := c]) ancestor label"
proof -
  have same: "semi[nat w := c] ! nat x = semi ! nat x" if "x \<in> set V" "k \<le> index_of V x" for x
  proof -
    have "x \<noteq> w" using that(2) w(2) by auto
    then have "nat x \<noteq> nat w" by (rule vertex_nat_neq [OF vr that(1) w(1)])
    then show ?thesis by simp
  qed
  show ?thesis
    using fi unfolding forest_inv_def by (simp add: same)
qed

text \<open>
  What a predecessor \<open>v\<close> of \<open>w\<close> contributes: its number when it is numbered below
  \<open>w\<close>, the semidominators of its ancestors numbered above \<open>w\<close> otherwise.
\<close>

definition pred_covered ::
  "(int \<Rightarrow> int \<Rightarrow> bool) \<Rightarrow> int \<Rightarrow> int list \<Rightarrow> (int \<Rightarrow> int) \<Rightarrow> int \<Rightarrow> int \<Rightarrow> nat \<Rightarrow> bool" where
  "pred_covered E r V par w v m =
     ((index_of V v < index_of V w \<longrightarrow> m \<le> index_of V v) \<and>
      (index_of V w < index_of V v \<longrightarrow>
         (\<forall>y. anc r V par y v \<and> index_of V w < index_of V y \<longrightarrow> m \<le> sdn E V y)))"

lemma pred_covered_mono: "pred_covered E r V par w v m \<Longrightarrow> m' \<le> m \<Longrightarrow> pred_covered E r V par w v m'"
  unfolding pred_covered_def by (meson le_trans)

lemma dominator_pred_loop_spec:
  assumes t: "dfs_tree E r V par" and vr: "set V \<subseteq> {0 .. int n - 1}"
      and w: "w \<in> set V" "w \<noteq> r"
  shows "\<forall>v \<in> set predw. v \<in> set V \<and> E v w \<Longrightarrow>
         forest_inv E r V par n (Suc (index_of V w)) (ds_semi s) (ds_ancestor s) (ds_label s) \<Longrightarrow>
         \<forall>x \<in> set V. index_of V x < index_of V w \<longrightarrow> ds_semi s ! nat x = int (index_of V x) + 1 \<Longrightarrow>
         ds_semi s ! nat w = int m + 1 \<Longrightarrow> sdn E V w \<le> m \<Longrightarrow>
         \<exists>s' m'. dominator_pred_loop w predw s = Some s' \<and>
           forest_inv E r V par n (Suc (index_of V w)) (ds_semi s') (ds_ancestor s') (ds_label s') \<and>
           (\<forall>x \<in> set V. index_of V x < index_of V w \<longrightarrow>
               ds_semi s' ! nat x = int (index_of V x) + 1) \<and>
           ds_semi s' ! nat w = int m' + 1 \<and> sdn E V w \<le> m' \<and> m' \<le> m \<and>
           (\<forall>v \<in> set predw. pred_covered E r V par w v m') \<and>
           ds_bucket s' = ds_bucket s \<and> ds_dom s' = ds_dom s"
proof (induction predw arbitrary: s m)
  case Nil
  show ?case
  proof (intro exI conjI)
    show "dominator_pred_loop w [] s = Some s" by simp
    show "forest_inv E r V par n (Suc (index_of V w)) (ds_semi s) (ds_ancestor s) (ds_label s)"
      by (rule Nil.prems(2))
    show "\<forall>x \<in> set V. index_of V x < index_of V w \<longrightarrow> ds_semi s ! nat x = int (index_of V x) + 1"
      by (rule Nil.prems(3))
    show "ds_semi s ! nat w = int m + 1" by (rule Nil.prems(4))
    show "sdn E V w \<le> m" by (rule Nil.prems(5))
  qed simp_all
next
  case (Cons v predw)
  let ?k = "Suc (index_of V w)"
  have v: "v \<in> set V" "E v w" using Cons.prems(1) by simp_all
  have rest: "\<forall>v \<in> set predw. v \<in> set V \<and> E v w" using Cons.prems(1) by simp
  from igraph_i_dominator_EVAL_spec [OF t vr Cons.prems(2) v(1)] obtain u anc' lab' where
    ev: "igraph_i_dominator_EVAL v (ds_ancestor s) (ds_label s) (ds_semi s) = Some (u, anc', lab')"
    and fi': "forest_inv E r V par n ?k (ds_semi s) anc' lab'"
    and un: "index_of V v < ?k \<longrightarrow> u = v"
    and li: "?k \<le> index_of V v \<longrightarrow>
              anc r V par u v \<and> ?k \<le> index_of V u \<and>
              (\<forall>y. anc r V par y v \<and> ?k \<le> index_of V y \<longrightarrow> sdn E V u \<le> sdn E V y)"
    by (elim exE conjE)
  define s1 where "s1 = s \<lparr> ds_ancestor := anc', ds_label := lab' \<rparr>"
  define s2 where "s2 = (if ds_semi s1 ! nat u < ds_semi s1 ! nat w
                    then s1 \<lparr> ds_semi := (ds_semi s1)[nat w := ds_semi s1 ! nat u] \<rparr>
                    else s1)"
  have step: "dominator_pred_loop w (v # predw) s = dominator_pred_loop w predw s2"
    using ev by (simp add: Let_def s2_def s1_def)
  have wn: "nat w < n" using vertex_nat [OF vr w(1)] by simp
  have len: "length (ds_semi s) = n" using forest_inv_lengths [OF Cons.prems(2)] by simp
  text \<open>The value that \<open>u\<close> offers.\<close>
  have offer: "\<exists>c. ds_semi s ! nat u = int c + 1 \<and> sdn E V w \<le> c \<and>
                 (c < m \<longrightarrow> pred_covered E r V par w v c) \<and>
                 (m \<le> c \<longrightarrow> pred_covered E r V par w v m)"
  proof -
    consider "index_of V v < index_of V w" | "v = w" | "index_of V w < index_of V v"
      using index_of_inj [OF v(1) w(1)] by (cases "index_of V v = index_of V w") (blast, linarith)
    then show ?thesis
    proof cases
      case 1
      then have uv: "u = v" using un by simp
      have "ds_semi s ! nat u = int (index_of V v) + 1" using Cons.prems(3) v(1) 1 uv by simp
      moreover have "sdn E V w \<le> index_of V v" using sdn_edge [where E = E and V = V and v = v and w = w] v by blast
      moreover have "pred_covered E r V par w v c" if "c \<le> index_of V v" for c
        using 1 that by (simp add: pred_covered_def)
      ultimately show ?thesis by (intro exI [of _ "index_of V v"]) simp
    next
      case 2
      then have uv: "u = w" using un by simp
      have "pred_covered E r V par w v c" for c using 2 by (simp add: pred_covered_def)
      then show ?thesis using Cons.prems(4,5) uv by (intro exI [of _ m]) simp
    next
      case 3
      then have lk: "?k \<le> index_of V v" by simp
      have u: "anc r V par u v" "?k \<le> index_of V u"
          "\<forall>y. anc r V par y v \<and> ?k \<le> index_of V y \<longrightarrow> sdn E V u \<le> sdn E V y"
        using li lk by blast+
      have uV: "u \<in> set V" using anc_in(1) [OF t u(1) v(1)] .
      have "ds_semi s ! nat u = int (sdn E V u) + 1"
        by (rule forest_inv_semi [OF Cons.prems(2) uV u(2)])
      moreover have "sdn E V w \<le> sdn E V u"
        by (rule sdn_via [OF t v u(1)]) (use u(2) in simp)
      moreover have "pred_covered E r V par w v c" if "c \<le> sdn E V u" for c
        unfolding pred_covered_def
      proof (intro conjI impI allI)
        assume "index_of V v < index_of V w"
        then show "c \<le> index_of V v" using 3 by simp
      next
        fix y assume "anc r V par y v \<and> index_of V w < index_of V y"
        then have "sdn E V u \<le> sdn E V y" using u(3) by simp
        then show "c \<le> sdn E V y" using that by simp
      qed
      ultimately show ?thesis by (intro exI [of _ "sdn E V u"]) simp
    qed
  qed
  then obtain c where c: "ds_semi s ! nat u = int c + 1" "sdn E V w \<le> c"
      "c < m \<longrightarrow> pred_covered E r V par w v c" "m \<le> c \<longrightarrow> pred_covered E r V par w v m"
    by (elim exE conjE)
  define m1 where "m1 = min m c"
  have s2semi: "ds_semi s2 = (if c < m then (ds_semi s)[nat w := int c + 1] else ds_semi s)"
    using c(1) Cons.prems(4) by (simp add: s2_def s1_def)
  have s2rest: "ds_ancestor s2 = anc'" "ds_label s2 = lab'" "ds_bucket s2 = ds_bucket s"
      "ds_dom s2 = ds_dom s"
    by (simp_all add: s2_def s1_def)
  have fi2: "forest_inv E r V par n ?k (ds_semi s2) (ds_ancestor s2) (ds_label s2)"
    unfolding s2semi s2rest
    using fi' forest_inv_semi_update [OF fi' vr w(1), of "int c + 1"] by simp
  have unl2: "\<forall>x \<in> set V. index_of V x < index_of V w \<longrightarrow> ds_semi s2 ! nat x = int (index_of V x) + 1"
  proof (intro ballI impI)
    fix x assume x: "x \<in> set V" "index_of V x < index_of V w"
    then have "x \<noteq> w" by auto
    then have "nat x \<noteq> nat w" by (rule vertex_nat_neq [OF vr x(1) w(1)])
    then show "ds_semi s2 ! nat x = int (index_of V x) + 1"
      unfolding s2semi using Cons.prems(3) x by simp
  qed
  have cur2: "ds_semi s2 ! nat w = int m1 + 1"
    unfolding s2semi m1_def using Cons.prems(4) wn len by (simp add: min_def)
  have lo2: "sdn E V w \<le> m1" unfolding m1_def using c(2) Cons.prems(5) by simp
  have cov1: "pred_covered E r V par w v m1"
    unfolding m1_def using c(3,4) by (cases "c < m") (simp_all add: min_def)
  from Cons.IH [OF rest fi2 unl2 cur2 lo2] obtain s' m' where
    r: "dominator_pred_loop w predw s2 = Some s'"
       "forest_inv E r V par n ?k (ds_semi s') (ds_ancestor s') (ds_label s')"
       "\<forall>x \<in> set V. index_of V x < index_of V w \<longrightarrow> ds_semi s' ! nat x = int (index_of V x) + 1"
       "ds_semi s' ! nat w = int m' + 1" "sdn E V w \<le> m'" "m' \<le> m1"
       "\<forall>v \<in> set predw. pred_covered E r V par w v m'"
       "ds_bucket s' = ds_bucket s2" "ds_dom s' = ds_dom s2"
    by (elim exE conjE)
  show ?case
  proof (intro exI conjI)
    show "dominator_pred_loop w (v # predw) s = Some s'" using step r(1) by simp
    show "forest_inv E r V par n ?k (ds_semi s') (ds_ancestor s') (ds_label s')" by (rule r(2))
    show "\<forall>x \<in> set V. index_of V x < index_of V w \<longrightarrow> ds_semi s' ! nat x = int (index_of V x) + 1"
      by (rule r(3))
    show "ds_semi s' ! nat w = int m' + 1" by (rule r(4))
    show "sdn E V w \<le> m'" by (rule r(5))
    show "m' \<le> m" using r(6) by (simp add: m1_def)
    show "\<forall>v \<in> set (v # predw). pred_covered E r V par w v m'"
      using r(7) pred_covered_mono [OF cov1 r(6)] by simp
    show "ds_bucket s' = ds_bucket s" using r(8) s2rest by simp
    show "ds_dom s' = ds_dom s" using r(9) s2rest by simp
  qed
qed

lemma semidominator_computed:
  assumes t: "dfs_tree E r V par" and w: "w \<in> set V" "w \<noteq> r"
      and cov: "\<forall>v \<in> set V. E v w \<longrightarrow> pred_covered E r V par w v m"
      and lo: "sdn E V w \<le> m"
  shows "m = sdn E V w"
proof -
  have "m \<le> sdn E V w"
    using sdn_attained [OF t w]
  proof
    assume "\<exists>v \<in> set V. E v w \<and> index_of V v < index_of V w \<and> index_of V v = sdn E V w"
    then obtain v where v: "v \<in> set V" "E v w" "index_of V v < index_of V w"
        "index_of V v = sdn E V w" by blast
    then show ?thesis using cov unfolding pred_covered_def by force
  next
    assume "\<exists>u \<in> set V. \<exists>v \<in> set V. E v w \<and> anc r V par u v \<and> index_of V w < index_of V u \<and>
             sdn E V u \<le> sdn E V w"
    then obtain u v where uv: "u \<in> set V" "v \<in> set V" "E v w" "anc r V par u v"
        "index_of V w < index_of V u" "sdn E V u \<le> sdn E V w" by blast
    have "index_of V u \<le> index_of V v" using anc_in(2) [OF t uv(4,2)] .
    then have "index_of V w < index_of V v" using uv(5) by simp
    moreover have "pred_covered E r V par w v m" using cov uv(2,3) by simp
    ultimately have "m \<le> sdn E V u" using uv(4,5) unfolding pred_covered_def by blast
    then show ?thesis using uv(6) by simp
  qed
  then show ?thesis using lo by simp
qed

subsection \<open>The child on the way to a descendant\<close>

lemma child_on_path:
  assumes t: "dfs_tree E r V par"
  shows "v \<in> set V \<Longrightarrow> anc r V par p v \<Longrightarrow> p \<noteq> v \<Longrightarrow>
         \<exists>c \<in> set V. c \<noteq> r \<and> par c = p \<and> anc r V par c v"
proof (induction "index_of V v" arbitrary: v rule: less_induct)
  case less
  from anc_last [OF less.prems(2)] less.prems(3)
  have v: "v \<noteq> r" "anc r V par p (par v)" by blast+
  note pv = tree_par [OF t less.prems(1) v(1)]
  show ?case
  proof (cases "par v = p")
    case True
    then show ?thesis using less.prems(1) v(1) by (intro bexI [of _ v]) simp_all
  next
    case False
    then have "p \<noteq> par v" by simp
    from less.hyps [OF pv(2) pv(1) v(2) this] obtain c where
      c: "c \<in> set V" "c \<noteq> r" "par c = p" "anc r V par c (par v)" by blast
    have "anc r V par c v" by (rule anc_trans [OF c(4) pv(4)])
    then show ?thesis using c by blast
  qed
qed

lemma child_unique:
  assumes t: "dfs_tree E r V par" and w: "w \<in> set V" "w \<noteq> r" and v: "v \<in> set V"
      and c: "c \<in> set V" "c \<noteq> r" "par c = par w" "anc r V par c v"
      and le: "index_of V c \<le> index_of V w" "index_of V w \<le> index_of V v"
  shows "c = w"
proof (rule ccontr)
  assume ne: "c \<noteq> w"
  have "anc r V par c w" by (rule dfs_tree_facts(7) [OF t c(1) w(1) v c(4) le])
  with anc_last [of r V par c w] ne have "anc r V par c (par w)" by blast
  then have a: "anc r V par c (par c)" using c(3) by simp
  note pc = tree_par [OF t c(1,2)]
  have "index_of V c \<le> index_of V (par c)" by (rule anc_in(2) [OF t a pc(1)])
  then show False using pc(2) by simp
qed

lemma only_child_above:
  assumes t: "dfs_tree E r V par" and w: "w \<in> set V" "w \<noteq> r"
      and y: "anc r V par (par w) y" "y \<noteq> par w" "anc r V par y v" and v: "v \<in> set V"
      and wv: "anc r V par w v"
  shows "index_of V w \<le> index_of V y"
proof -
  have yV: "y \<in> set V" by (rule anc_in(1) [OF t y(3) v])
  from anc_linear [OF t v y(3) wv] show ?thesis
  proof
    assume "anc r V par w y"
    then show ?thesis by (rule anc_in(2) [OF t _ yV])
  next
    assume yw: "anc r V par y w"
    show ?thesis
    proof (cases "y = w")
      case True
      then show ?thesis by simp
    next
      case False
      with anc_last [OF yw] have "anc r V par y (par w)" by blast
      then have "y = par w" by (rule anc_antisym [OF t _ y(1) tree_par(1) [OF t w]])
      then show ?thesis using y(2) by simp
    qed
  qed
qed

definition pending ::
  "(int \<Rightarrow> int \<Rightarrow> bool) \<Rightarrow> int \<Rightarrow> int list \<Rightarrow> (int \<Rightarrow> int) \<Rightarrow> nat \<Rightarrow> int \<Rightarrow> bool" where
  "pending E r V par k v =
     (\<exists>c \<in> set V. c \<noteq> r \<and> par c = sdv E V v \<and> anc r V par c v \<and> index_of V c < k)"

lemma pending_self:
  assumes t: "dfs_tree E r V par" and v: "v \<in> set V" "v \<noteq> r"
  shows "pending E r V par (Suc (index_of V v)) v"
proof -
  from child_on_path [OF t v(1) sdv_anc [OF t v]] obtain c where
    c: "c \<in> set V" "c \<noteq> r" "par c = sdv E V v" "anc r V par c v" by blast
  have "index_of V c \<le> index_of V v" by (rule anc_in(2) [OF t c(4) v(1)])
  then have "index_of V c < Suc (index_of V v)" by simp
  then show ?thesis unfolding pending_def using c by blast
qed

lemma pending_first:
  assumes t: "dfs_tree E r V par"
  shows "\<not> pending E r V par (Suc 0) v"
proof
  assume "pending E r V par (Suc 0) v"
  then obtain c where c: "c \<in> set V" "c \<noteq> r" "index_of V c < Suc 0"
    unfolding pending_def by blast
  then have "index_of V c = index_of V r" using dfs_tree_facts(3) [OF t] by simp
  then have "c = r" by (rule index_of_inj [OF c(1) dfs_tree_facts(2) [OF t]])
  then show False using c(2) by simp
qed

lemma pending_child:
  assumes t: "dfs_tree E r V par" and w: "w \<in> set V" "w \<noteq> r"
      and v: "v \<in> set V" "index_of V w \<le> index_of V v" "sdv E V v = par w"
      and p: "pending E r V par (Suc (index_of V w)) v"
  shows "anc r V par w v" "\<not> pending E r V par (index_of V w) v"
proof -
  from p obtain c where c: "c \<in> set V" "c \<noteq> r" "par c = par w" "anc r V par c v"
      "index_of V c \<le> index_of V w"
    unfolding pending_def v(3) by auto
  have "c = w" by (rule child_unique [OF t w v(1) c v(2)])
  then show "anc r V par w v" using c(4) by simp
  show "\<not> pending E r V par (index_of V w) v"
  proof
    assume "pending E r V par (index_of V w) v"
    then obtain c where c: "c \<in> set V" "c \<noteq> r" "par c = par w" "anc r V par c v"
        "index_of V c < index_of V w"
      unfolding pending_def v(3) by auto
    have "index_of V c \<le> index_of V w" using c(5) by simp
    from child_unique [OF t w v(1) c(1,2,3,4) this v(2)] show False using c(5) by simp
  qed
qed

lemma pending_other:
  assumes t: "dfs_tree E r V par" and w: "w \<in> set V"
      and v: "sdv E V v \<noteq> par w"
  shows "pending E r V par (Suc (index_of V w)) v = pending E r V par (index_of V w) v"
proof
  assume "pending E r V par (Suc (index_of V w)) v"
  then obtain c where c: "c \<in> set V" "c \<noteq> r" "par c = sdv E V v" "anc r V par c v"
      "index_of V c \<le> index_of V w"
    unfolding pending_def by auto
  have "index_of V c \<noteq> index_of V w"
  proof
    assume "index_of V c = index_of V w"
    then have "c = w" by (rule index_of_inj [OF c(1) w])
    then show False using c(3) v by simp
  qed
  then have "index_of V c < index_of V w" using c(5) by simp
  then show "pending E r V par (index_of V w) v" unfolding pending_def using c by blast
next
  assume "pending E r V par (index_of V w) v"
  then obtain c where c: "c \<in> set V" "c \<noteq> r" "par c = sdv E V v" "anc r V par c v"
      "index_of V c < index_of V w"
    unfolding pending_def by auto
  have "index_of V c < Suc (index_of V w)" using c(5) by simp
  then show "pending E r V par (Suc (index_of V w)) v" unfolding pending_def using c by blast
qed

subsection \<open>LINK\<close>

lemma seg_parent:
  assumes t: "dfs_tree E r V par" and w: "w \<in> set V" "w \<noteq> r"
  shows "seg r V par (par w) w = {w}"
proof -
  note pw = tree_par [OF t w]
  have "y = w" if y: "anc r V par y w" "index_of V (par w) < index_of V y" for y
  proof (rule ccontr)
    assume "y \<noteq> w"
    with anc_last [OF y(1)] have "anc r V par y (par w)" by blast
    then have "index_of V y \<le> index_of V (par w)" by (rule anc_in(2) [OF t _ pw(1)])
    then show False using y(2) by simp
  qed
  then show ?thesis using pw(2) unfolding seg_def by auto
qed

lemma forest_inv_LINK:
  assumes t: "dfs_tree E r V par" and vr: "set V \<subseteq> {0 .. int n - 1}"
      and w: "w \<in> set V" "w \<noteq> r"
      and fi: "forest_inv E r V par n (Suc (index_of V w)) semi ancestor label"
      and sw: "semi ! nat w = int (sdn E V w) + 1"
  shows "forest_inv E r V par n (index_of V w) semi
           (igraph_i_dominator_LINK (par w) w ancestor) label"
proof -
  let ?i = "index_of V w"
  let ?a = "ancestor[nat w := par w + 1]"
  note pw = tree_par [OF t w]
  note len = forest_inv_lengths [OF fi]
  have wn: "nat w < n" using vertex_nat [OF vr w(1)] by simp
  have other: "?a ! nat x = ancestor ! nat x" if "x \<in> set V" "x \<noteq> w" for x
  proof -
    have "nat x \<noteq> nat w" by (rule vertex_nat_neq [OF vr that(1) w(1) that(2)])
    then show ?thesis by simp
  qed
  have self: "?a ! nat w - 1 = par w" using wn len by simp
  have cases: "x = w \<or> (x \<noteq> w \<and> Suc ?i \<le> index_of V x)" if "x \<in> set V" "?i \<le> index_of V x" for x
    using that index_of_inj [OF that(1) w(1)] by (cases "index_of V x = ?i") auto
  have sm: "\<forall>x \<in> set V. ?i \<le> index_of V x \<longrightarrow> semi ! nat x = int (sdn E V x) + 1"
  proof (intro ballI impI)
    fix x assume x: "x \<in> set V" "?i \<le> index_of V x"
    from cases [OF x] show "semi ! nat x = int (sdn E V x) + 1"
    proof
      assume "x = w" then show ?thesis using sw by simp
    next
      assume "x \<noteq> w \<and> Suc ?i \<le> index_of V x"
      then show ?thesis using forest_inv_semi [OF fi x(1)] by simp
    qed
  qed
  have un: "\<forall>x \<in> set V. index_of V x < ?i \<longrightarrow> ?a ! nat x = 0 \<and> label ! nat x = x"
  proof (intro ballI impI)
    fix x assume x: "x \<in> set V" "index_of V x < ?i"
    then have "x \<noteq> w" by auto
    then have "?a ! nat x = ancestor ! nat x" by (rule other [OF x(1)])
    moreover have "index_of V x < Suc ?i" using x(2) by simp
    ultimately show "?a ! nat x = 0 \<and> label ! nat x = x"
      using forest_inv_unlinked [OF fi x(1)] by simp
  qed
  have li: "\<forall>x \<in> set V. ?i \<le> index_of V x \<longrightarrow>
          ?a ! nat x - 1 \<in> set V \<and> anc r V par (?a ! nat x - 1) x \<and> ?a ! nat x - 1 \<noteq> x \<and>
          (\<forall>y \<in> seg r V par (?a ! nat x - 1) x. ?i \<le> index_of V y) \<and>
          label ! nat x \<in> seg r V par (?a ! nat x - 1) x \<and>
          (\<forall>y \<in> seg r V par (?a ! nat x - 1) x. sdn E V (label ! nat x) \<le> sdn E V y)"
  proof (intro ballI impI)
    fix x assume x: "x \<in> set V" "?i \<le> index_of V x"
    from cases [OF x]
    show "?a ! nat x - 1 \<in> set V \<and> anc r V par (?a ! nat x - 1) x \<and> ?a ! nat x - 1 \<noteq> x \<and>
          (\<forall>y \<in> seg r V par (?a ! nat x - 1) x. ?i \<le> index_of V y) \<and>
          label ! nat x \<in> seg r V par (?a ! nat x - 1) x \<and>
          (\<forall>y \<in> seg r V par (?a ! nat x - 1) x. sdn E V (label ! nat x) \<le> sdn E V y)"
    proof
      assume xw: "x = w"
      have lw: "label ! nat w = w" using forest_inv_unlinked(2) [OF fi w(1)] by simp
      have ne: "par w \<noteq> w" using pw(2) by auto
      show ?thesis
        unfolding xw self seg_parent [OF t w] lw using pw(1,4) ne by simp
    next
      assume xo: "x \<noteq> w \<and> Suc ?i \<le> index_of V x"
      then have k: "Suc ?i \<le> index_of V x" and ax: "?a ! nat x = ancestor ! nat x"
        using other [OF x(1)] by simp_all
      note l = forest_inv_linked [OF fi x(1) k]
      have "\<forall>y \<in> seg r V par (ancestor ! nat x - 1) x. ?i \<le> index_of V y"
      proof
        fix y assume "y \<in> seg r V par (ancestor ! nat x - 1) x"
        from l(4) [OF this] show "?i \<le> index_of V y" by simp
      qed
      then show ?thesis unfolding ax using l(1,2,3,5,6) by blast
    qed
  qed
  show ?thesis
    unfolding forest_inv_def igraph_i_dominator_LINK_def
    using len sm un li by simp
qed

lemma forest_inv_start:
  assumes vr: "set V \<subseteq> {0 .. int n - 1}" and len: "length semi = n"
  shows "forest_inv E r V par n (length V) semi (replicate n 0) [0 .. int n - 1]"
proof -
  have a: "index_of V x < length V" if "x \<in> set V" for x using that by (rule index_of_less)
  have b: "replicate n 0 ! nat x = (0::int) \<and> [0 .. int n - 1] ! nat x = x" if "x \<in> set V" for x
  proof -
    note x = vertex_nat [OF vr that]
    have "[0 .. int n - 1] ! nat x = 0 + int (nat x)" using x by (intro nth_upto) simp
    then show ?thesis using x by simp
  qed
  have c: "\<not> length V \<le> index_of V x" if "x \<in> set V" for x using a [OF that] by simp
  show ?thesis
    unfolding forest_inv_def using len b c by simp
qed

subsection \<open>The buckets\<close>

text \<open>
  The bucket of \<open>b\<close> holds the vertices numbered from \<open>lo\<close> on whose semidominator is
  \<open>b\<close> and that wait for the child of \<open>b\<close> above them, a vertex numbered below \<open>k\<close>.
\<close>

definition bucket_exact ::
  "(int \<Rightarrow> int \<Rightarrow> bool) \<Rightarrow> int \<Rightarrow> int list \<Rightarrow> (int \<Rightarrow> int) \<Rightarrow> nat \<Rightarrow> nat \<Rightarrow> nat \<Rightarrow>
   igraph_i_dbucket_t \<Rightarrow> bool" where
  "bucket_exact E r V par n lo k buck =
     (length (db_head buck) = n \<and> length (db_next buck) = n \<and>
      (\<forall>b. 0 \<le> b \<and> nat b < n \<longrightarrow>
         (\<exists>es. bucket_chain (db_next buck) (db_head buck ! nat b) es \<and> distinct es \<and>
            set es = {v \<in> set V. lo \<le> index_of V v \<and> sdv E V v = b \<and> pending E r V par k v})))"

lemma bucket_exact_insert:
  assumes t: "dfs_tree E r V par" and vr: "set V \<subseteq> {0 .. int n - 1}"
      and w: "w \<in> set V" "w \<noteq> r"
      and be: "bucket_exact E r V par n (Suc (index_of V w)) (Suc (index_of V w)) buck"
  shows "bucket_exact E r V par n (index_of V w) (Suc (index_of V w))
           (igraph_i_dbucket_insert buck (sdv E V w) w)"
proof -
  let ?i = "index_of V w"
  let ?s = "sdv E V w"
  let ?h = "(db_head buck)[nat ?s := w + 1]"
  let ?x = "(db_next buck)[nat w := db_head buck ! nat ?s]"
  let ?A = "\<lambda>b. {v \<in> set V. Suc ?i \<le> index_of V v \<and> sdv E V v = b \<and> pending E r V par (Suc ?i) v}"
  let ?B = "\<lambda>b. {v \<in> set V. ?i \<le> index_of V v \<and> sdv E V v = b \<and> pending E r V par (Suc ?i) v}"
  have len: "length (db_head buck) = n" "length (db_next buck) = n"
    using be unfolding bucket_exact_def by blast+
  have old: "\<exists>es. bucket_chain (db_next buck) (db_head buck ! nat b) es \<and> distinct es \<and>
               set es = ?A b" if "0 \<le> b" "nat b < n" for b
    using be that unfolding bucket_exact_def by blast
  note wn = vertex_nat [OF vr w(1)]
  note sV = sd_facts(1) [OF t w]
  note sn = vertex_nat [OF vr sV]
  have AB: "?B b = (if b = ?s then insert w (?A b) else ?A b)" for b
  proof -
    have 1: "w \<in> ?B ?s" using w(1) pending_self [OF t w] by simp
    have 2: "?A b \<subseteq> ?B b" by auto
    have 3: "v \<in> insert w (?A b)" if "v \<in> ?B b" for v
    proof (cases "index_of V v = ?i")
      case True
      have "v \<in> set V" using that by simp
      then have "v = w" using True index_of_inj [OF _ w(1)] by blast
      then show ?thesis by simp
    next
      case False
      then have "Suc ?i \<le> index_of V v" using that by simp
      then show ?thesis using that by simp
    qed
    have 4: "b = ?s" if "w \<in> ?B b" using that by simp
    show ?thesis
    proof (cases "b = ?s")
      case True
      have "?B b = insert w (?A b)"
      proof
        show "?B b \<subseteq> insert w (?A b)" using 3 by blast
        show "insert w (?A b) \<subseteq> ?B b" using 1 2 True by blast
      qed
      then show ?thesis using True by simp
    next
      case False
      have "?B b = ?A b"
      proof
        show "?B b \<subseteq> ?A b"
        proof
          fix v assume v: "v \<in> ?B b"
          then have "v \<noteq> w" using 4 False by blast
          then show "v \<in> ?A b" using 3 [OF v] by simp
        qed
        show "?A b \<subseteq> ?B b" by (rule 2)
      qed
      then show ?thesis using False by simp
    qed
  qed
  have new: "\<exists>es. bucket_chain ?x (?h ! nat b) es \<and> distinct es \<and> set es = ?B b"
    if b: "0 \<le> b" "nat b < n" for b
  proof -
    from old [OF b] obtain es where es: "bucket_chain (db_next buck) (db_head buck ! nat b) es"
        "distinct es" "set es = ?A b" by blast
    have wes: "w \<notin> set es" unfolding es(3) by simp
    have pos: "\<forall>e \<in> set es. 0 \<le> e"
    proof
      fix e assume "e \<in> set es"
      then have "e \<in> set V" unfolding es(3) by simp
      then show "0 \<le> e" by (rule vertex_nat(1) [OF vr])
    qed
    have ch: "bucket_chain ?x (db_head buck ! nat b) es"
      by (rule bucket_chain_update [OF es(1) wes wn(1) pos])
    show ?thesis
    proof (cases "b = ?s")
      case True
      have h: "?h ! nat b = w + 1" using True sn len by simp
      have x: "?x ! nat w = db_head buck ! nat b" using True wn len by simp
      have "bucket_chain ?x (?h ! nat b) (w # es)" unfolding h using ch x by simp
      moreover have "distinct (w # es)" using es(2) wes by simp
      moreover have "set (w # es) = ?B b" unfolding AB using True es(3) by simp
      ultimately show ?thesis by blast
    next
      case False
      then have "nat b \<noteq> nat ?s" using b(1) sn(1) by simp
      then have h: "?h ! nat b = db_head buck ! nat b" by simp
      have "set es = ?B b" unfolding AB using False es(3) by simp
      then show ?thesis unfolding h using ch es(2) by blast
    qed
  qed
  show ?thesis
    unfolding bucket_exact_def igraph_i_dbucket_insert_def
    using len new by simp
qed

subsection \<open>Emptying a bucket\<close>

text \<open>
  What step 3 leaves in \<open>dom\<close> for a vertex \<open>v\<close>: its immediate dominator when that is
  its semidominator, and otherwise a vertex numbered below \<open>v\<close> with the same immediate
  dominator.
\<close>

definition domrel :: "(int \<Rightarrow> int \<Rightarrow> bool) \<Rightarrow> int \<Rightarrow> int list \<Rightarrow> int \<Rightarrow> int \<Rightarrow> bool" where
  "domrel E r V v d =
     ((d = sdv E V v \<and> idom E r V v = sdv E V v) \<or>
      (d \<noteq> sdv E V v \<and> d \<in> set V \<and> d \<noteq> r \<and> index_of V d < index_of V v \<and>
       idom E r V d = idom E r V v))"

lemma drain_choice:
  assumes t: "dfs_tree E r V par" and w: "w \<in> set V" "w \<noteq> r"
      and v: "v \<in> set V" "sdv E V v = par w" "anc r V par w v"
      and u: "anc r V par u v" "index_of V w \<le> index_of V u"
        "\<forall>y. anc r V par y v \<and> index_of V w \<le> index_of V y \<longrightarrow> sdn E V u \<le> sdn E V y"
  shows "domrel E r V v (if sdn E V u < sdn E V v then u else par w)"
proof -
  note pw = tree_par [OF t w]
  have iv: "index_of V w \<le> index_of V v" by (rule anc_in(2) [OF t v(3,1)])
  have vr: "v \<noteq> r" using iv pw(2) dfs_tree_facts(3) [OF t] by auto
  have uV: "u \<in> set V" by (rule anc_in(1) [OF t u(1) v(1)])
  have ur: "u \<noteq> r" using u(2) pw(2) dfs_tree_facts(3) [OF t] by auto
  have pv: "anc r V par (par w) v" by (rule anc_trans [OF pw(4) v(3)])
  have pu: "anc r V par (par w) u"
    by (rule anc_by_index [OF t v(1) pv u(1)]) (use pw(2) u(2) in simp)
  have une: "u \<noteq> par w" using pw(2) u(2) by auto
  have min: "sdn E V u \<le> sdn E V y"
    if y: "anc r V par (sdv E V v) y" "y \<noteq> sdv E V v" "anc r V par y v" for y
  proof -
    have "index_of V w \<le> index_of V y"
      by (rule only_child_above [OF t w y(1) [unfolded v(2)] y(2) [unfolded v(2)] y(3) v(1,3)])
    then show ?thesis using u(3) y(3) by blast
  qed
  show ?thesis
  proof (cases "sdn E V u < sdn E V v")
    case True
    then have uv: "u \<noteq> v" by auto
    have "idom E r V u = idom E r V v"
      by (rule idom_relative [OF t v(1) vr _ _ u(1) min]) (use pu une v(2) in simp_all)
    moreover have "index_of V u < index_of V v" by (rule anc_strict [OF t u(1) v(1) uv])
    ultimately show ?thesis using True une uV ur v(2) by (simp add: domrel_def)
  next
    case False
    have "idom E r V v = sdv E V v"
    proof (rule idom_is_sdv [OF t v(1) vr])
      fix y assume "anc r V par (sdv E V v) y" "y \<noteq> sdv E V v" "anc r V par y v"
      from min [OF this] show "sdn E V v \<le> sdn E V y" using False by simp
    qed
    then show ?thesis using False v(2) by (simp add: domrel_def)
  qed
qed

lemma dominator_drain_spec:
  assumes t: "dfs_tree E r V par" and vr: "set V \<subseteq> {0 .. int n - 1}"
      and w: "w \<in> set V" "w \<noteq> r"
  shows "forest_inv E r V par n (index_of V w) (ds_semi s) (ds_ancestor s) (ds_label s) \<Longrightarrow>
         length (db_head (ds_bucket s)) = n \<Longrightarrow> length (ds_dom s) = n \<Longrightarrow>
         bucket_chain (db_next (ds_bucket s)) (db_head (ds_bucket s) ! nat (par w)) es \<Longrightarrow>
         distinct es \<Longrightarrow>
         \<forall>v \<in> set es. v \<in> set V \<and> sdv E V v = par w \<and> anc r V par w v \<Longrightarrow>
         \<exists>s'. dominator_drain (par w) s = Some s' \<and>
           forest_inv E r V par n (index_of V w) (ds_semi s') (ds_ancestor s') (ds_label s') \<and>
           ds_semi s' = ds_semi s \<and>
           db_next (ds_bucket s') = db_next (ds_bucket s) \<and>
           db_head (ds_bucket s') = (db_head (ds_bucket s))[nat (par w) := 0] \<and>
           length (ds_dom s') = n \<and>
           (\<forall>v \<in> set es. domrel E r V v (ds_dom s' ! nat v)) \<and>
           (\<forall>x. 0 \<le> x \<and> x \<notin> set es \<longrightarrow> ds_dom s' ! nat x = ds_dom s ! nat x)"
proof (induction es arbitrary: s)
  case Nil
  have h: "db_head (ds_bucket s) ! nat (par w) = 0" using Nil.prems(4) by simp
  have "dominator_drain (par w) s = Some s"
    by (subst dominator_drain.simps) (simp add: igraph_i_dbucket_empty_def h)
  moreover have "db_head (ds_bucket s) = (db_head (ds_bucket s))[nat (par w) := 0]"
    using h by (metis list_update_id)
  ultimately show ?case using Nil.prems(1,3) by simp
next
  case (Cons v es)
  let ?p = "par w"
  let ?i = "index_of V w"
  note pw = tree_par [OF t w]
  note pn = vertex_nat [OF vr pw(1)]
  have v: "v \<in> set V" "sdv E V v = ?p" "anc r V par w v" using Cons.prems(6) by simp_all
  note vn = vertex_nat [OF vr v(1)]
  have iv: "?i \<le> index_of V v" by (rule anc_in(2) [OF t v(3,1)])
  have h: "db_head (ds_bucket s) ! nat ?p = v + 1"
    and ch: "bucket_chain (db_next (ds_bucket s)) (db_next (ds_bucket s) ! nat v) es"
    using Cons.prems(4) by simp_all
  have ne: "\<not> igraph_i_dbucket_empty (ds_bucket s) ?p"
    using h vn(1) by (simp add: igraph_i_dbucket_empty_def)
  from igraph_i_dominator_EVAL_spec [OF t vr Cons.prems(1) v(1)] obtain u anc' lab' where
    ev: "igraph_i_dominator_EVAL v (ds_ancestor s) (ds_label s) (ds_semi s) = Some (u, anc', lab')"
    and fi': "forest_inv E r V par n ?i (ds_semi s) anc' lab'"
    and li: "?i \<le> index_of V v \<longrightarrow>
              anc r V par u v \<and> ?i \<le> index_of V u \<and>
              (\<forall>y. anc r V par y v \<and> ?i \<le> index_of V y \<longrightarrow> sdn E V u \<le> sdn E V y)"
    by (elim exE conjE)
  have u: "anc r V par u v" "?i \<le> index_of V u"
      "\<forall>y. anc r V par y v \<and> ?i \<le> index_of V y \<longrightarrow> sdn E V u \<le> sdn E V y"
    using li iv by blast+
  have uV: "u \<in> set V" by (rule anc_in(1) [OF t u(1) v(1)])
  define d where "d = (if ds_semi s ! nat u < ds_semi s ! nat v then u else ?p)"
  define s1 where "s1 = s \<lparr> ds_bucket := ds_bucket s
                             \<lparr> db_head := (db_head (ds_bucket s))[nat ?p := db_next (ds_bucket s) ! nat v] \<rparr>,
                          ds_ancestor := anc', ds_label := lab',
                          ds_dom := (ds_dom s)[nat v := d] \<rparr>"
  have step: "dominator_drain_step ?p s = Some s1"
    using ev h by (simp add: dominator_drain_step_def igraph_i_dbucket_delete_def Let_def
        s1_def d_def)
  have dr: "dominator_drain ?p s = dominator_drain ?p s1"
    using ne step by (subst dominator_drain.simps) simp
  have su: "ds_semi s ! nat u = int (sdn E V u) + 1"
    by (rule forest_inv_semi [OF Cons.prems(1) uV u(2)])
  have sv: "ds_semi s ! nat v = int (sdn E V v) + 1"
    by (rule forest_inv_semi [OF Cons.prems(1) v(1) iv])
  have d: "d = (if sdn E V u < sdn E V v then u else ?p)" unfolding d_def su sv by simp
  have dv: "domrel E r V v d" unfolding d by (rule drain_choice [OF t w v u])
  have 1: "forest_inv E r V par n ?i (ds_semi s1) (ds_ancestor s1) (ds_label s1)"
    using fi' by (simp add: s1_def)
  have 2: "length (db_head (ds_bucket s1)) = n" using Cons.prems(2) by (simp add: s1_def)
  have 3: "length (ds_dom s1) = n" using Cons.prems(3) by (simp add: s1_def)
  have 4: "bucket_chain (db_next (ds_bucket s1)) (db_head (ds_bucket s1) ! nat ?p) es"
    using ch pn Cons.prems(2) by (simp add: s1_def)
  have 5: "distinct es" and ves: "v \<notin> set es" using Cons.prems(5) by simp_all
  have 6: "\<forall>v \<in> set es. v \<in> set V \<and> sdv E V v = ?p \<and> anc r V par w v"
    using Cons.prems(6) by simp
  from Cons.IH [OF 1 2 3 4 5 6] obtain s' where
    r: "dominator_drain ?p s1 = Some s'"
       "forest_inv E r V par n ?i (ds_semi s') (ds_ancestor s') (ds_label s')"
       "ds_semi s' = ds_semi s1"
       "db_next (ds_bucket s') = db_next (ds_bucket s1)"
       "db_head (ds_bucket s') = (db_head (ds_bucket s1))[nat ?p := 0]"
       "length (ds_dom s') = n"
       "\<forall>v \<in> set es. domrel E r V v (ds_dom s' ! nat v)"
       "\<forall>x. 0 \<le> x \<and> x \<notin> set es \<longrightarrow> ds_dom s' ! nat x = ds_dom s1 ! nat x"
    by (elim exE conjE)
  have dv': "ds_dom s' ! nat v = d"
    using r(8) ves vn Cons.prems(3) by (simp add: s1_def)
  show ?case
  proof (intro exI conjI)
    show "dominator_drain ?p s = Some s'" using dr r(1) by simp
    show "forest_inv E r V par n ?i (ds_semi s') (ds_ancestor s') (ds_label s')" by (rule r(2))
    show "ds_semi s' = ds_semi s" using r(3) by (simp add: s1_def)
    show "db_next (ds_bucket s') = db_next (ds_bucket s)" using r(4) by (simp add: s1_def)
    show "db_head (ds_bucket s') = (db_head (ds_bucket s))[nat ?p := 0]"
      using r(5) by (simp add: s1_def)
    show "length (ds_dom s') = n" by (rule r(6))
    show "\<forall>v \<in> set (v # es). domrel E r V v (ds_dom s' ! nat v)"
      using r(7) dv dv' by simp
    show "\<forall>x. 0 \<le> x \<and> x \<notin> set (v # es) \<longrightarrow> ds_dom s' ! nat x = ds_dom s ! nat x"
    proof (intro allI impI)
      fix x assume x: "0 \<le> x \<and> x \<notin> set (v # es)"
      then have x': "0 \<le> x" "x \<noteq> v" "x \<notin> set es" by simp_all
      have "nat x \<noteq> nat v" using x'(1,2) vn(1) by linarith
      then show "ds_dom s' ! nat x = ds_dom s ! nat x" using r(8) x' by (simp add: s1_def)
    qed
  qed
qed

subsection \<open>One round of the main loop\<close>

lemma pending_mono:
  "pending E r V par k v \<Longrightarrow> k \<le> k' \<Longrightarrow> pending E r V par k' v"
  unfolding pending_def by (meson less_le_trans)

text \<open>The state after the rounds for the vertices numbered from \<open>k\<close> on.\<close>

definition dom_inv ::
  "(int \<Rightarrow> int \<Rightarrow> bool) \<Rightarrow> int \<Rightarrow> int list \<Rightarrow> (int \<Rightarrow> int) \<Rightarrow> nat \<Rightarrow> nat \<Rightarrow>
   dominator_state \<Rightarrow> bool" where
  "dom_inv E r V par n k s =
     (forest_inv E r V par n k (ds_semi s) (ds_ancestor s) (ds_label s) \<and>
      (\<forall>x \<in> set V. index_of V x < k \<longrightarrow> ds_semi s ! nat x = int (index_of V x) + 1) \<and>
      bucket_exact E r V par n k k (ds_bucket s) \<and>
      length (ds_dom s) = n \<and>
      (\<forall>v \<in> set V. k \<le> index_of V v \<and> \<not> pending E r V par k v \<longrightarrow>
          domrel E r V v (ds_dom s ! nat v)) \<and>
      (\<forall>x. 0 \<le> x \<and> nat x < n \<and> x \<notin> set V \<longrightarrow> ds_dom s ! nat x = - 2))"

lemma bucket_exact_drained:
  assumes t: "dfs_tree E r V par" and vr: "set V \<subseteq> {0 .. int n - 1}"
      and w: "w \<in> set V" "w \<noteq> r"
      and be: "bucket_exact E r V par n (index_of V w) (Suc (index_of V w)) buck"
      and nx: "db_next buck' = db_next buck"
      and hd: "db_head buck' = (db_head buck)[nat (par w) := 0]"
  shows "bucket_exact E r V par n (index_of V w) (index_of V w) buck'"
proof -
  let ?i = "index_of V w"
  let ?B = "\<lambda>k b. {v \<in> set V. ?i \<le> index_of V v \<and> sdv E V v = b \<and> pending E r V par k v}"
  note pw = tree_par [OF t w]
  note pn = vertex_nat [OF vr pw(1)]
  have len: "length (db_head buck) = n" "length (db_next buck) = n"
    using be unfolding bucket_exact_def by blast+
  have old: "\<exists>es. bucket_chain (db_next buck) (db_head buck ! nat b) es \<and> distinct es \<and>
               set es = ?B (Suc ?i) b" if "0 \<le> b" "nat b < n" for b
    using be that unfolding bucket_exact_def by blast
  have new: "\<exists>es. bucket_chain (db_next buck') (db_head buck' ! nat b) es \<and> distinct es \<and>
               set es = ?B ?i b" if b: "0 \<le> b" "nat b < n" for b
  proof (cases "b = par w")
    case True
    have "?B ?i b = {}"
    proof (rule ccontr)
      assume "?B ?i b \<noteq> {}"
      then obtain v where v: "v \<in> set V" "?i \<le> index_of V v" "sdv E V v = par w"
          "pending E r V par ?i v" using True by blast
      have "pending E r V par (Suc ?i) v" by (rule pending_mono [OF v(4)]) simp
      from pending_child(2) [OF t w v(1,2,3) this] show False using v(4) by simp
    qed
    moreover have "db_head buck' ! nat b = 0" unfolding hd using True pn len by simp
    ultimately show ?thesis by (intro exI [of _ "[]"]) simp
  next
    case False
    from old [OF b] obtain es where es: "bucket_chain (db_next buck) (db_head buck ! nat b) es"
        "distinct es" "set es = ?B (Suc ?i) b" by blast
    have "nat b \<noteq> nat (par w)" using False b(1) pn(1) by linarith
    then have h: "db_head buck' ! nat b = db_head buck ! nat b" unfolding hd by simp
    have "pending E r V par (Suc ?i) v = pending E r V par ?i v" if "sdv E V v = b" for v
      by (rule pending_other [OF t w(1)]) (use that False in simp)
    then have "?B (Suc ?i) b = ?B ?i b" by blast
    then show ?thesis unfolding h nx using es by blast
  qed
  show ?thesis
    unfolding bucket_exact_def using len new by (simp add: nx hd)
qed

lemma dominator_main_step_spec:
  assumes t: "dfs_tree E r V par" and vr: "set V \<subseteq> {0 .. int n - 1}"
      and w: "w \<in> set V" "w \<noteq> r"
      and vertex: "\<forall>j < length V. vertex ! j = V ! j + 1"
      and parent: "parent ! nat w = par w"
      and pred: "set (pred ! nat w) = {v \<in> set V. E v w}"
      and inv: "dom_inv E r V par n (Suc (index_of V w)) s"
  shows "\<exists>s'. dominator_main_step vertex parent pred (int (index_of V w)) s = Some s' \<and>
              dom_inv E r V par n (index_of V w) s'"
proof -
  let ?i = "index_of V w"
  let ?p = "par w"
  note pw = tree_par [OF t w]
  note pn = vertex_nat [OF vr pw(1)]
  note wn = vertex_nat [OF vr w(1)]
  note sw = sd_facts [OF t w]
  have il: "?i < length V" by (rule index_of_less [OF w(1)])
  have fi: "forest_inv E r V par n (Suc ?i) (ds_semi s) (ds_ancestor s) (ds_label s)"
    and unl: "\<forall>x \<in> set V. index_of V x < Suc ?i \<longrightarrow> ds_semi s ! nat x = int (index_of V x) + 1"
    and be: "bucket_exact E r V par n (Suc ?i) (Suc ?i) (ds_bucket s)"
    and dl: "length (ds_dom s) = n"
    and dr: "\<forall>v \<in> set V. Suc ?i \<le> index_of V v \<and> \<not> pending E r V par (Suc ?i) v \<longrightarrow>
               domrel E r V v (ds_dom s ! nat v)"
    and df: "\<forall>x. 0 \<le> x \<and> nat x < n \<and> x \<notin> set V \<longrightarrow> ds_dom s ! nat x = - 2"
    using inv unfolding dom_inv_def by blast+
  text \<open>The semidominator.\<close>
  have p1: "\<forall>v \<in> set (pred ! nat w). v \<in> set V \<and> E v w" using pred by simp
  have p3: "\<forall>x \<in> set V. index_of V x < ?i \<longrightarrow> ds_semi s ! nat x = int (index_of V x) + 1"
    using unl by simp
  have p4: "ds_semi s ! nat w = int ?i + 1" using unl w(1) by simp
  have p5: "sdn E V w \<le> ?i" using sw(4) by simp
  from dominator_pred_loop_spec [OF t vr w p1 fi p3 p4 p5] obtain s1 m where
    s1: "dominator_pred_loop w (pred ! nat w) s = Some s1"
        "forest_inv E r V par n (Suc ?i) (ds_semi s1) (ds_ancestor s1) (ds_label s1)"
        "\<forall>x \<in> set V. index_of V x < ?i \<longrightarrow> ds_semi s1 ! nat x = int (index_of V x) + 1"
        "ds_semi s1 ! nat w = int m + 1" "sdn E V w \<le> m"
        "\<forall>v \<in> set (pred ! nat w). pred_covered E r V par w v m"
        "ds_bucket s1 = ds_bucket s" "ds_dom s1 = ds_dom s"
    by (elim exE conjE)
  have "\<forall>v \<in> set V. E v w \<longrightarrow> pred_covered E r V par w v m" using s1(6) pred by simp
  from semidominator_computed [OF t w this s1(5)] have m: "m = sdn E V w" .
  have semi_w: "ds_semi s1 ! nat w = int (sdn E V w) + 1" using s1(4) m by simp
  have sl: "sdn E V w < length V" using sw(4) il by simp
  have bid: "vertex ! nat (ds_semi s1 ! nat w - 1) - 1 = sdv E V w"
    unfolding semi_w sdv_def using vertex sl by simp
  have wi: "vertex ! nat (int ?i) - 1 = w"
    using vertex il index_of_nth [OF w(1)] by simp
  define s2 where "s2 = s1 \<lparr> ds_bucket := igraph_i_dbucket_insert (ds_bucket s1) (sdv E V w) w \<rparr>"
  define s3 where "s3 = s2 \<lparr> ds_ancestor := igraph_i_dominator_LINK ?p w (ds_ancestor s2) \<rparr>"
  have step: "dominator_main_step vertex parent pred (int ?i) s = dominator_drain ?p s3"
    unfolding dominator_main_step_def Let_def wi
    using s1(1) by (simp add: bid parent s2_def s3_def)
  have be3: "bucket_exact E r V par n ?i (Suc ?i) (ds_bucket s3)"
    using bucket_exact_insert [OF t vr w be] s1(7) by (simp add: s3_def s2_def)
  have fi3: "forest_inv E r V par n ?i (ds_semi s3) (ds_ancestor s3) (ds_label s3)"
    using forest_inv_LINK [OF t vr w s1(2) semi_w] by (simp add: s3_def s2_def)
  have hl: "length (db_head (ds_bucket s3)) = n" using be3 unfolding bucket_exact_def by blast
  have dl3: "length (ds_dom s3) = n" using dl s1(8) by (simp add: s3_def s2_def)
  from be3 pn obtain es where
    es: "bucket_chain (db_next (ds_bucket s3)) (db_head (ds_bucket s3) ! nat ?p) es"
        "distinct es"
        "set es = {v \<in> set V. ?i \<le> index_of V v \<and> sdv E V v = ?p \<and>
                               pending E r V par (Suc ?i) v}"
    unfolding bucket_exact_def by blast
  have esp: "\<forall>v \<in> set es. v \<in> set V \<and> sdv E V v = ?p \<and> anc r V par w v"
  proof
    fix v assume "v \<in> set es"
    then have v: "v \<in> set V" "?i \<le> index_of V v" "sdv E V v = ?p"
        "pending E r V par (Suc ?i) v" unfolding es(3) by simp_all
    from pending_child(1) [OF t w v] v(1,3)
    show "v \<in> set V \<and> sdv E V v = ?p \<and> anc r V par w v" by simp
  qed
  from dominator_drain_spec [OF t vr w fi3 hl dl3 es(1,2) esp] obtain s' where
    r: "dominator_drain ?p s3 = Some s'"
       "forest_inv E r V par n ?i (ds_semi s') (ds_ancestor s') (ds_label s')"
       "ds_semi s' = ds_semi s3"
       "db_next (ds_bucket s') = db_next (ds_bucket s3)"
       "db_head (ds_bucket s') = (db_head (ds_bucket s3))[nat ?p := 0]"
       "length (ds_dom s') = n"
       "\<forall>v \<in> set es. domrel E r V v (ds_dom s' ! nat v)"
       "\<forall>x. 0 \<le> x \<and> x \<notin> set es \<longrightarrow> ds_dom s' ! nat x = ds_dom s3 ! nat x"
    by (elim exE conjE)
  have dom3: "ds_dom s3 = ds_dom s" using s1(8) by (simp add: s3_def s2_def)
  have semi3: "ds_semi s3 = ds_semi s1" by (simp add: s3_def s2_def)
  have c2: "\<forall>x \<in> set V. index_of V x < ?i \<longrightarrow> ds_semi s' ! nat x = int (index_of V x) + 1"
    unfolding r(3) semi3 by (rule s1(3))
  have c3: "bucket_exact E r V par n ?i ?i (ds_bucket s')"
    by (rule bucket_exact_drained [OF t vr w be3 r(4,5)])
  have c5: "\<forall>v \<in> set V. ?i \<le> index_of V v \<and> \<not> pending E r V par ?i v \<longrightarrow>
              domrel E r V v (ds_dom s' ! nat v)"
  proof (intro ballI impI)
    fix v assume v: "v \<in> set V" and "?i \<le> index_of V v \<and> \<not> pending E r V par ?i v"
    then have iv: "?i \<le> index_of V v" and np: "\<not> pending E r V par ?i v" by simp_all
    show "domrel E r V v (ds_dom s' ! nat v)"
    proof (cases "v \<in> set es")
      case True
      then show ?thesis using r(7) by blast
    next
      case False
      have same: "ds_dom s' ! nat v = ds_dom s ! nat v"
        using r(8) False vertex_nat(1) [OF vr v] dom3 by simp
      have np': "\<not> pending E r V par (Suc ?i) v"
      proof (cases "sdv E V v = ?p")
        case True
        then show ?thesis using False v iv unfolding es(3) by simp
      next
        case False
        then show ?thesis using pending_other [OF t w(1) False] np by simp
      qed
      have "v \<noteq> w" using np' pending_self [OF t w] by auto
      then have "index_of V v \<noteq> ?i" using index_of_inj [OF v w(1)] by blast
      then have "Suc ?i \<le> index_of V v" using iv by simp
      then show ?thesis unfolding same using dr v np' by blast
    qed
  qed
  have c6: "\<forall>x. 0 \<le> x \<and> nat x < n \<and> x \<notin> set V \<longrightarrow> ds_dom s' ! nat x = - 2"
  proof (intro allI impI)
    fix x assume x: "0 \<le> x \<and> nat x < n \<and> x \<notin> set V"
    then have "x \<notin> set es" unfolding es(3) by simp
    then have "ds_dom s' ! nat x = ds_dom s ! nat x" using r(8) x dom3 by simp
    then show "ds_dom s' ! nat x = - 2" using df x by simp
  qed
  have "dom_inv E r V par n ?i s'"
    unfolding dom_inv_def using r(2) c2 c3 r(6) c5 c6 by blast
  then show ?thesis using step r(1) by simp
qed

subsection \<open>The main loop\<close>

lemma dominator_main_loop_spec:
  assumes t: "dfs_tree E r V par" and vr: "set V \<subseteq> {0 .. int n - 1}"
      and vertex: "\<forall>j < length V. vertex ! j = V ! j + 1"
      and parent: "\<forall>w \<in> set V. parent ! nat w = par w"
      and pred: "\<forall>w \<in> set V. set (pred ! nat w) = {v \<in> set V. E v w}"
  shows "k < length V \<Longrightarrow> dom_inv E r V par n (Suc k) s \<Longrightarrow>
         \<exists>s'. fold_option (dominator_main_step vertex parent pred) (rev [1 .. int k]) s = Some s' \<and>
              dom_inv E r V par n (Suc 0) s'"
proof (induction k arbitrary: s)
  case 0
  then show ?case by simp
next
  case (Suc k)
  define w where "w = V ! Suc k"
  have wV: "w \<in> set V" unfolding w_def using Suc.prems(1) by simp
  have iw: "index_of V w = Suc k"
    unfolding w_def by (rule index_of_eq [OF dfs_tree_facts(1) [OF t] Suc.prems(1)])
  have wr: "w \<noteq> r" using iw dfs_tree_facts(3) [OF t] by auto
  have inv: "dom_inv E r V par n (Suc (index_of V w)) s" using Suc.prems(2) iw by simp
  from dominator_main_step_spec [OF t vr wV wr vertex _ _ inv, of parent pred]
  obtain s1 where s1: "dominator_main_step vertex parent pred (int (Suc k)) s = Some s1"
      "dom_inv E r V par n (Suc k) s1"
    using parent pred wV iw by auto
  have "k < length V" using Suc.prems(1) by simp
  from Suc.IH [OF this s1(2)] obtain s' where
    s': "fold_option (dominator_main_step vertex parent pred) (rev [1 .. int k]) s1 = Some s'"
        "dom_inv E r V par n (Suc 0) s'" by blast
  have "rev [1 .. int (Suc k)] = int (Suc k) # rev [1 .. int k]"
    unfolding upto_snoc_int by simp
  then have "fold_option (dominator_main_step vertex parent pred) (rev [1 .. int (Suc k)]) s
             = Some s'"
    using s1(1) s'(1) by (simp only: fold_option.simps option.case)
  then show ?case using s'(2) by blast
qed

subsection \<open>The predecessor lists\<close>

lemma igraph_neighbors_reverse:
  assumes "g_directed graph" "mode \<noteq> IGRAPH_ALL"
  shows "v \<in> set (igraph_neighbors graph w (IGRAPH_REVERSE_MODE mode)) \<longleftrightarrow>
         w \<in> set (igraph_neighbors graph v mode)"
proof (cases mode)
  case IGRAPH_OUT
  then show ?thesis using assms(1)
    by (force simp: igraph_neighbors_def IGRAPH_REVERSE_MODE_def)
next
  case IGRAPH_IN
  then show ?thesis using assms(1)
    by (force simp: igraph_neighbors_def IGRAPH_REVERSE_MODE_def)
next
  case IGRAPH_ALL
  then show ?thesis using assms(2) by simp
qed

lemma set_swap_out:
  assumes j: "j < length v"
  shows "set v \<subseteq> insert (v ! j) (set (butlast (v[j := v ! (length v - 1)])))"
proof
  let ?v' = "butlast (v[j := v ! (length v - 1)])"
  fix x assume "x \<in> set v"
  then obtain q where q: "q < length v" "x = v ! q" by (auto simp: in_set_conv_nth)
  have len: "length ?v' = length v - 1" by simp
  consider "q = j" | "q \<noteq> j" "q = length v - 1" | "q \<noteq> j" "q < length v - 1"
    using q(1) by linarith
  then show "x \<in> insert (v ! j) (set ?v')"
  proof cases
    case 1
    then show ?thesis using q(2) by simp
  next
    case 2
    then have jl: "j < length v - 1" using j by simp
    then have "?v' ! j = x" using q(2) 2 j by (simp add: nth_butlast)
    moreover have "?v' ! j \<in> set ?v'" using jl len by (intro nth_mem) simp
    ultimately show ?thesis by simp
  next
    case 3
    then have "?v' ! q = x" using q(2) by (simp add: nth_butlast)
    moreover have "?v' ! q \<in> set ?v'" using 3 len by (intro nth_mem) simp
    ultimately show ?thesis by simp
  qed
qed

lemma dominator_prune_set:
  "n = int (length v) \<Longrightarrow> 0 \<le> j \<Longrightarrow> \<forall>q < nat j. parent ! nat (v ! q) \<ge> - 1 \<Longrightarrow>
   set (dominator_prune parent v j n) = {x \<in> set v. parent ! nat x \<ge> - 1}"
proof (induction parent v j n rule: dominator_prune.induct)
  case (1 parent v j n)
  show ?case
  proof (cases "j < n")
    case False
    then have "length v \<le> nat j" using "1.prems"(1) by simp
    then have "\<forall>x \<in> set v. parent ! nat x \<ge> - 1"
      using "1.prems"(3) by (auto simp: in_set_conv_nth)
    then have "{x \<in> set v. parent ! nat x \<ge> - 1} = set v" by blast
    then show ?thesis using False by (subst dominator_prune.simps) simp
  next
    case True
    let ?v' = "butlast (v[nat j := v ! nat (n - 1)])"
    have jl: "nat j < length v" using True "1.prems"(1,2) by simp
    have n1: "nat (n - 1) = length v - 1" using "1.prems"(1) by simp
    show ?thesis
    proof (cases "parent ! nat (v ! nat j) \<ge> - 1")
      case keep: True
      have pre: "\<forall>q < nat (j + 1). parent ! nat (v ! q) \<ge> - 1"
      proof (intro allI impI)
        fix q assume "q < nat (j + 1)"
        then have "q < nat j \<or> q = nat j" using "1.prems"(2) by linarith
        then show "parent ! nat (v ! q) \<ge> - 1" using "1.prems"(3) keep by blast
      qed
      have "set (dominator_prune parent v (j + 1) n) = {x \<in> set v. parent ! nat x \<ge> - 1}"
        using "1.IH"(1) [OF True refl keep "1.prems"(1) _ pre] "1.prems"(2) by simp
      then show ?thesis using True keep by (subst dominator_prune.simps) (simp add: Let_def)
    next
      case drop: False
      have len: "n - 1 = int (length ?v')" using "1.prems"(1) jl by (cases "length v") simp_all
      have pre: "\<forall>q < nat j. parent ! nat (?v' ! q) \<ge> - 1"
      proof (intro allI impI)
        fix q assume q: "q < nat j"
        then have "?v' ! q = v ! q" using jl by (simp add: nth_butlast)
        then show "parent ! nat (?v' ! q) \<ge> - 1" using "1.prems"(3) q by simp
      qed
      have "v ! nat (n - 1) \<in> set v" unfolding n1 using jl by simp
      then have sub: "set ?v' \<subseteq> set v"
        using set_update_subset_insert [of v "nat j" "v ! nat (n - 1)"]
        by (auto dest: in_set_butlastD)
      have sup: "set v \<subseteq> insert (v ! nat j) (set ?v')"
        using set_swap_out [OF jl] unfolding n1 .
      have eq: "{x \<in> set ?v'. parent ! nat x \<ge> - 1} = {x \<in> set v. parent ! nat x \<ge> - 1}"
        using sub sup drop by blast
      have "set (dominator_prune parent ?v' j (n - 1)) = {x \<in> set ?v'. parent ! nat x \<ge> - 1}"
        using "1.IH"(2) [OF True refl drop len "1.prems"(2) pre] .
      then show ?thesis
        using True drop eq by (subst dominator_prune.simps) (simp add: Let_def)
    qed
  qed
qed

lemma dominator_pred_exact:
  assumes wf: "igraph_wf graph" and dir: "g_directed graph" and mode: "mode \<noteq> IGRAPH_ALL"
      and ok: "dfs_result_ok graph rootv V order parent"
      and w: "0 \<le> w" "w < g_n graph"
  shows "set (map (\<lambda>v. dominator_prune parent v 0 (int (length v)))
                (igraph_adjlist_init graph (IGRAPH_REVERSE_MODE mode)) ! nat w)
         = {v \<in> set V. w \<in> set (igraph_neighbors graph v mode)}"
proof -
  let ?l = "igraph_neighbors graph w (IGRAPH_REVERSE_MODE mode)"
  have nw: "nat w < nat (g_n graph)" using w by simp
  have up: "[0 .. g_n graph - 1] ! nat w = w"
    using nth_upto [of 0 "nat w" "g_n graph - 1"] w by simp
  have "map (\<lambda>v. dominator_prune parent v 0 (int (length v)))
          (igraph_adjlist_init graph (IGRAPH_REVERSE_MODE mode)) ! nat w
        = dominator_prune parent ?l 0 (int (length ?l))"
    using nw up by (simp add: igraph_adjlist_init_def igraph_vcount_def)
  moreover have "set (dominator_prune parent ?l 0 (int (length ?l)))
                 = {x \<in> set ?l. parent ! nat x \<ge> - 1}"
    by (rule dominator_prune_set) simp_all
  moreover have "{x \<in> set ?l. parent ! nat x \<ge> - 1}
                 = {v \<in> set V. w \<in> set (igraph_neighbors graph v mode)}"
  proof -
    have rng: "set V \<subseteq> {0 .. g_n graph - 1}" and dist: "distinct V"
      and hd: "\<exists>rest. V = rootv # rest"
      and pr: "parent ! nat rootv = - 1"
      and un: "\<forall>x \<in> {0 .. g_n graph - 1} - set V. parent ! nat x = - 2"
      and pa: "\<forall>j < length V. 0 < j \<longrightarrow> (\<exists>i < j. parent ! nat (V ! j) = V ! i)"
      using ok unfolding dfs_result_ok_def by blast+
    have inV: "parent ! nat x \<ge> - 1" if x: "x \<in> set V" for x
    proof -
      obtain j where j: "j < length V" "x = V ! j" using x by (auto simp: in_set_conv_nth)
      show ?thesis
      proof (cases "j = 0")
        case True
        then have "x = rootv" using j hd by auto
        then show ?thesis using pr by simp
      next
        case False
        then obtain i where i: "i < j" "parent ! nat (V ! j) = V ! i" using pa j(1) by auto
        have "V ! i \<in> set V" using i(1) j(1) by simp
        then have "0 \<le> V ! i" using rng by auto
        then show ?thesis using i(2) j(2) by simp
      qed
    qed
    have notV: "\<not> parent ! nat x \<ge> - 1" if "x \<in> set ?l" "x \<notin> set V" for x
    proof -
      have "0 \<le> x \<and> x < g_n graph" using igraph_wf_neighbors [OF wf] that(1) by blast
      then have "parent ! nat x = - 2" using un that(2) by simp
      then show ?thesis by simp
    qed
    have dual: "x \<in> set ?l \<longleftrightarrow> w \<in> set (igraph_neighbors graph x mode)" for x
      by (rule igraph_neighbors_reverse [OF dir mode])
    show ?thesis using inV notV dual by blast
  qed
  ultimately show ?thesis by simp
qed

subsection \<open>Step 4 and the outputs\<close>

lemma dominator_fixup_spec:
  assumes t: "dfs_tree E r V par" and vr: "set V \<subseteq> {0 .. int n - 1}"
      and vertex: "\<forall>j < length V. vertex ! j = V ! j + 1"
      and semi: "\<forall>x \<in> set V. 1 \<le> index_of V x \<longrightarrow> semi ! nat x = int (sdn E V x) + 1"
      and len: "length dm = n"
      and rel: "\<forall>v \<in> set V. 1 \<le> index_of V v \<longrightarrow> domrel E r V v (dm ! nat v)"
      and out: "\<forall>x. 0 \<le> x \<and> nat x < n \<and> x \<notin> set V \<longrightarrow> dm ! nat x = - 2"
  shows "k < length V \<Longrightarrow>
         length (fold (dominator_fixup_step vertex semi) [1 .. int k] dm) = n \<and>
         (\<forall>v \<in> set V. 1 \<le> index_of V v \<and> index_of V v \<le> k \<longrightarrow>
            fold (dominator_fixup_step vertex semi) [1 .. int k] dm ! nat v = idom E r V v) \<and>
         (\<forall>v \<in> set V. k < index_of V v \<longrightarrow>
            fold (dominator_fixup_step vertex semi) [1 .. int k] dm ! nat v = dm ! nat v) \<and>
         (\<forall>x. 0 \<le> x \<and> nat x < n \<and> x \<notin> set V \<longrightarrow>
            fold (dominator_fixup_step vertex semi) [1 .. int k] dm ! nat x = - 2)"
proof (induction k)
  case 0
  then show ?case using len out by simp
next
  case (Suc k)
  define d1 where "d1 = fold (dominator_fixup_step vertex semi) [1 .. int k] dm"
  have "k < length V" using Suc.prems by simp
  from Suc.IH [OF this] have
    ih: "length d1 = n"
        "\<forall>v \<in> set V. 1 \<le> index_of V v \<and> index_of V v \<le> k \<longrightarrow> d1 ! nat v = idom E r V v"
        "\<forall>v \<in> set V. k < index_of V v \<longrightarrow> d1 ! nat v = dm ! nat v"
        "\<forall>x. 0 \<le> x \<and> nat x < n \<and> x \<notin> set V \<longrightarrow> d1 ! nat x = - 2"
    unfolding d1_def by blast+
  define w where "w = V ! Suc k"
  have wV: "w \<in> set V" unfolding w_def using Suc.prems by simp
  have iw: "index_of V w = Suc k"
    unfolding w_def by (rule index_of_eq [OF dfs_tree_facts(1) [OF t] Suc.prems])
  have wr: "w \<noteq> r" using iw dfs_tree_facts(3) [OF t] by auto
  note wn = vertex_nat [OF vr wV]
  note sw = sd_facts [OF t wV wr]
  have sl: "sdn E V w < length V" using sw(4) iw Suc.prems by simp
  have vw: "vertex ! nat (int k + 1) - 1 = w"
    using vertex Suc.prems by (simp add: w_def nat_add_distrib)
  have sv: "vertex ! nat (semi ! nat w - 1) - 1 = sdv E V w"
    using semi wV iw vertex sl by (simp add: sdv_def)
  have dw: "domrel E r V w (d1 ! nat w)" using ih(3) rel wV iw by simp
  have step: "dominator_fixup_step vertex semi (int k + 1) d1 = d1[nat w := idom E r V w]"
  proof (cases "d1 ! nat w = sdv E V w")
    case True
    then have "idom E r V w = d1 ! nat w" using dw by (simp add: domrel_def)
    then have "d1[nat w := idom E r V w] = d1" by simp
    then show ?thesis using True by (simp add: dominator_fixup_step_def Let_def vw sv)
  next
    case False
    let ?d = "d1 ! nat w"
    have d: "?d \<in> set V" "?d \<noteq> r" "index_of V ?d < index_of V w"
        "idom E r V ?d = idom E r V w"
      using dw False by (simp_all add: domrel_def)
    have "index_of V ?d \<noteq> 0"
    proof
      assume "index_of V ?d = 0"
      then have "index_of V ?d = index_of V r" using dfs_tree_facts(3) [OF t] by simp
      then have "?d = r" by (rule index_of_inj [OF d(1) dfs_tree_facts(2) [OF t]])
      then show False using d(2) by simp
    qed
    then have "1 \<le> index_of V ?d \<and> index_of V ?d \<le> k" using d(3) iw by simp
    then have "d1 ! nat ?d = idom E r V w" using ih(2) d(1,4) by simp
    then show ?thesis using False by (simp add: dominator_fixup_step_def Let_def vw sv)
  qed
  have fold: "fold (dominator_fixup_step vertex semi) [1 .. int (Suc k)] dm
              = d1[nat w := idom E r V w]"
    unfolding upto_snoc_int using step by (simp add: d1_def)
  have other: "d1[nat w := idom E r V w] ! nat x = d1 ! nat x" if "0 \<le> x" "x \<noteq> w" for x
  proof -
    have "nat x \<noteq> nat w" using that wn(1) by linarith
    then show ?thesis by simp
  qed
  show ?case unfolding fold
  proof (intro conjI ballI allI impI)
    show "length (d1[nat w := idom E r V w]) = n" using ih(1) by simp
  next
    fix v assume v: "v \<in> set V" "1 \<le> index_of V v \<and> index_of V v \<le> Suc k"
    show "d1[nat w := idom E r V w] ! nat v = idom E r V v"
    proof (cases "v = w")
      case True
      then show ?thesis using wn ih(1) by simp
    next
      case False
      then have "index_of V v \<noteq> Suc k" using index_of_inj [OF v(1) wV] iw by auto
      then have "1 \<le> index_of V v \<and> index_of V v \<le> k" using v(2) by simp
      then show ?thesis using other [OF vertex_nat(1) [OF vr v(1)] False] ih(2) v(1) by simp
    qed
  next
    fix v assume v: "v \<in> set V" "Suc k < index_of V v"
    then have "v \<noteq> w" using iw by auto
    from other [OF vertex_nat(1) [OF vr v(1)] this]
    show "d1[nat w := idom E r V w] ! nat v = dm ! nat v" using ih(3) v by simp
  next
    fix x assume x: "0 \<le> x \<and> nat x < n \<and> x \<notin> set V"
    then have "x \<noteq> w" using wV by auto
    then show "d1[nat w := idom E r V w] ! nat x = - 2" using other [of x] x ih(4) by simp
  qed
qed

lemma dominator_tree_edge_fold_nonneg:
  "\<forall>x \<in> set (fst ep). 0 \<le> x \<Longrightarrow> \<forall>i \<in> set is. 0 \<le> i \<Longrightarrow>
   (\<forall>x \<in> set (fst (fold (dominator_tree_edge_step rootv mode mydom) is ep)). 0 \<le> x) \<and>
   length (fst (fold (dominator_tree_edge_step rootv mode mydom) is ep)) = length (fst ep)"
proof (induction "is" arbitrary: ep)
  case Nil
  then show ?case by simp
next
  case (Cons i "is")
  let ?ep' = "dominator_tree_edge_step rootv mode mydom i ep"
  have st: "\<forall>x \<in> set (fst (store_next a p)). 0 \<le> x" "length (fst (store_next a p)) = length (fst p)"
    if "\<forall>x \<in> set (fst p). 0 \<le> x" "0 \<le> a" for a :: int and p
    using that set_update_subset_insert [of "fst p" "nat (snd p)" a]
    by (auto simp: store_next_def)
  have i: "0 \<le> i" using Cons.prems(2) by simp
  have "(\<forall>x \<in> set (fst ?ep'). 0 \<le> x) \<and> length (fst ?ep') = length (fst ep)"
  proof (cases "i \<noteq> rootv \<and> mydom ! nat i \<ge> 0")
    case True
    then have m: "0 \<le> mydom ! nat i" by simp
    show ?thesis
    proof (cases "mode = IGRAPH_OUT")
      case out: True
      have e: "?ep' = store_next i (store_next (mydom ! nat i) ep)"
        using True out by (simp add: dominator_tree_edge_step_def)
      note a = st [OF Cons.prems(1) m]
      note b = st [OF a(1) i]
      show ?thesis unfolding e using a b by simp
    next
      case False
      have e: "?ep' = store_next (mydom ! nat i) (store_next i ep)"
        using True False by (simp add: dominator_tree_edge_step_def)
      note a = st [OF Cons.prems(1) i]
      note b = st [OF a(1) m]
      show ?thesis unfolding e using a b by simp
    qed
  next
    case False
    then have "?ep' = ep" unfolding dominator_tree_edge_step_def by (simp only: if_False)
    then show ?thesis using Cons.prems(1) by simp
  qed
  then have 1: "\<forall>x \<in> set (fst ?ep'). 0 \<le> x" and 2: "length (fst ?ep') = length (fst ep)"
    by blast+
  have 3: "\<forall>i \<in> set is. 0 \<le> i" using Cons.prems(2) by simp
  from Cons.IH [OF 1 3] show ?case using 2 by simp
qed

lemma igraph_dominator_tree_Some:
  fixes graph :: igraph_t and opf :: "int list \<times> int list \<times> igraph_dfs_event list"
    and mode :: igraph_neimode_t
  defines "n \<equiv> igraph_vcount graph"
  defines "svc \<equiv> fold dominator_number_step [0 .. n - 1] (replicate (nat n) 0, fst opf, 0)"
  defines "pred \<equiv> map (\<lambda>v. dominator_prune (fst (snd opf)) v 0 (int (length v)))
                     (igraph_adjlist_init graph (IGRAPH_REVERSE_MODE mode))"
  defines "s0 \<equiv> \<lparr> ds_semi = fst svc, ds_ancestor = replicate (nat n) 0,
                  ds_label = [0 .. n - 1], ds_bucket = igraph_i_dbucket_init n,
                  ds_dom = replicate (nat n) (- 2) \<rparr>"
  assumes r: "0 \<le> rootv" "rootv < n" and dir: "igraph_is_directed graph"
      and mode: "mode \<noteq> IGRAPH_ALL"
      and dfs: "igraph_dfs graph rootv mode = Inr opf"
      and loop: "fold_option (dominator_main_step (fst (snd svc)) (fst (snd opf)) pred)
                   (rev [1 .. snd (snd svc) - 1]) s0 = Some s1"
      and od: "out_dom outs = Some d0"
      and cs: "1 \<le> snd (snd svc)"
  shows "\<exists>outs'. igraph_dominator_tree graph rootv outs wd mode = Some (Inr (), outs') \<and>
           out_dom outs' = Some ((fold (dominator_fixup_step (fst (snd svc)) (ds_semi s1))
                                    [1 .. snd (snd svc) - 1] (ds_dom s1))[nat rootv := - 1])"
proof -
  define mydom where "mydom = (fold (dominator_fixup_step (fst (snd svc)) (ds_semi s1))
                                    [1 .. snd (snd svc) - 1] (ds_dom s1))[nat rootv := - 1]"
  define ep where "ep = fold (dominator_tree_edge_step rootv mode mydom) [0 .. n - 1]
                           (replicate (nat (snd (snd svc) * 2 - 2)) 0, 0)"
  have "(\<forall>x \<in> set (fst ep). 0 \<le> x) \<and>
        length (fst ep) = length (fst (replicate (nat (snd (snd svc) * 2 - 2)) (0::int), 0::int))"
    unfolding ep_def by (rule dominator_tree_edge_fold_nonneg) simp_all
  then have nn: "\<forall>x \<in> set (fst ep). 0 \<le> x" and len: "length (fst ep) = nat (snd (snd svc) * 2 - 2)"
    by simp_all
  have "nat (snd (snd svc) * 2 - 2) = 2 * nat (snd (snd svc) - 1)" using cs by simp
  then have ev: "length (fst ep) mod 2 = 0" using len by simp
  have "\<not> list_ex (\<lambda>x. x < 0) (fst ep)" using nn by (fastforce simp: list_ex_iff)
  then obtain dt where cr: "igraph_create (fst ep) n True = Inr dt"
    using ev by (simp add: igraph_create_def)
  show ?thesis
    unfolding igraph_dominator_tree_def Let_def
    using r dir mode dfs loop od cr
    unfolding n_def svc_def pred_def s0_def mydom_def ep_def
    by (simp split: option.splits)
qed

lemma igraph_dominator_tree_run:
  fixes graph :: igraph_t and opf :: "int list \<times> int list \<times> igraph_dfs_event list"
    and mode :: igraph_neimode_t
  defines "n \<equiv> igraph_vcount graph"
  defines "svc \<equiv> fold dominator_number_step [0 .. n - 1] (replicate (nat n) 0, fst opf, 0)"
  defines "pred \<equiv> map (\<lambda>v. dominator_prune (fst (snd opf)) v 0 (int (length v)))
                     (igraph_adjlist_init graph (IGRAPH_REVERSE_MODE mode))"
  defines "s0 \<equiv> \<lparr> ds_semi = fst svc, ds_ancestor = replicate (nat n) 0,
                  ds_label = [0 .. n - 1], ds_bucket = igraph_i_dbucket_init n,
                  ds_dom = replicate (nat n) (- 2) \<rparr>"
  assumes r: "0 \<le> rootv" "rootv < n" and dir: "igraph_is_directed graph"
      and mode: "mode \<noteq> IGRAPH_ALL"
      and dfs: "igraph_dfs graph rootv mode = Inr opf"
      and loop: "fold_option (dominator_main_step (fst (snd svc)) (fst (snd opf)) pred)
                   (rev [1 .. snd (snd svc) - 1]) s0 = Some s1"
      and cs: "1 \<le> snd (snd svc)"
  defines "mydom \<equiv> (fold (dominator_fixup_step (fst (snd svc)) (ds_semi s1))
                          [1 .. snd (snd svc) - 1] (ds_dom s1))[nat rootv := - 1]"
  shows "\<exists>outs' dt. igraph_dominator_tree graph rootv outs wd mode = Some (Inr (), outs') \<and>
           out_dom outs' = (if out_dom outs = None then None else Some mydom) \<and>
           out_leftout outs'
             = (case out_leftout outs of
                  None \<Rightarrow> None
                | Some l \<Rightarrow>
                    Some (fst (fold (dominator_leftout_step (fst (snd opf)) (n - snd (snd svc)))
                                 [0 .. n - 1] (igraph_vector_resize l (n - snd (snd svc)), 0)))) \<and>
           igraph_create
             (fst (fold (dominator_tree_edge_step rootv mode mydom) [0 .. n - 1]
                     (replicate (nat (snd (snd svc) * 2 - 2)) 0, 0))) n True = Inr dt \<and>
           out_domtree outs' = (if wd then Some dt else out_domtree outs)"
proof -
  define ep where "ep = fold (dominator_tree_edge_step rootv mode mydom) [0 .. n - 1]
                           (replicate (nat (snd (snd svc) * 2 - 2)) 0, 0)"
  have "(\<forall>x \<in> set (fst ep). 0 \<le> x) \<and>
        length (fst ep) = length (fst (replicate (nat (snd (snd svc) * 2 - 2)) (0::int), 0::int))"
    unfolding ep_def by (rule dominator_tree_edge_fold_nonneg) simp_all
  then have nn: "\<forall>x \<in> set (fst ep). 0 \<le> x" and len: "length (fst ep) = nat (snd (snd svc) * 2 - 2)"
    by simp_all
  have "nat (snd (snd svc) * 2 - 2) = 2 * nat (snd (snd svc) - 1)" using cs by simp
  then have ev: "length (fst ep) mod 2 = 0" using len by simp
  have "\<not> list_ex (\<lambda>x. x < 0) (fst ep)" using nn by (fastforce simp: list_ex_iff)
  then obtain dt where cr: "igraph_create (fst ep) n True = Inr dt"
    using ev by (simp add: igraph_create_def)
  show ?thesis
    unfolding igraph_dominator_tree_def Let_def
    using r dir mode dfs loop cr
    unfolding n_def svc_def pred_def s0_def mydom_def ep_def
    by (cases "out_leftout outs"; cases "out_dom outs"; simp)
qed

lemma dominator_tree_edge_fold_stores:
  "fold (dominator_tree_edge_step rootv mode mydom) is ep
   = stores (concat (map (\<lambda>i. if i \<noteq> rootv \<and> mydom ! nat i \<ge> 0
                                then (if mode = IGRAPH_OUT then [mydom ! nat i, i]
                                      else [i, mydom ! nat i])
                                else []) is)) ep"
proof (induction "is" arbitrary: ep)
  case Nil
  then show ?case by (simp add: stores_Nil)
next
  case (Cons i "is")
  have "dominator_tree_edge_step rootv mode mydom i ep
        = stores (if i \<noteq> rootv \<and> mydom ! nat i \<ge> 0
                  then (if mode = IGRAPH_OUT then [mydom ! nat i, i] else [i, mydom ! nat i])
                  else []) ep"
    by (simp add: dominator_tree_edge_step_def stores_Cons stores_Nil)
  then show ?case using Cons.IH by (simp add: stores_append)
qed

lemma concat_map_if:
  "concat (map (\<lambda>i. if c i then f i else []) xs) = concat (map f (filter c xs))"
  by (induction xs) simp_all

lemma edge_pairs_concat_pairs:
  "edge_pairs (concat (map (\<lambda>i. [a i, b i]) xs)) = map (\<lambda>i. (a i, b i)) xs"
  by (induction xs) simp_all

lemma length_filter_inside:
  assumes "distinct V" "set V \<subseteq> {0 .. int n - 1}" "r \<in> set V"
  shows "length (filter (\<lambda>i. i \<in> set V \<and> i \<noteq> r) [0 .. int n - 1]) = length V - 1"
proof -
  have "length (filter (\<lambda>i. i \<in> set V \<and> i \<noteq> r) [0 .. int n - 1])
          = card ({i. i \<in> set V \<and> i \<noteq> r} \<inter> set [0 .. int n - 1])"
    by (rule distinct_length_filter) simp
  also have "{i. i \<in> set V \<and> i \<noteq> r} \<inter> set [0 .. int n - 1] = set V - {r}"
    using assms(2) by auto
  also have "card (set V - {r}) = card (set V) - 1" using assms(3) by simp
  also have "card (set V) = length V" using assms(1) by (rule distinct_card)
  finally show ?thesis .
qed

lemma dom_inv_start:
  assumes vr: "set V \<subseteq> {0 .. int n - 1}" and len: "length num = n"
      and num: "\<forall>j < length V. num ! nat (V ! j) = int j + 1"
  shows "dom_inv E r V par n (length V)
           \<lparr> ds_semi = num, ds_ancestor = replicate n 0, ds_label = [0 .. int n - 1],
             ds_bucket = igraph_i_dbucket_init (int n), ds_dom = replicate n (- 2) \<rparr>"
proof -
  have lt: "index_of V x < length V" if "x \<in> set V" for x using that by (rule index_of_less)
  have 1: "forest_inv E r V par n (length V) num (replicate n 0) [0 .. int n - 1]"
    by (rule forest_inv_start [OF vr len])
  have 2: "\<forall>x \<in> set V. index_of V x < length V \<longrightarrow> num ! nat x = int (index_of V x) + 1"
  proof (intro ballI impI)
    fix x assume x: "x \<in> set V"
    from num lt [OF x] have "num ! nat (V ! index_of V x) = int (index_of V x) + 1" by blast
    then show "num ! nat x = int (index_of V x) + 1" using index_of_nth [OF x] by simp
  qed
  have e: "{v \<in> set V. length V \<le> index_of V v \<and> sdv E V v = b \<and>
             pending E r V par (length V) v} = {}" for b
    using lt by fastforce
  have 3: "bucket_exact E r V par n (length V) (length V) (igraph_i_dbucket_init (int n))"
    unfolding bucket_exact_def igraph_i_dbucket_init_def e
    by (intro conjI allI impI) (simp, simp, rule exI [of _ "[]"], simp)
  have 5: "\<forall>v \<in> set V. length V \<le> index_of V v \<and> \<not> pending E r V par (length V) v \<longrightarrow>
             domrel E r V v (replicate n (- 2) ! nat v)"
    using lt by fastforce
  show ?thesis
    unfolding dom_inv_def using 1 2 3 5 by simp
qed

text \<open>The edges that the search follows from \<open>x\<close> in the given mode.\<close>

definition flow_edge :: "igraph_t \<Rightarrow> igraph_neimode_t \<Rightarrow> int \<Rightarrow> int \<Rightarrow> bool" where
  "flow_edge graph mode x y = (y \<in> set (igraph_neighbors graph x mode))"

text \<open>
  Everything that \<^verbatim>\<open>igraph_dominator_tree\<close> returns, in terms of the vertices \<open>V\<close> that
  the search reaches from the root.
\<close>

lemma igraph_dominator_tree_outputs:
  assumes wf: "igraph_wf graph" and dir: "igraph_is_directed graph"
      and root: "0 \<le> rootv" "rootv < igraph_vcount graph"
      and mode: "mode \<noteq> IGRAPH_ALL"
  shows "\<exists>outs' dm V par.
           igraph_dominator_tree graph rootv outs wd mode = Some (Inr (), outs') \<and>
           out_dom outs' = (if out_dom outs = None then None else Some dm) \<and>
           length dm = nat (igraph_vcount graph) \<and>
           dm ! nat rootv = - 1 \<and>
           dfs_tree (flow_edge graph mode) rootv V par \<and>
           (\<forall>v \<in> set V. v \<noteq> rootv \<longrightarrow> dm ! nat v = idom (flow_edge graph mode) rootv V v) \<and>
           (\<forall>v. 0 \<le> v \<and> v < igraph_vcount graph \<and> v \<notin> set V \<longrightarrow> dm ! nat v = - 2) \<and>
           set V \<subseteq> {0 .. igraph_vcount graph - 1} \<and>
           out_leftout outs'
             = (if out_leftout outs = None then None
                else Some (filter (\<lambda>j. j \<notin> set V) [0 .. igraph_vcount graph - 1])) \<and>
           out_domtree outs'
             = (if wd
                then Some \<lparr> g_n = igraph_vcount graph, g_directed = True,
                            g_edges = map (\<lambda>i. if mode = IGRAPH_OUT then (dm ! nat i, i)
                                                else (i, dm ! nat i))
                                        (filter (\<lambda>i. i \<in> set V \<and> i \<noteq> rootv)
                                           [0 .. igraph_vcount graph - 1]) \<rparr>
                else out_domtree outs)"
proof -
  let ?E = "flow_edge graph mode"
  define n where "n = nat (g_n graph)"
  have gn: "g_n graph = int n" "igraph_vcount graph = int n"
    using wf by (simp_all add: n_def igraph_wf_def igraph_vcount_def)
  have gd: "g_directed graph" using dir by (simp add: igraph_is_directed_def)
  obtain opf where dfs: "igraph_dfs graph rootv mode = Inr opf"
    using root by (simp add: igraph_dfs_def Let_def)
  obtain order parent events where opf: "opf = (order, parent, events)" by (cases opf) auto
  define V where "V = dfs_in_order events"
  define par where "par = (\<lambda>x. parent ! nat x)"
  have ok: "dfs_result_ok graph rootv V order parent"
    using igraph_dfs_result [OF wf dfs [unfolded opf]] by (simp add: V_def)
  have E: "?E = (\<lambda>x y. y \<in> set (igraph_neighbors graph x mode))"
    by (intro ext) (simp add: flow_edge_def)
  have t: "dfs_tree ?E rootv V par"
    unfolding E V_def par_def by (rule igraph_dfs_tree [OF wf dfs [unfolded opf]])
  have order: "order = V @ replicate (n - length V) (- 1)"
    and dist: "distinct V" and rng: "set V \<subseteq> {0 .. int n - 1}"
    and ne: "\<exists>rest. V = rootv # rest"
    using ok unfolding dfs_result_ok_def gn nat_int by blast+
  have lenV: "length V \<le> n" using length_le_of_distinct_range [OF dist rng] by simp
  define svc where "svc = fold dominator_number_step [0 .. int n - 1] (replicate n 0, order, 0)"
  define num where "num = fst svc"
  define vertex where "vertex = fst (snd svc)"
  define pred where "pred = map (\<lambda>v. dominator_prune parent v 0 (int (length v)))
             (igraph_adjlist_init graph (IGRAPH_REVERSE_MODE mode))"
  have ninv: "number_inv V order n n svc"
    unfolding svc_def by (rule number_inv_fold [OF dist rng order order_refl])
  have cs: "snd (snd svc) = int (length V)"
    and ln: "length num = n"
    and numv: "\<forall>j < length V. num ! nat (V ! j) = int j + 1 \<and> vertex ! j = V ! j + 1"
    using ninv lenV unfolding number_inv_def Let_def num_def vertex_def
    by (simp_all add: min_absorb2)
  have numV: "\<forall>j < length V. num ! nat (V ! j) = int j + 1"
    and vertexV: "\<forall>j < length V. vertex ! j = V ! j + 1"
    using numv by blast+
  define s0 where "s0 = \<lparr> ds_semi = num, ds_ancestor = replicate n 0, ds_label = [0 .. int n - 1],
         ds_bucket = igraph_i_dbucket_init (int n), ds_dom = replicate n (- 2) \<rparr>"
  define k where "k = length V - 1"
  have Vne: "V \<noteq> []" using ne by auto
  have k: "int k = int (length V) - 1" "Suc k = length V" "k < length V"
    using Vne by (cases V, simp, simp add: k_def)+
  have inv0: "dom_inv ?E rootv V par n (Suc k) s0"
    unfolding k(2) s0_def by (rule dom_inv_start [OF rng ln numV])
  have parent: "\<forall>w \<in> set V. parent ! nat w = par w" by (simp add: par_def)
  have predV: "\<forall>w \<in> set V. set (pred ! nat w) = {v \<in> set V. ?E v w}"
  proof
    fix w assume "w \<in> set V"
    then have w: "0 \<le> w" "w < g_n graph" using rng gn by auto
    show "set (pred ! nat w) = {v \<in> set V. ?E v w}"
      unfolding pred_def flow_edge_def by (rule dominator_pred_exact [OF wf gd mode ok w])
  qed
  from dominator_main_loop_spec [OF t rng vertexV parent predV k(3) inv0] obtain s1 where
    s1: "fold_option (dominator_main_step vertex parent pred) (rev [1 .. int k]) s0 = Some s1"
        "dom_inv ?E rootv V par n (Suc 0) s1" by blast
  have loop: "fold_option
       (dominator_main_step
          (fst (snd (fold dominator_number_step [0 .. igraph_vcount graph - 1]
                       (replicate (nat (igraph_vcount graph)) 0, fst opf, 0))))
          (fst (snd opf))
          (map (\<lambda>v. dominator_prune (fst (snd opf)) v 0 (int (length v)))
             (igraph_adjlist_init graph (IGRAPH_REVERSE_MODE mode))))
       (rev [1 .. snd (snd (fold dominator_number_step [0 .. igraph_vcount graph - 1]
                       (replicate (nat (igraph_vcount graph)) 0, fst opf, 0))) - 1])
       \<lparr> ds_semi = fst (fold dominator_number_step [0 .. igraph_vcount graph - 1]
                       (replicate (nat (igraph_vcount graph)) 0, fst opf, 0)),
         ds_ancestor = replicate (nat (igraph_vcount graph)) 0,
         ds_label = [0 .. igraph_vcount graph - 1],
         ds_bucket = igraph_i_dbucket_init (igraph_vcount graph),
         ds_dom = replicate (nat (igraph_vcount graph)) (- 2) \<rparr> = Some s1"
    using s1(1)
    unfolding gn opf fst_conv snd_conv nat_int svc_def [symmetric] cs k(1) [symmetric]
      vertex_def [symmetric] num_def [symmetric] pred_def [symmetric] s0_def [symmetric] .
  have cs1: "1 \<le> snd (snd (fold dominator_number_step [0 .. igraph_vcount graph - 1]
                       (replicate (nat (igraph_vcount graph)) 0, fst opf, 0)))"
    unfolding gn opf fst_conv nat_int svc_def [symmetric] cs using k(1) by simp
  define d4 where "d4 = fold (dominator_fixup_step vertex (ds_semi s1)) [1 .. int k] (ds_dom s1)"
  define ep where "ep = fold (dominator_tree_edge_step rootv mode (d4[nat rootv := - 1]))
                          [0 .. int n - 1] (replicate (nat (int (length V) * 2 - 2)) 0, 0)"
  from igraph_dominator_tree_run [OF root dir mode dfs loop cs1, of outs wd] obtain outs' dt where
    run: "igraph_dominator_tree graph rootv outs wd mode = Some (Inr (), outs')"
    and out: "out_dom outs' = (if out_dom outs = None then None else Some (d4[nat rootv := - 1]))"
    and lo: "out_leftout outs'
             = (case out_leftout outs of
                  None \<Rightarrow> None
                | Some l \<Rightarrow>
                    Some (fst (fold (dominator_leftout_step parent (int n - int (length V)))
                                 [0 .. int n - 1]
                                 (igraph_vector_resize l (int n - int (length V)), 0))))"
    and cr: "igraph_create (fst ep) (int n) True = Inr dt"
    and dto: "out_domtree outs' = (if wd then Some dt else out_domtree outs)"
    unfolding gn opf fst_conv snd_conv nat_int svc_def [symmetric] cs k(1) [symmetric]
      vertex_def [symmetric] d4_def [symmetric] ep_def [symmetric]
    by (elim exE conjE)
  have fi: "forest_inv ?E rootv V par n (Suc 0) (ds_semi s1) (ds_ancestor s1) (ds_label s1)"
    and dl: "length (ds_dom s1) = n"
    and dr: "\<forall>v \<in> set V. Suc 0 \<le> index_of V v \<and> \<not> pending ?E rootv V par (Suc 0) v \<longrightarrow>
               domrel ?E rootv V v (ds_dom s1 ! nat v)"
    and df: "\<forall>x. 0 \<le> x \<and> nat x < n \<and> x \<notin> set V \<longrightarrow> ds_dom s1 ! nat x = - 2"
    using s1(2) unfolding dom_inv_def by blast+
  have semi: "\<forall>x \<in> set V. 1 \<le> index_of V x \<longrightarrow> ds_semi s1 ! nat x = int (sdn ?E V x) + 1"
    using forest_inv_semi [OF fi] by simp
  have rel: "\<forall>v \<in> set V. 1 \<le> index_of V v \<longrightarrow> domrel ?E rootv V v (ds_dom s1 ! nat v)"
    using dr pending_first [OF t] by simp
  from dominator_fixup_spec [OF t rng vertexV semi dl rel df k(3)] have
    f: "length d4 = n"
       "\<forall>v \<in> set V. 1 \<le> index_of V v \<and> index_of V v \<le> k \<longrightarrow> d4 ! nat v = idom ?E rootv V v"
       "\<forall>x. 0 \<le> x \<and> nat x < n \<and> x \<notin> set V \<longrightarrow> d4 ! nat x = - 2"
    unfolding d4_def by blast+
  have rn: "nat rootv < n" using root gn by simp
  have other: "d4[nat rootv := - 1] ! nat v = d4 ! nat v" if "0 \<le> v" "v \<noteq> rootv" for v
  proof -
    have "nat v \<noteq> nat rootv" using that root(1) by linarith
    then show ?thesis by simp
  qed
  let ?dm = "d4[nat rootv := - 1]"
  have dmV: "\<forall>v \<in> set V. v \<noteq> rootv \<longrightarrow> ?dm ! nat v = idom ?E rootv V v"
  proof (intro ballI impI)
    fix v assume v: "v \<in> set V" "v \<noteq> rootv"
    have "index_of V v \<noteq> 0"
    proof
      assume "index_of V v = 0"
      then have "index_of V v = index_of V rootv" using dfs_tree_facts(3) [OF t] by simp
      then have "v = rootv" by (rule index_of_inj [OF v(1) dfs_tree_facts(2) [OF t]])
      then show False using v(2) by simp
    qed
    moreover have "index_of V v < length V" by (rule index_of_less [OF v(1)])
    ultimately have "1 \<le> index_of V v \<and> index_of V v \<le> k" using k(2) by simp
    then have "d4 ! nat v = idom ?E rootv V v" using f(2) v(1) by blast
    then show "?dm ! nat v = idom ?E rootv V v"
      using other [OF vertex_nat(1) [OF rng v(1)] v(2)] by simp
  qed
  have dmO: "\<forall>v. 0 \<le> v \<and> v < int n \<and> v \<notin> set V \<longrightarrow> ?dm ! nat v = - 2"
  proof (intro allI impI)
    fix v assume v: "0 \<le> v \<and> v < int n \<and> v \<notin> set V"
    then have "v \<noteq> rootv" using dfs_tree_facts(2) [OF t] by auto
    moreover have "nat v < n" using v by linarith
    ultimately show "?dm ! nat v = - 2" using other [of v] f(3) v by simp
  qed
  text \<open>The vertices that are left out.\<close>
  have pr: "parent ! nat rootv = - 1"
    and un: "\<forall>x \<in> {0 .. int n - 1} - set V. parent ! nat x = - 2"
    and pa: "\<forall>j < length V. 0 < j \<longrightarrow> (\<exists>i < j. parent ! nat (V ! j) = V ! i)"
    using ok unfolding dfs_result_ok_def gn nat_int by blast+
  have reached: "parent ! nat x \<ge> - 1" if xV: "x \<in> set V" for x
  proof -
    obtain j where j: "j < length V" "V ! j = x" using xV by (auto simp: in_set_conv_nth)
    show ?thesis
    proof (cases "j = 0")
      case True
      then have "x = rootv" using ne j by auto
      then show ?thesis using pr by simp
    next
      case False
      then obtain i where i: "i < j" "parent ! nat (V ! j) = V ! i" using pa j by blast
      then have "V ! i \<in> set V" using j by simp
      then have "0 \<le> V ! i" using rng by auto
      then show ?thesis using i j by simp
    qed
  qed
  have flt: "filter (\<lambda>j. parent ! nat j < - 1) [0 .. int n - 1]
               = filter (\<lambda>j. j \<notin> set V) [0 .. int n - 1]"
  proof (rule filter_cong [OF refl])
    fix x assume x: "x \<in> set [0 .. int n - 1]"
    show "(parent ! nat x < - 1) = (x \<notin> set V)"
    proof (cases "x \<in> set V")
      case True
      then show ?thesis using reached [OF True] by simp
    next
      case False
      then show ?thesis using un x by auto
    qed
  qed
  define L where "L = filter (\<lambda>j. j \<notin> set V) [0 .. int n - 1]"
  have lenL: "length L = n - length V" unfolding L_def by (rule length_filter_outside [OF dist rng])
  have left: "fst (fold (dominator_leftout_step parent (int n - int (length V))) [0 .. int n - 1]
                     (igraph_vector_resize l (int n - int (length V)), 0)) = L" for l :: "int list"
  proof -
    let ?v = "igraph_vector_resize l (int n - int (length V))"
    have nl: "nat (int n - int (length V)) = n - length V" by simp
    have lv: "length ?v = n - length V" unfolding igraph_vector_resize_def nl by simp
    have "fold (dominator_leftout_step parent (int n - int (length V))) [0 .. int n - 1] (?v, 0)
            = stores L (?v, 0)"
      using dominator_leftout_fold [of "(?v, 0)" parent "[0 .. int n - 1]"
          "int n - int (length V)"] lenL lenV
      unfolding flt L_def [symmetric] by simp
    also have "\<dots> = (L, int (length L))"
      using stores_eq [of 0 L ?v] lenL lv by simp
    finally show ?thesis by simp
  qed
  text \<open>The edges of the tree.\<close>
  define pr2 where "pr2 = (\<lambda>i. if mode = IGRAPH_OUT then [?dm ! nat i, i] else [i, ?dm ! nat i])"
  define js where "js = filter (\<lambda>i. i \<in> set V \<and> i \<noteq> rootv) [0 .. int n - 1]"
  have rV: "rootv \<in> set V" using ne by auto
  have lenjs: "length js = length V - 1"
    unfolding js_def by (rule length_filter_inside [OF dist rng rV])
  have cond: "filter (\<lambda>i. i \<noteq> rootv \<and> ?dm ! nat i \<ge> 0) [0 .. int n - 1] = js"
    unfolding js_def
  proof (rule filter_cong [OF refl])
    fix x assume x: "x \<in> set [0 .. int n - 1]"
    show "(x \<noteq> rootv \<and> ?dm ! nat x \<ge> 0) = (x \<in> set V \<and> x \<noteq> rootv)"
    proof (cases "x \<in> set V")
      case True
      show ?thesis
      proof (cases "x = rootv")
        case False
        have "?dm ! nat x = idom ?E rootv V x" using dmV True False by blast
        moreover have "idom ?E rootv V x \<in> set V" by (rule idom_facts(3) [OF t True False])
        ultimately have "0 \<le> ?dm ! nat x" using rng by auto
        then show ?thesis using True False by simp
      qed simp
    next
      case False
      then have "?dm ! nat x = - 2" using dmO x by simp
      then show ?thesis using False by simp
    qed
  qed
  have xs: "concat (map (\<lambda>i. if i \<noteq> rootv \<and> ?dm ! nat i \<ge> 0 then pr2 i else [])
              [0 .. int n - 1]) = concat (map pr2 js)"
    unfolding concat_map_if cond ..
  have lxs: "length (concat (map pr2 js)) = 2 * (length V - 1)"
    unfolding lenjs [symmetric] by (induction js) (simp_all add: pr2_def)
  have ev: "nat (int (length V) * 2 - 2) = 2 * (length V - 1)" by auto
  have "ep = stores (concat (map (\<lambda>i. if i \<noteq> rootv \<and> ?dm ! nat i \<ge> 0 then pr2 i else [])
                               [0 .. int n - 1]))
               (replicate (nat (int (length V) * 2 - 2)) 0, 0)"
    unfolding ep_def dominator_tree_edge_fold_stores pr2_def ..
  also have "\<dots> = stores (concat (map pr2 js)) (replicate (nat (int (length V) * 2 - 2)) 0, 0)"
    unfolding xs ..
  also have "\<dots> = (concat (map pr2 js), int (length (concat (map pr2 js))))"
    using stores_eq [of 0 "concat (map pr2 js)" "replicate (nat (int (length V) * 2 - 2)) 0"]
      lxs ev by simp
  finally have epv: "fst ep = concat (map pr2 js)" by simp
  have jsV: "i \<in> set V \<and> i \<noteq> rootv" if "i \<in> set js" for i using that by (simp add: js_def)
  have entries: "0 \<le> x \<and> x < int n" if "x \<in> set (concat (map pr2 js))" for x
  proof -
    from that obtain i where i: "i \<in> set js" "x \<in> set (pr2 i)" by auto
    note iV = jsV [OF i(1)]
    have "?dm ! nat i = idom ?E rootv V i" using dmV iV by blast
    moreover have "idom ?E rootv V i \<in> set V" using idom_facts(3) [OF t] iV by blast
    ultimately have "?dm ! nat i \<in> set V" by simp
    then have "x \<in> set V" using i(2) iV by (auto simp: pr2_def split: if_splits)
    then show ?thesis using rng by auto
  qed
  have "even (length (concat (map pr2 js)))" using lxs by simp
  from igraph_create_ok [OF this entries, of True]
  have "igraph_create (fst ep) (int n) True
          = Inr \<lparr> g_n = int n, g_directed = True, g_edges = edge_pairs (concat (map pr2 js)) \<rparr>"
    unfolding epv by simp
  moreover have "edge_pairs (concat (map pr2 js))
                   = map (\<lambda>i. if mode = IGRAPH_OUT then (?dm ! nat i, i) else (i, ?dm ! nat i)) js"
  proof (cases "mode = IGRAPH_OUT")
    case True
    then have "pr2 = (\<lambda>i. [?dm ! nat i, i])" by (simp add: pr2_def)
    then show ?thesis using True edge_pairs_concat_pairs [of "\<lambda>i. ?dm ! nat i" "\<lambda>i. i" js] by simp
  next
    case False
    then have "pr2 = (\<lambda>i. [i, ?dm ! nat i])" by (simp add: pr2_def)
    then show ?thesis using False edge_pairs_concat_pairs [of "\<lambda>i. i" "\<lambda>i. ?dm ! nat i" js] by simp
  qed
  ultimately have dt: "dt = \<lparr> g_n = int n, g_directed = True,
        g_edges = map (\<lambda>i. if mode = IGRAPH_OUT then (?dm ! nat i, i) else (i, ?dm ! nat i)) js \<rparr>"
    using cr by simp
  show ?thesis
  proof (intro exI conjI)
    show "igraph_dominator_tree graph rootv outs wd mode = Some (Inr (), outs')" by (rule run)
    show "out_dom outs' = (if out_dom outs = None then None else Some ?dm)" by (rule out)
    show "length ?dm = nat (igraph_vcount graph)" using f(1) gn by simp
    show "?dm ! nat rootv = - 1" using rn f(1) by simp
    show "dfs_tree ?E rootv V par" by (rule t)
    show "\<forall>v \<in> set V. v \<noteq> rootv \<longrightarrow> ?dm ! nat v = idom ?E rootv V v" by (rule dmV)
    show "\<forall>v. 0 \<le> v \<and> v < igraph_vcount graph \<and> v \<notin> set V \<longrightarrow> ?dm ! nat v = - 2"
      unfolding gn by (rule dmO)
    show "set V \<subseteq> {0 .. igraph_vcount graph - 1}" unfolding gn by (rule rng)
    show "out_leftout outs'
            = (if out_leftout outs = None then None
               else Some (filter (\<lambda>j. j \<notin> set V) [0 .. igraph_vcount graph - 1]))"
      unfolding gn L_def [symmetric] lo by (cases "out_leftout outs") (simp_all add: left)
    show "out_domtree outs'
            = (if wd
               then Some \<lparr> g_n = igraph_vcount graph, g_directed = True,
                           g_edges = map (\<lambda>i. if mode = IGRAPH_OUT then (?dm ! nat i, i)
                                               else (i, ?dm ! nat i))
                                       (filter (\<lambda>i. i \<in> set V \<and> i \<noteq> rootv)
                                          [0 .. igraph_vcount graph - 1]) \<rparr>
               else out_domtree outs)"
      unfolding gn js_def [symmetric] dto dt ..
  qed
qed

lemma igraph_dominator_tree_dom:
  assumes wf: "igraph_wf graph" and dir: "igraph_is_directed graph"
      and root: "0 \<le> rootv" "rootv < igraph_vcount graph"
      and mode: "mode \<noteq> IGRAPH_ALL" and od: "out_dom outs = Some d0"
  shows "\<exists>outs' dm V par.
           igraph_dominator_tree graph rootv outs wd mode = Some (Inr (), outs') \<and>
           out_dom outs' = Some dm \<and> length dm = nat (igraph_vcount graph) \<and>
           dm ! nat rootv = - 1 \<and>
           dfs_tree (flow_edge graph mode) rootv V par \<and>
           (\<forall>v \<in> set V. v \<noteq> rootv \<longrightarrow> dm ! nat v = idom (flow_edge graph mode) rootv V v) \<and>
           (\<forall>v. 0 \<le> v \<and> v < igraph_vcount graph \<and> v \<notin> set V \<longrightarrow> dm ! nat v = - 2)"
proof -
  from igraph_dominator_tree_outputs [OF wf dir root mode, of outs wd]
  obtain outs' dm V par where
    r: "igraph_dominator_tree graph rootv outs wd mode = Some (Inr (), outs')"
       "out_dom outs' = (if out_dom outs = None then None else Some dm)"
       "length dm = nat (igraph_vcount graph)" "dm ! nat rootv = - 1"
       "dfs_tree (flow_edge graph mode) rootv V par"
       "\<forall>v \<in> set V. v \<noteq> rootv \<longrightarrow> dm ! nat v = idom (flow_edge graph mode) rootv V v"
       "\<forall>v. 0 \<le> v \<and> v < igraph_vcount graph \<and> v \<notin> set V \<longrightarrow> dm ! nat v = - 2"
    by (elim exE conjE)
  have "out_dom outs' = Some dm" using r(2) od by simp
  then show ?thesis using r(1,3,4,5,6,7) by blast
qed

subsection \<open>The result\<close>

definition reachable :: "('a \<Rightarrow> 'a \<Rightarrow> bool) \<Rightarrow> 'a \<Rightarrow> 'a \<Rightarrow> bool" where
  "reachable E r v = (\<exists>xs. rpath E r xs v)"

text \<open>
  Claim C1. On a directed graph with the root among its vertices and mode
  \<^verbatim>\<open>IGRAPH_OUT\<close> or \<^verbatim>\<open>IGRAPH_IN\<close>, \<^verbatim>\<open>igraph_dominator_tree\<close> returns
  successfully and the \<open>dom\<close> vector it leaves has one entry per vertex: \<open>-1\<close> for the
  root, for every other vertex that the root reaches along the edges of the mode its
  immediate dominator (the one vertex that is an immediate dominator of it), and \<open>-2\<close>
  for every vertex that the root does not reach.
\<close>

theorem igraph_dominator_tree_correct:
  assumes wf: "igraph_wf graph" and dir: "igraph_is_directed graph"
      and root: "0 \<le> rootv" "rootv < igraph_vcount graph"
      and mode: "mode \<noteq> IGRAPH_ALL" and od: "out_dom outs = Some d0"
  shows "\<exists>outs' dm.
           igraph_dominator_tree graph rootv outs want_domtree mode = Some (Inr (), outs') \<and>
           out_dom outs' = Some dm \<and> length dm = nat (igraph_vcount graph) \<and>
           dm ! nat rootv = - 1 \<and>
           (\<forall>v. 0 \<le> v \<and> v < igraph_vcount graph \<and> v \<noteq> rootv \<longrightarrow>
              (if reachable (flow_edge graph mode) rootv v
               then \<forall>d. is_idom (flow_edge graph mode) rootv d v \<longleftrightarrow> d = dm ! nat v
               else dm ! nat v = - 2))"
proof -
  let ?E = "flow_edge graph mode"
  from igraph_dominator_tree_dom [OF wf dir root mode od, of want_domtree]
  obtain outs' dm V par where
    r: "igraph_dominator_tree graph rootv outs want_domtree mode = Some (Inr (), outs')"
       "out_dom outs' = Some dm" "length dm = nat (igraph_vcount graph)"
       "dm ! nat rootv = - 1"
    and t: "dfs_tree ?E rootv V par"
    and iv: "\<forall>v \<in> set V. v \<noteq> rootv \<longrightarrow> dm ! nat v = idom ?E rootv V v"
    and ov: "\<forall>v. 0 \<le> v \<and> v < igraph_vcount graph \<and> v \<notin> set V \<longrightarrow> dm ! nat v = - 2"
    by (elim exE conjE)
  have reach: "reachable ?E rootv v \<longleftrightarrow> v \<in> set V" for v
    unfolding reachable_def using rpath_in(2) [OF t] tree_rpath [OF t] by blast
  have "if reachable ?E rootv v
        then \<forall>d. is_idom ?E rootv d v \<longleftrightarrow> d = dm ! nat v
        else dm ! nat v = - 2"
    if v: "0 \<le> v \<and> v < igraph_vcount graph \<and> v \<noteq> rootv" for v
  proof (cases "v \<in> set V")
    case True
    have vr: "v \<noteq> rootv" using v by simp
    have d: "dm ! nat v = idom ?E rootv V v" using iv True vr by blast
    have "is_idom ?E rootv d v \<longleftrightarrow> d = dm ! nat v" for d
      unfolding d using idom_is_idom [OF t True vr] is_idom_unique [OF t True vr] by blast
    then show ?thesis using True reach by simp
  next
    case False
    then have "dm ! nat v = - 2" using ov v by blast
    then show ?thesis using False reach by simp
  qed
  then show ?thesis using r by blast
qed

theorem igraph_dominator_tree_correct_witness:
  "igraph_wf \<lparr> g_n = 13, g_directed = True,
       g_edges = [(0, 1), (0, 2), (0, 3), (1, 4), (2, 1), (2, 4), (2, 5), (3, 6), (3, 7),
                  (4, 12), (5, 8), (6, 9), (7, 9), (7, 10), (8, 5), (8, 11), (9, 11),
                  (10, 9), (11, 0), (11, 9), (12, 8)] \<rparr> \<and>
   igraph_dominator_tree \<lparr> g_n = 13, g_directed = True,
       g_edges = [(0, 1), (0, 2), (0, 3), (1, 4), (2, 1), (2, 4), (2, 5), (3, 6), (3, 7),
                  (4, 12), (5, 8), (6, 9), (7, 9), (7, 10), (8, 5), (8, 11), (9, 11),
                  (10, 9), (11, 0), (11, 9), (12, 8)] \<rparr> 0
     \<lparr> out_dom = Some [], out_domtree = None, out_leftout = None \<rparr> False IGRAPH_OUT
   = Some (Inr (), \<lparr> out_dom = Some [- 1, 0, 0, 0, 0, 0, 3, 3, 0, 0, 7, 0, 4],
                     out_domtree = None, out_leftout = None \<rparr>) \<and>
   is_idom (flow_edge \<lparr> g_n = 13, g_directed = True,
       g_edges = [(0, 1), (0, 2), (0, 3), (1, 4), (2, 1), (2, 4), (2, 5), (3, 6), (3, 7),
                  (4, 12), (5, 8), (6, 9), (7, 9), (7, 10), (8, 5), (8, 11), (9, 11),
                  (10, 9), (11, 0), (11, 9), (12, 8)] \<rparr> IGRAPH_OUT) 0 4 12"
proof -
  let ?g = "\<lparr> g_n = 13, g_directed = True,
       g_edges = [(0, 1), (0, 2), (0, 3), (1, 4), (2, 1), (2, 4), (2, 5), (3, 6), (3, 7),
                  (4, 12), (5, 8), (6, 9), (7, 9), (7, 10), (8, 5), (8, 11), (9, 11),
                  (10, 9), (11, 0), (11, 9), (12, 8)] \<rparr>"
  let ?outs = "\<lparr> out_dom = Some ([]::int list), out_domtree = None, out_leftout = None \<rparr>"
  have wf: "igraph_wf ?g" by code_simp
  have dir: "igraph_is_directed ?g" by code_simp
  have n: "igraph_vcount ?g = 13" by code_simp
  have run: "igraph_dominator_tree ?g 0 ?outs False IGRAPH_OUT
             = Some (Inr (), \<lparr> out_dom = Some [- 1, 0, 0, 0, 0, 0, 3, 3, 0, 0, 7, 0, 4],
                               out_domtree = None, out_leftout = None \<rparr>)"
    by code_simp
  have e: "flow_edge ?g IGRAPH_OUT 0 1" "flow_edge ?g IGRAPH_OUT 1 4"
      "flow_edge ?g IGRAPH_OUT 4 12"
    unfolding flow_edge_def by code_simp+
  have "rpath (flow_edge ?g IGRAPH_OUT) 0 [0, 1, 4, 12] 12"
    using e by (simp add: rpath_def path_def)
  then have reach: "reachable (flow_edge ?g IGRAPH_OUT) 0 12"
    unfolding reachable_def by blast
  from igraph_dominator_tree_correct [of ?g 0 IGRAPH_OUT ?outs "[]" False, OF wf dir]
  obtain outs' dm where
    r: "igraph_dominator_tree ?g 0 ?outs False IGRAPH_OUT = Some (Inr (), outs')"
       "out_dom outs' = Some dm"
       "\<forall>v. 0 \<le> v \<and> v < igraph_vcount ?g \<and> v \<noteq> 0 \<longrightarrow>
              (if reachable (flow_edge ?g IGRAPH_OUT) 0 v
               then \<forall>d. is_idom (flow_edge ?g IGRAPH_OUT) 0 d v \<longleftrightarrow> d = dm ! nat v
               else dm ! nat v = - 2)"
    unfolding n by auto
  have "outs' = \<lparr> out_dom = Some [- 1, 0, 0, 0, 0, 0, 3, 3, 0, 0, 7, 0, 4],
                  out_domtree = None, out_leftout = None \<rparr>"
    using r(1) unfolding run by simp
  then have dm: "dm = [- 1, 0, 0, 0, 0, 0, 3, 3, 0, 0, 7, 0, 4]" using r(2) by simp
  have "\<forall>d. is_idom (flow_edge ?g IGRAPH_OUT) 0 d 12 \<longleftrightarrow> d = dm ! nat 12"
    using r(3) reach unfolding n by force
  moreover have "dm ! nat 12 = 4" unfolding dm by simp
  ultimately have "is_idom (flow_edge ?g IGRAPH_OUT) 0 4 12" by simp
  then show ?thesis using wf run by simp
qed

section \<open>Proofs: the pivot for all cuts returns\<close>












section \<open>Proofs: the search returns\<close>



end
